(* ===== verification/Prelude.thy ===== *)
theory Prelude
  imports Main "HOL-Library.Word" "HOL-Library.AList" "HOL-Library.Monad_Syntax"
begin

text \<open>
  Shared vocabulary of the development: the machine types of the C++ code, sums over finite
  maps (the shape of every byte counter of the program), and the named collections of hints
  the component theories fill.

  \<^item> A \<^verbatim>\<open>std::size_t\<close> or \<^verbatim>\<open>uint64_t\<close> is a \<open>64 word\<close>: its arithmetic wraps, as in C++.
  \<^item> A \<^verbatim>\<open>std::string\<close> is a \<open>string\<close>, one \<open>char\<close> per byte.
  \<^item> Undefined behaviour (a dangling iterator, a freed node, a loop that does not end) is
    the value \<open>None\<close> of an \<open>option\<close>; an operation that returns \<open>Some\<close> has none.
\<close>

section \<open>Types and hint collections\<close>

type_synonym size_t = "64 word"

named_theorems keeps_inv \<open>an operation keeps the invariant of its component\<close>

definition size_of :: "string \<Rightarrow> size_t" where
  "size_of s = of_nat (length s)"

lemma size_of_Nil [simp]: "size_of [] = 0"
  by (simp add: size_of_def)

lemma size_of_Cons: "size_of (c # s) = 1 + size_of s"
  by (simp add: size_of_def)

lemma unat_size_of: "length s < 2 ^ 64 \<Longrightarrow> unat (size_of s) = length s"
  by (simp add: size_of_def unat_of_nat)

text \<open>
  Order of bytes. The program compares characters with ASCII bounds only; a byte above 127 is outside
  every such range whether \<^verbatim>\<open>char\<close> is signed or not.
\<close>

definition char_le :: "char \<Rightarrow> char \<Rightarrow> bool" where
  "char_le a b \<longleftrightarrow> (of_char a :: int) \<le> of_char b"

section \<open>Sums over finite maps\<close>

text \<open>
  A byte counter of the program is meant to be the sum of a quantity over a table's
  entries. \<open>msum\<close> is that sum, in any abelian group (here: words, where the counters wrap).
\<close>

definition msum :: "('k \<Rightarrow> 'v \<Rightarrow> 'a::ab_group_add) \<Rightarrow> ('k \<rightharpoonup> 'v) \<Rightarrow> 'a" where
  "msum f m = (\<Sum>k\<in>dom m. f k (the (m k)))"

lemma msum_empty [simp]: "msum f Map.empty = 0"
  by (simp add: msum_def)

lemma msum_del:
  assumes "finite (dom m)"
  shows "msum f (m(k := None)) = msum f m - (case m k of None \<Rightarrow> 0 | Some v \<Rightarrow> f k v)"
proof (cases "m k")
  case None
  then have "m(k := None) = m" by auto
  with None show ?thesis by simp
next
  case (Some v)
  have "msum f (m(k := None)) = (\<Sum>j\<in>dom m - {k}. f j (the (m j)))"
    unfolding msum_def by (rule sum.cong) auto
  also have "\<dots> = msum f m - f k v"
    using assms Some by (auto simp: msum_def sum_diff1)
  finally show ?thesis using Some by simp
qed

lemma msum_upd:
  assumes fin: "finite (dom m)"
  shows "msum f (m(k \<mapsto> v)) = msum f m - (case m k of None \<Rightarrow> 0 | Some w \<Rightarrow> f k w) + f k v"
proof -
  have "msum f (m(k \<mapsto> v)) = f k v + (\<Sum>j\<in>dom m - {k}. f j (the ((m(k \<mapsto> v)) j)))"
    using fin by (simp add: msum_def sum.insert_remove)
  moreover have "(\<Sum>j\<in>dom m - {k}. f j (the ((m(k \<mapsto> v)) j))) = msum f (m(k := None))"
    unfolding msum_def by (rule sum.cong) auto
  ultimately show ?thesis by (simp only: msum_del [OF fin] add.commute)
qed

lemma msum_map_of:
  "distinct (map fst xs) \<Longrightarrow> msum f (map_of xs) = (\<Sum>(k, v)\<leftarrow>xs. f k v)"
proof (induction xs)
  case (Cons x xs)
  obtain k v where x: "x = (k, v)" by (cases x)
  with Cons.prems have "map_of xs k = None"
    by (simp add: map_of_eq_None_iff)
  then have "msum f ((map_of xs)(k \<mapsto> v)) = msum f (map_of xs) + f k v"
    by (simp only: msum_upd [OF finite_dom_map_of] option.case diff_0_right)
  moreover have "map_of (x # xs) = (map_of xs)(k \<mapsto> v)"
    by (simp only: x map_of.simps fst_conv snd_conv)
  ultimately show ?case
    using Cons x by (simp only: distinct.simps list.map sum_list.Cons prod.case add.commute)
qed simp

text \<open>
  A counter that has not wrapped is the true sum: words and natural numbers agree as long as
  the natural sum fits.
\<close>

lemma msum_of_nat: "msum (\<lambda>k v. of_nat (g k v)) m = (of_nat (\<Sum>k\<in>dom m. g k (the (m k))) :: 'w::len word)"
  by (simp add: msum_def)

lemma unat_msum:
  assumes "(\<Sum>k\<in>dom m. g k (the (m k))) < 2 ^ 64"
  shows "unat (msum (\<lambda>k v. of_nat (g k v)) m :: size_t) = (\<Sum>k\<in>dom m. g k (the (m k)))"
proof -
  have "unat (of_nat (\<Sum>k\<in>dom m. g k (the (m k))) :: size_t) = (\<Sum>k\<in>dom m. g k (the (m k)))"
    using assms by (simp only: unat_of_nat) simp
  then show ?thesis by (simp only: msum_of_nat)
qed

section \<open>Options as computations\<close>

lemma bind_Some_iff: "Option.bind x f = Some y \<longleftrightarrow> (\<exists>a. x = Some a \<and> f a = Some y)"
  by (cases x) auto

lemma bind_Some_map: "Option.bind x (\<lambda>a. Some (f a)) = map_option f x"
  by (cases x) auto

end
