(* ===== verification/Stdlib.thy ===== *)
theory Stdlib
  imports Prelude
begin

text \<open>
  The containers of the C++ standard library the program uses.

  \<^item> \<^verbatim>\<open>std::unordered_map\<close> is an association list. Its operations are those of the library
    theory \<open>AList\<close>, read through \<open>map_of\<close>; the order of the list carries no meaning.
  \<^item> \<^verbatim>\<open>std::list\<close> is a list of nodes, each with an identity that is never reused. An
    iterator is the identity of its node, so it stays valid while other nodes move or are
    erased, and is dangling (\<open>None\<close>, undefined behaviour) once its node is erased.
\<close>

section \<open>unordered\_map\<close>

type_synonym ('k, 'v) umap = "('k \<times> 'v) list"

abbreviation um_find :: "('k, 'v) umap \<Rightarrow> 'k \<Rightarrow> 'v option" where
  "um_find \<equiv> map_of"

abbreviation um_set :: "'k \<Rightarrow> 'v \<Rightarrow> ('k, 'v) umap \<Rightarrow> ('k, 'v) umap" where
  "um_set \<equiv> AList.update"

abbreviation um_erase :: "'k \<Rightarrow> ('k, 'v) umap \<Rightarrow> ('k, 'v) umap" where
  "um_erase \<equiv> AList.delete"

text \<open>\<^verbatim>\<open>emplace\<close> leaves an existing entry alone.\<close>

definition um_emplace :: "'k \<Rightarrow> 'v \<Rightarrow> ('k, 'v) umap \<Rightarrow> ('k, 'v) umap" where
  "um_emplace k v m = (case um_find m k of None \<Rightarrow> um_set k v m | Some _ \<Rightarrow> m)"

definition um_ok :: "('k, 'v) umap \<Rightarrow> bool" where
  "um_ok m \<longleftrightarrow> distinct (map fst m)"

lemmas um_lookup [simp] = update_conv' delete_conv'

lemma um_emplace_new [simp]: "um_find m k = None \<Longrightarrow> um_emplace k v m = um_set k v m"
  by (simp add: um_emplace_def)

lemma um_ok_Nil [simp]: "um_ok []"
  by (simp add: um_ok_def)

lemma um_ok_set [simp]: "um_ok m \<Longrightarrow> um_ok (um_set k v m)"
  by (simp add: um_ok_def distinct_update)

lemma um_ok_erase [simp]: "um_ok m \<Longrightarrow> um_ok (um_erase k m)"
  by (simp add: um_ok_def distinct_delete)

lemma um_finite_dom [simp]: "finite (dom (um_find m))"
  by (rule finite_dom_map_of)

lemma um_size_card: "um_ok m \<Longrightarrow> length m = card (dom (um_find m))"
  by (metis um_ok_def dom_map_of_conv_image_fst distinct_card length_map list.set_map)

lemma length_um_erase_le: "length (um_erase k m) \<le> length m"
  by (rule length_delete_le)

lemma length_um_erase_less: "um_find m k = Some v \<Longrightarrow> length (um_erase k m) < length m"
proof -
  assume "um_find m k = Some v"
  then have "(k, v) \<in> set m" by (rule map_of_SomeD)
  then have "\<exists>x\<in>set m. \<not> (case x of (k', _) \<Rightarrow> k \<noteq> k')" by force
  then show ?thesis
    by (auto simp: AList.delete_eq intro!: length_filter_less)
qed

section \<open>list and its iterators\<close>

record 'a cxx_list =
  nodes :: "(nat \<times> 'a) list"
  next_id :: nat

definition cl_empty :: "'a cxx_list" where
  "cl_empty = \<lparr>nodes = [], next_id = 0\<rparr>"

definition cl_elems :: "'a cxx_list \<Rightarrow> 'a list" where
  "cl_elems l = map snd (nodes l)"

definition cl_is_empty :: "'a cxx_list \<Rightarrow> bool" where
  "cl_is_empty l \<longleftrightarrow> nodes l = []"

text \<open>\<^verbatim>\<open>push_front\<close>; the new node's iterator is what \<^verbatim>\<open>begin()\<close> returns afterwards.\<close>

definition cl_push_front :: "'a \<Rightarrow> 'a cxx_list \<Rightarrow> nat \<times> 'a cxx_list" where
  "cl_push_front x l =
     (next_id l, \<lparr>nodes = (next_id l, x) # nodes l, next_id = Suc (next_id l)\<rparr>)"

definition cl_deref :: "nat \<Rightarrow> 'a cxx_list \<Rightarrow> 'a option" where
  "cl_deref it l = map_of (nodes l) it"

definition cl_assign :: "nat \<Rightarrow> 'a \<Rightarrow> 'a cxx_list \<Rightarrow> 'a cxx_list option" where
  "cl_assign it x l = do {
     _ \<leftarrow> cl_deref it l;
     Some (l\<lparr>nodes := map (\<lambda>(i, y). (i, if i = it then x else y)) (nodes l)\<rparr>) }"

definition cl_erase :: "nat \<Rightarrow> 'a cxx_list \<Rightarrow> 'a cxx_list option" where
  "cl_erase it l = do {
     _ \<leftarrow> cl_deref it l;
     Some (l\<lparr>nodes := AList.delete it (nodes l)\<rparr>) }"

text \<open>\<^verbatim>\<open>l.splice(l.begin(), l, it)\<close>: the node moves to the front and keeps its identity.\<close>

definition cl_splice_front :: "nat \<Rightarrow> 'a cxx_list \<Rightarrow> 'a cxx_list option" where
  "cl_splice_front it l = do {
     x \<leftarrow> cl_deref it l;
     Some (l\<lparr>nodes := (it, x) # AList.delete it (nodes l)\<rparr>) }"

text \<open>\<^verbatim>\<open>back\<close> and \<^verbatim>\<open>pop_back\<close> are undefined on an empty list.\<close>

definition cl_back :: "'a cxx_list \<Rightarrow> 'a option" where
  "cl_back l = (if nodes l = [] then None else Some (snd (last (nodes l))))"

definition cl_pop_back :: "'a cxx_list \<Rightarrow> 'a cxx_list option" where
  "cl_pop_back l = (if nodes l = [] then None else Some (l\<lparr>nodes := butlast (nodes l)\<rparr>))"

text \<open>Identities are distinct and the next one is fresh: what iterator stability rests on.\<close>

definition cl_ok :: "'a cxx_list \<Rightarrow> bool" where
  "cl_ok l \<longleftrightarrow> distinct (map fst (nodes l)) \<and> (\<forall>i\<in>fst ` set (nodes l). i < next_id l)"

lemma cl_ok_empty [simp]: "cl_ok cl_empty"
  by (simp add: cl_ok_def cl_empty_def)

lemma nodes_empty [simp]: "nodes cl_empty = []"
  by (simp add: cl_empty_def)

lemma cl_fresh: "cl_ok l \<Longrightarrow> map_of (nodes l) (next_id l) = None"
  by (auto simp: cl_ok_def map_of_eq_None_iff)

lemma cl_ok_push [simp]:
  "cl_ok l \<Longrightarrow> cl_ok (snd (cl_push_front x l))"
  by (force simp: cl_ok_def cl_push_front_def)

lemma set_delete: "set (AList.delete k xs) = {p \<in> set xs. fst p \<noteq> k}"
  by (auto simp: AList.delete_eq)

lemma cl_ok_delete: "cl_ok l \<Longrightarrow> cl_ok (l\<lparr>nodes := AList.delete it (nodes l)\<rparr>)"
  by (auto simp: cl_ok_def distinct_delete set_delete)

lemma cl_ok_front:
  assumes "cl_ok l" and "map_of (nodes l) it = Some y"
  shows "cl_ok (l\<lparr>nodes := (it, x) # AList.delete it (nodes l)\<rparr>)"
proof -
  have "it < next_id l"
    using assms by (force simp: cl_ok_def dest: map_of_SomeD)
  then show ?thesis
    using cl_ok_delete [OF assms(1), of it] by (auto simp: cl_ok_def set_delete)
qed

lemma cl_ok_butlast: "cl_ok l \<Longrightarrow> cl_ok (l\<lparr>nodes := butlast (nodes l)\<rparr>)"
  by (auto simp: cl_ok_def map_butlast distinct_butlast dest: in_set_butlastD)

lemma delete_last:
  assumes "distinct (map fst xs)" and "xs \<noteq> []"
  shows "AList.delete (fst (last xs)) xs = butlast xs"
proof -
  obtain ys i x where xs: "xs = ys @ [(i, x)]"
    using assms(2) by (metis rev_exhaust surj_pair)
  with assms(1) have "i \<notin> fst ` set ys" by auto
  with xs show ?thesis by (auto simp: AList.delete_eq filter_id_conv image_iff)
qed

end
