(* ===== verification/Policy.thy ===== *)
theory Policy
  imports Stdlib
begin

text \<open>
  The interface \<^verbatim>\<open>EvictionPolicy\<close> (\<^verbatim>\<open>src/src/eviction/policy.h\<close>). The class with its five pure virtual
  operations is a record of operations on a policy state, so a caller that holds a
  \<^verbatim>\<open>unique_ptr<EvictionPolicy>\<close> dispatches through the record. The locale \<open>eviction_policy\<close> is the
  contract between the policies and the storage layer: what each operation does to the
  set of resident keys and their sizes, and what \<^verbatim>\<open>memory_used\<close> reports. It extends to
  \<open>newest_last_policy\<close>, the order guarantee the storage layer needs to keep the key just
  written. Both are interpreted for the policies of the program.
\<close>

record 'p policy =
  p_touch :: "string \<Rightarrow> 'p \<Rightarrow> 'p option"
  p_add :: "string \<Rightarrow> size_t \<Rightarrow> 'p \<Rightarrow> 'p option"
  p_remove :: "string \<Rightarrow> 'p \<Rightarrow> 'p option"
  p_evict :: "'p \<Rightarrow> (string \<times> 'p) option"
  p_memory_used :: "'p \<Rightarrow> size_t"

section \<open>What a policy charges\<close>

definition charge :: "string \<Rightarrow> size_t \<Rightarrow> size_t" where
  "charge k s = size_of k + s"

definition footprint :: "(string \<rightharpoonup> size_t) \<Rightarrow> size_t" where
  "footprint = msum charge"

lemma footprint_empty [simp]: "footprint Map.empty = 0"
  by (simp add: footprint_def)

lemma footprint_upd:
  "finite (dom m) \<Longrightarrow> footprint (m(k \<mapsto> s)) =
     footprint m - (case m k of None \<Rightarrow> 0 | Some t \<Rightarrow> charge k t) + charge k s"
  by (simp only: footprint_def msum_upd)

lemma footprint_del:
  "finite (dom m) \<Longrightarrow> footprint (m(k := None)) =
     footprint m - (case m k of None \<Rightarrow> 0 | Some t \<Rightarrow> charge k t)"
  by (simp only: footprint_def msum_del)

lemma footprint_insert:
  "finite (dom m) \<Longrightarrow> m k = None \<Longrightarrow> footprint (m(k \<mapsto> s)) = footprint m + charge k s"
  by (simp only: footprint_upd option.case diff_0_right)

text \<open>
  The true number of bytes, as a natural number. While it fits a \<^verbatim>\<open>size_t\<close> the counter is it.
\<close>

definition true_bytes :: "(string \<rightharpoonup> size_t) \<Rightarrow> nat" where
  "true_bytes m = (\<Sum>k\<in>dom m. length k + unat (the (m k)))"

lemma unat_footprint: "true_bytes m < 2 ^ 64 \<Longrightarrow> unat (footprint m) = true_bytes m"
proof -
  assume fits: "true_bytes m < 2 ^ 64"
  have "footprint m = msum (\<lambda>k s. of_nat (length k + unat s)) m"
    by (simp add: footprint_def msum_def charge_def size_of_def)
  with fits show ?thesis by (simp only: true_bytes_def unat_msum)
qed

section \<open>The contract\<close>

locale eviction_policy =
  fixes P :: "'p policy"
    and p_init :: 'p
    and p_inv :: "'p \<Rightarrow> bool"
    and resident :: "'p \<Rightarrow> string \<rightharpoonup> size_t"
  assumes inv_init: "p_inv p_init"
    and resident_init: "resident p_init = Map.empty"
    and finite_resident: "p_inv p \<Longrightarrow> finite (dom (resident p))"
    and touch_law: "p_inv p \<Longrightarrow>
      \<exists>p'. p_touch P k p = Some p' \<and> p_inv p' \<and> resident p' = resident p"
    and add_law: "p_inv p \<Longrightarrow>
      \<exists>p'. p_add P k s p = Some p' \<and> p_inv p' \<and> resident p' = (resident p)(k \<mapsto> s)"
    and remove_law: "p_inv p \<Longrightarrow>
      \<exists>p'. p_remove P k p = Some p' \<and> p_inv p' \<and> resident p' = (resident p)(k := None)"
    and evict_empty_law: "p_inv p \<Longrightarrow> resident p = Map.empty \<Longrightarrow> p_evict P p = Some ([], p)"
    and evict_law: "p_inv p \<Longrightarrow> resident p \<noteq> Map.empty \<Longrightarrow>
      \<exists>k p'. p_evict P p = Some (k, p') \<and> k \<in> dom (resident p) \<and> p_inv p' \<and>
             resident p' = (resident p)(k := None)"
    and memory_law: "p_inv p \<Longrightarrow> p_memory_used P p = footprint (resident p)"

text \<open>The extension: a key just added is evicted only when it is the last one left.\<close>

locale newest_last_policy = eviction_policy +
  fixes newest :: "'p \<Rightarrow> string \<Rightarrow> bool"
  assumes add_newest: "p_inv p \<Longrightarrow> p_add P k s p = Some p' \<Longrightarrow> newest p' k"
    and evict_newest: "p_inv p \<Longrightarrow> newest p k \<Longrightarrow> k \<in> dom (resident p) \<Longrightarrow>
      p_evict P p = Some (v, p') \<Longrightarrow> v \<noteq> k \<Longrightarrow> newest p' k"
    and evict_newest_alone: "p_inv p \<Longrightarrow> newest p k \<Longrightarrow> k \<in> dom (resident p) \<Longrightarrow>
      p_evict P p = Some (k, p') \<Longrightarrow> resident p' = Map.empty"

section \<open>Histories of a policy\<close>

datatype policy_op = Touch string | Add string size_t | Remove string | Evict

fun policy_step :: "'p policy \<Rightarrow> policy_op \<Rightarrow> 'p \<Rightarrow> 'p option" where
  "policy_step P (Touch k) p = p_touch P k p"
| "policy_step P (Add k s) p = p_add P k s p"
| "policy_step P (Remove k) p = p_remove P k p"
| "policy_step P Evict p = map_option snd (p_evict P p)"

text \<open>A history is listed latest operation first, so that the recursion follows the run.\<close>

fun policy_run :: "'p policy \<Rightarrow> 'p \<Rightarrow> policy_op list \<Rightarrow> 'p option" where
  "policy_run P p0 [] = Some p0"
| "policy_run P p0 (a # past) = do { p \<leftarrow> policy_run P p0 past; policy_step P a p }"

section \<open>Draining a policy\<close>

text \<open>
  Repeated eviction is what the storage layer's budget loop does; \<open>drain\<close> evicts \<open>n\<close> times and
  collects the victims.
\<close>

fun drain :: "'p policy \<Rightarrow> nat \<Rightarrow> 'p \<Rightarrow> (string list \<times> 'p) option" where
  "drain P 0 p = Some ([], p)"
| "drain P (Suc n) p = do {
     (k, p1) \<leftarrow> p_evict P p;
     (ks, p2) \<leftarrow> drain P n p1;
     Some (k # ks, p2) }"

context eviction_policy
begin

lemma evict_cases:
  assumes "p_inv p" and "p_evict P p = Some (k, p')"
  shows "p_inv p' \<and> resident p' = (resident p)(k := None) \<and>
    (resident p \<noteq> Map.empty \<longrightarrow> k \<in> dom (resident p))"
proof (cases "resident p = Map.empty")
  case True
  with assms evict_empty_law have "k = [] \<and> p' = p" by force
  with True assms(1) show ?thesis by auto
next
  case False
  from evict_law [OF assms(1) this] assms(2) show ?thesis by force
qed

lemma touch_inv: "p_inv p \<Longrightarrow> p_touch P k p = Some p' \<Longrightarrow> p_inv p' \<and> resident p' = resident p"
  using touch_law [of p k] by auto

lemma add_inv:
  "p_inv p \<Longrightarrow> p_add P k s p = Some p' \<Longrightarrow> p_inv p' \<and> resident p' = (resident p)(k \<mapsto> s)"
  using add_law [of p k s] by auto

lemma remove_inv:
  "p_inv p \<Longrightarrow> p_remove P k p = Some p' \<Longrightarrow> p_inv p' \<and> resident p' = (resident p)(k := None)"
  using remove_law [of p k] by auto

lemma step_total:
  assumes "p_inv p"
  shows "\<exists>p'. policy_step P a p = Some p' \<and> p_inv p'"
proof (cases a)
  case Evict
  then show ?thesis
    using assms evict_law [OF assms] evict_empty_law [OF assms] by (cases "resident p = Map.empty") auto
qed (use touch_law [OF assms] add_law [OF assms] remove_law [OF assms] in fastforce)+

text \<open>No history of a policy meets undefined behaviour, and all of them keep the invariant.\<close>

lemma run_total: "\<exists>p'. policy_run P p_init past = Some p' \<and> p_inv p'"
proof (induction past)
  case Nil
  then show ?case by (simp add: inv_init)
next
  case (Cons a past)
  then obtain p where "policy_run P p_init past = Some p" "p_inv p" by blast
  with step_total [of p a] show ?case by simp
qed

text \<open>
  As many evictions as there are resident keys return each key once and leave nothing, with the
  byte counter back at zero.
\<close>

lemma drain_all:
  assumes "p_inv p" and "card (dom (resident p)) = n"
  shows "\<exists>ks p'. drain P n p = Some (ks, p') \<and> p_inv p' \<and> resident p' = Map.empty \<and>
           distinct ks \<and> set ks = dom (resident p) \<and> p_memory_used P p' = 0"
  using assms
proof (induction n arbitrary: p)
  case 0
  then have "resident p = Map.empty" using finite_resident by auto
  with 0 show ?case using memory_law by simp
next
  case (Suc n)
  then have "resident p \<noteq> Map.empty" by auto
  then obtain k p1 where ev: "p_evict P p = Some (k, p1)" and k: "k \<in> dom (resident p)"
    and p1: "p_inv p1" "resident p1 = (resident p)(k := None)"
    using evict_law [OF Suc.prems(1)] by blast
  have "card (dom (resident p1)) = n"
    using k p1(2) Suc.prems finite_resident by (simp add: card_Diff_singleton)
  from Suc.IH [OF p1(1) this] obtain ks p2 where
    "drain P n p1 = Some (ks, p2)" "p_inv p2" "resident p2 = Map.empty"
    "distinct ks" "set ks = dom (resident p1)" "p_memory_used P p2 = 0" by blast
  with ev k p1(2) show ?case by auto
qed

end

end
