(* ===== verification/Lru.thy ===== *)
theory Lru
  imports Policy
begin

text \<open>
  The policy the program runs: \<^verbatim>\<open>class LRU\<close> (\<^verbatim>\<open>src/src/eviction/lru.h\<close>, \<^verbatim>\<open>lru.cpp\<close>), a recency list with an
  index of iterators into it. The operations are modelled with the list's nodes and the
  iterators explicit, so that a stale iterator would be undefined behaviour; the lemmas show
  there is none, that the two structures agree, that the byte counter is the sum of what is
  listed, and that the list is a recency list (\<open>lru_keys\<close>, most recent first).
\<close>

section \<open>State and operations\<close>

record lru_entry =
  le_key :: string
  le_size :: size_t

record lru =
  lru_list :: "lru_entry cxx_list"
  lru_index :: "(string, nat) umap"
  lru_memory_used :: size_t

definition lru_init :: lru where
  "lru_init = \<lparr>lru_list = cl_empty, lru_index = [], lru_memory_used = 0\<rparr>"

definition lru_touch :: "string \<Rightarrow> lru \<Rightarrow> lru option" where
  "lru_touch key s = (case um_find (lru_index s) key of
     None \<Rightarrow> Some s
   | Some it \<Rightarrow> do {
       l \<leftarrow> cl_splice_front it (lru_list s);
       Some (s\<lparr>lru_list := l\<rparr>) })"

definition lru_add :: "string \<Rightarrow> size_t \<Rightarrow> lru \<Rightarrow> lru option" where
  "lru_add key sz s = (case um_find (lru_index s) key of
     Some it \<Rightarrow> do {
       l \<leftarrow> cl_splice_front it (lru_list s);
       e \<leftarrow> cl_deref it l;
       let mem = lru_memory_used s - (size_of (le_key e) + le_size e);
       l \<leftarrow> cl_assign it (e\<lparr>le_size := sz\<rparr>) l;
       Some (s\<lparr>lru_list := l, lru_memory_used := mem + (size_of key + sz)\<rparr>) }
   | None \<Rightarrow>
       let (it, l) = cl_push_front \<lparr>le_key = key, le_size = sz\<rparr> (lru_list s)
       in Some (s\<lparr>lru_list := l,
                  lru_index := um_emplace key it (lru_index s),
                  lru_memory_used := lru_memory_used s + (size_of key + sz)\<rparr>))"

definition lru_remove :: "string \<Rightarrow> lru \<Rightarrow> lru option" where
  "lru_remove key s = (case um_find (lru_index s) key of
     None \<Rightarrow> Some s
   | Some it \<Rightarrow> do {
       e \<leftarrow> cl_deref it (lru_list s);
       l \<leftarrow> cl_erase it (lru_list s);
       Some (s\<lparr>lru_memory_used := lru_memory_used s - (size_of (le_key e) + le_size e),
               lru_list := l,
               lru_index := um_erase key (lru_index s)\<rparr>) })"

definition lru_evict :: "lru \<Rightarrow> (string \<times> lru) option" where
  "lru_evict s = (if cl_is_empty (lru_list s) then Some ([], s)
   else do {
     e \<leftarrow> cl_back (lru_list s);
     let key = le_key e;
     l \<leftarrow> cl_pop_back (lru_list s);
     Some (key, s\<lparr>lru_memory_used := lru_memory_used s - (size_of (le_key e) + le_size e),
                  lru_index := um_erase key (lru_index s),
                  lru_list := l\<rparr>) })"

text \<open>The virtual table of class \<^verbatim>\<open>LRU\<close>.\<close>

definition lru_policy :: "lru policy" where
  "lru_policy = \<lparr>p_touch = lru_touch, p_add = lru_add, p_remove = lru_remove,
                 p_evict = lru_evict, p_memory_used = lru_memory_used\<rparr>"

section \<open>Abstraction: the recency list\<close>

type_synonym recency = "(string \<times> size_t) list"

definition ent :: "lru_entry \<Rightarrow> string \<times> size_t" where
  "ent e = (le_key e, le_size e)"

definition lru_recency :: "lru \<Rightarrow> recency" where
  "lru_recency s = map ent (cl_elems (lru_list s))"

definition lru_keys :: "lru \<Rightarrow> string list" where
  "lru_keys s = map fst (lru_recency s)"

definition lru_resident :: "lru \<Rightarrow> string \<rightharpoonup> size_t" where
  "lru_resident s = map_of (lru_recency s)"

text \<open>
  The invariant: the list is well formed, no key is listed twice, the index maps exactly the
  listed keys to their nodes, and the counter is the sum of the charges.
\<close>

definition by_key :: "(nat \<times> lru_entry) list \<Rightarrow> (string \<times> nat) list" where
  "by_key ns = map (\<lambda>(i, e). (le_key e, i)) ns"

definition lru_inv :: "lru \<Rightarrow> bool" where
  "lru_inv s \<longleftrightarrow> cl_ok (lru_list s) \<and> distinct (lru_keys s) \<and>
     map_of (lru_index s) = map_of (by_key (nodes (lru_list s))) \<and>
     lru_memory_used s = footprint (lru_resident s)"

section \<open>The recency list, abstractly\<close>

text \<open>
  What the class promises, on the recency list alone: a use moves a key to the front, an
  insertion puts it there, and the victim is the key at the back.
\<close>

definition rec_touch :: "string \<Rightarrow> recency \<Rightarrow> recency" where
  "rec_touch k r = (case map_of r k of None \<Rightarrow> r | Some z \<Rightarrow> (k, z) # AList.delete k r)"

definition rec_add :: "string \<Rightarrow> size_t \<Rightarrow> recency \<Rightarrow> recency" where
  "rec_add k z r = (k, z) # AList.delete k r"

lemma map_of_rec_touch: "map_of (rec_touch k r) = map_of r"
  by (auto simp: rec_touch_def split: option.splits)

lemma map_of_rec_add: "map_of (rec_add k z r) = (map_of r)(k \<mapsto> z)"
  by (simp add: rec_add_def)

section \<open>Iterators and keys\<close>

definition distinct_nodes :: "(nat \<times> lru_entry) list \<Rightarrow> bool" where
  "distinct_nodes ns \<longleftrightarrow> distinct (map fst ns) \<and> distinct (map (le_key \<circ> snd) ns)"

lemma keys_of_nodes: "lru_keys s = map (le_key \<circ> snd) (nodes (lru_list s))"
  by (simp add: lru_keys_def lru_recency_def cl_elems_def ent_def)

lemma recency_of_nodes: "lru_recency s = map (ent \<circ> snd) (nodes (lru_list s))"
  by (simp add: lru_recency_def cl_elems_def)

lemma inv_distinct_nodes: "lru_inv s \<Longrightarrow> distinct_nodes (nodes (lru_list s))"
  by (simp add: lru_inv_def distinct_nodes_def cl_ok_def keys_of_nodes)

lemma by_key_None: "map_of (by_key ns) k = None \<longleftrightarrow> k \<notin> set (map (le_key \<circ> snd) ns)"
  by (force simp: by_key_def map_of_eq_None_iff)

text \<open>An index entry points at the one node with that key.\<close>

lemma by_key_Some:
  assumes "distinct_nodes ns" and "map_of (by_key ns) key = Some it"
  shows "\<exists>e. map_of ns it = Some e \<and> le_key e = key \<and>
             (\<forall>(i, e')\<in>set ns. i = it \<longleftrightarrow> le_key e' = key)"
proof -
  from assms(2) obtain e where e: "(it, e) \<in> set ns" "le_key e = key"
    by (auto simp: by_key_def dest!: map_of_SomeD)
  with assms(1) have "map_of ns it = Some e" by (simp add: distinct_nodes_def)
  moreover have "\<forall>(i, e')\<in>set ns. i = it \<longleftrightarrow> le_key e' = key"
    using assms(1) e by (fastforce simp: distinct_nodes_def distinct_map inj_on_def)
  ultimately show ?thesis using e(2) by blast
qed

lemma delete_by_key:
  assumes "\<forall>(i, e)\<in>set ns. i = it \<longleftrightarrow> le_key e = key"
  shows "map (ent \<circ> snd) (AList.delete it ns) = AList.delete key (map (ent \<circ> snd) ns)"
    and "by_key (AList.delete it ns) = AList.delete key (by_key ns)"
  using assms by (induction ns) (auto simp: by_key_def ent_def)

lemma recency_lookup:
  assumes "distinct_nodes ns" and "map_of ns it = Some e" and "le_key e = key"
  shows "map_of (map (ent \<circ> snd) ns) key = Some (le_size e)"
proof -
  have "distinct (map fst (map (ent \<circ> snd) ns))"
    using assms(1) by (simp add: distinct_nodes_def ent_def comp_def)
  moreover have "(key, le_size e) \<in> set (map (ent \<circ> snd) ns)"
    using assms(2,3) by (force simp: ent_def dest: map_of_SomeD)
  ultimately show ?thesis by (simp only: map_of_eq_Some_iff)
qed

section \<open>Every operation refines the recency list\<close>

lemma lru_index_lookup:
  assumes "lru_inv s" and "um_find (lru_index s) key = Some it"
  obtains e where "map_of (nodes (lru_list s)) it = Some e" and "le_key e = key"
    and "\<forall>(i, e')\<in>set (nodes (lru_list s)). i = it \<longleftrightarrow> le_key e' = key"
    and "map_of (lru_recency s) key = Some (le_size e)"
  using assms by_key_Some [OF inv_distinct_nodes [OF assms(1)], of key it]
    recency_lookup [OF inv_distinct_nodes [OF assms(1)]]
  by (auto simp: lru_inv_def recency_of_nodes)

lemma lru_index_none:
  assumes "lru_inv s"
  shows "um_find (lru_index s) key = None \<longleftrightarrow> map_of (lru_recency s) key = None"
  using assms by_key_None [of "nodes (lru_list s)" key]
  by (simp add: lru_inv_def recency_of_nodes map_of_eq_None_iff ent_def image_image)

lemma finite_lru_resident [simp]: "finite (dom (lru_resident s))"
  by (simp add: lru_resident_def finite_dom_map_of)

text \<open>Moving a listed node to the front, possibly with a new size: the shape shared by
  \<open>lru_touch\<close> and the update branch of \<open>lru_add\<close>.\<close>

lemma to_front_inv:
  assumes inv: "lru_inv s" and it: "map_of (nodes (lru_list s)) it = Some e" "le_key e = key"
    and only: "\<forall>(i, e')\<in>set (nodes (lru_list s)). i = it \<longleftrightarrow> le_key e' = key"
    and e': "le_key e' = key"
    and s': "lru_list s' = (lru_list s)\<lparr>nodes := (it, e') # AList.delete it (nodes (lru_list s))\<rparr>"
      "lru_index s' = lru_index s" "lru_memory_used s' = footprint (lru_resident s')"
  shows "lru_inv s' \<and> lru_recency s' = (key, le_size e') # AList.delete key (lru_recency s)"
proof -
  let ?ns = "nodes (lru_list s)"
  note del = delete_by_key [OF only]
  have rec: "lru_recency s' = (key, le_size e') # AList.delete key (lru_recency s)"
    by (simp add: recency_of_nodes s' del ent_def e')
  have d: "distinct (map fst (lru_recency s))" using inv by (simp add: lru_inv_def lru_keys_def)
  have "distinct (lru_keys s')"
    using d by (simp add: lru_keys_def rec AList.delete_keys distinct_removeAll)
  moreover have "cl_ok (lru_list s')"
    unfolding s' by (rule cl_ok_front [OF _ it(1)]) (use inv in \<open>simp add: lru_inv_def\<close>)
  moreover have "map_of (lru_index s') = map_of (by_key (nodes (lru_list s')))"
  proof -
    have "(it, e) \<in> set ?ns" using it(1) by (rule map_of_SomeD)
    then have "map_of (by_key ?ns) key = Some it"
      using by_key_Some [OF inv_distinct_nodes [OF inv]] only it(2) by_key_None [of ?ns key]
      by (cases "map_of (by_key ?ns) key") (force simp: by_key_def)+
    moreover have "by_key (nodes (lru_list s')) = (key, it) # AList.delete key (by_key ?ns)"
      using e' by (simp add: s' del(2) [symmetric]) (simp add: by_key_def)
    ultimately show ?thesis
      using inv by (auto simp: lru_inv_def s' fun_eq_iff delete_conv')
  qed
  ultimately show ?thesis using rec s'(3) by (simp add: lru_inv_def)
qed

text \<open>Erasing a listed node and its index entry: the shape shared by \<open>lru_remove\<close> and
  \<open>lru_evict\<close>.\<close>

lemma erase_inv:
  assumes inv: "lru_inv s"
    and only: "\<forall>(i, e)\<in>set (nodes (lru_list s)). i = it \<longleftrightarrow> le_key e = k"
    and r: "map_of (lru_recency s) k = Some z"
    and l: "lru_list s' = (lru_list s)\<lparr>nodes := AList.delete it (nodes (lru_list s))\<rparr>"
    and i: "lru_index s' = um_erase k (lru_index s)"
    and m: "lru_memory_used s' = lru_memory_used s - charge k z"
  shows "lru_inv s' \<and> lru_recency s' = AList.delete k (lru_recency s)"
proof -
  have rec: "lru_recency s' = AList.delete k (lru_recency s)"
    by (simp add: recency_of_nodes l delete_by_key [OF only])
  have "lru_memory_used s' = footprint (lru_resident s')"
    using inv r by (simp add: lru_resident_def rec m lru_inv_def delete_conv'
        footprint_del [OF finite_dom_map_of])
  moreover have "cl_ok (lru_list s')"
    unfolding l by (rule cl_ok_delete) (use inv in \<open>simp add: lru_inv_def\<close>)
  moreover have "distinct (lru_keys s')"
    using inv by (simp add: lru_keys_def rec lru_inv_def AList.delete_keys distinct_removeAll)
  moreover have "map_of (lru_index s') = map_of (by_key (nodes (lru_list s')))"
    using inv by (simp add: i l lru_inv_def delete_by_key [OF only] delete_conv')
  ultimately show ?thesis using rec by (simp add: lru_inv_def)
qed

lemma lru_touch_refines:
  assumes inv: "lru_inv s"
  shows "\<exists>s'. lru_touch k s = Some s' \<and> lru_inv s' \<and> lru_recency s' = rec_touch k (lru_recency s)"
proof (cases "um_find (lru_index s) k")
  case None
  with inv lru_index_none [OF inv, of k] show ?thesis by (simp add: lru_touch_def rec_touch_def)
next
  case (Some it)
  from lru_index_lookup [OF inv Some] obtain e where
    e: "map_of (nodes (lru_list s)) it = Some e" "le_key e = k"
    and only: "\<forall>(i, e')\<in>set (nodes (lru_list s)). i = it \<longleftrightarrow> le_key e' = k"
    and r: "map_of (lru_recency s) k = Some (le_size e)" .
  let ?s' = "s\<lparr>lru_list := (lru_list s)\<lparr>nodes := (it, e) # AList.delete it (nodes (lru_list s))\<rparr>\<rparr>"
  have rec: "lru_recency ?s' = (k, le_size e) # AList.delete k (lru_recency s)"
    using e(2) by (simp add: recency_of_nodes delete_by_key [OF only] ent_def)
  then have res: "lru_resident ?s' = lru_resident s"
    using r by (auto simp: lru_resident_def delete_conv')
  have "lru_inv ?s' \<and> lru_recency ?s' = (k, le_size e) # AList.delete k (lru_recency s)"
    by (rule to_front_inv [OF inv e only e(2)])
      (use inv res in \<open>simp_all add: lru_inv_def\<close>)
  with Some e r show ?thesis
    by (simp add: lru_touch_def cl_splice_front_def cl_deref_def rec_touch_def)
qed

lemma map_assign_delete:
  "map (\<lambda>(i, y). (i, if i = it then x else y)) (AList.delete it ns) = AList.delete it ns"
  by (induction ns) auto

lemma lru_add_refines:
  assumes inv: "lru_inv s"
  shows "\<exists>s'. lru_add k z s = Some s' \<and> lru_inv s' \<and> lru_recency s' = rec_add k z (lru_recency s)"
proof (cases "um_find (lru_index s) k")
  case None
  then have none: "map_of (lru_recency s) k = None" using lru_index_none [OF inv] by blast
  then have fresh: "k \<notin> fst ` set (lru_recency s)" by (simp add: map_of_eq_None_iff)
  define s' where "s' = s\<lparr>lru_list := snd (cl_push_front \<lparr>le_key = k, le_size = z\<rparr> (lru_list s)),
    lru_index := um_set k (next_id (lru_list s)) (lru_index s),
    lru_memory_used := lru_memory_used s + charge k z\<rparr>"
  have s': "lru_add k z s = Some s'"
    using None by (simp add: lru_add_def cl_push_front_def charge_def s'_def)
  have l: "lru_list s' = snd (cl_push_front \<lparr>le_key = k, le_size = z\<rparr> (lru_list s))"
    and i: "lru_index s' = um_set k (next_id (lru_list s)) (lru_index s)"
    and m: "lru_memory_used s' = lru_memory_used s + charge k z"
    by (simp_all add: s'_def)
  have rec: "lru_recency s' = (k, z) # lru_recency s"
    by (simp add: recency_of_nodes l cl_push_front_def ent_def)
  have "lru_memory_used s' = footprint (lru_resident s')"
    using inv none by (simp only: lru_resident_def rec map_of.simps fst_conv snd_conv m lru_inv_def
        footprint_insert finite_dom_map_of)
  moreover have "cl_ok (lru_list s')"
    using inv by (simp add: l lru_inv_def)
  moreover have "distinct (lru_keys s')"
    using inv fresh by (simp add: lru_keys_def rec lru_inv_def)
  moreover have "map_of (lru_index s') = map_of (by_key (nodes (lru_list s')))"
    using inv by (simp add: i l lru_inv_def cl_push_front_def by_key_def)
  ultimately show ?thesis
    using s' rec fresh by (simp add: lru_inv_def rec_add_def)
next
  case (Some it)
  from lru_index_lookup [OF inv Some] obtain e where
    e: "map_of (nodes (lru_list s)) it = Some e" "le_key e = k"
    and only: "\<forall>(i, e')\<in>set (nodes (lru_list s)). i = it \<longleftrightarrow> le_key e' = k"
    and r: "map_of (lru_recency s) k = Some (le_size e)" .
  let ?e' = "e\<lparr>le_size := z\<rparr>"
  define s' where "s' = s\<lparr>lru_list := (lru_list s)
      \<lparr>nodes := (it, ?e') # AList.delete it (nodes (lru_list s))\<rparr>,
    lru_memory_used := lru_memory_used s - charge k (le_size e) + charge k z\<rparr>"
  have s': "lru_add k z s = Some s'"
    using Some e by (simp add: lru_add_def cl_splice_front_def cl_deref_def cl_assign_def
        map_assign_delete charge_def s'_def)
  have l: "lru_list s' = (lru_list s)\<lparr>nodes := (it, ?e') # AList.delete it (nodes (lru_list s))\<rparr>"
    and i: "lru_index s' = lru_index s"
    and m: "lru_memory_used s' = lru_memory_used s - charge k (le_size e) + charge k z"
    by (simp_all add: s'_def)
  have rec: "lru_recency s' = (k, z) # AList.delete k (lru_recency s)"
    using e(2) by (simp add: recency_of_nodes l delete_by_key [OF only] ent_def)
  then have res: "lru_resident s' = (lru_resident s)(k \<mapsto> z)"
    by (simp add: lru_resident_def delete_conv')
  have "lru_memory_used s' = footprint (lru_resident s')"
    using inv r by (simp add: res m lru_inv_def footprint_upd [OF finite_lru_resident]) 
      (simp add: lru_resident_def)
  from to_front_inv [OF inv e only _ l i this] e(2) s' rec
  show ?thesis by (simp add: rec_add_def)
qed

lemma lru_remove_refines:
  assumes inv: "lru_inv s"
  shows "\<exists>s'. lru_remove k s = Some s' \<and> lru_inv s' \<and>
           lru_recency s' = AList.delete k (lru_recency s)"
proof (cases "um_find (lru_index s) k")
  case None
  with lru_index_none [OF inv] have "k \<notin> fst ` set (lru_recency s)"
    by (metis map_of_eq_None_iff)
  with None inv show ?thesis by (simp add: lru_remove_def)
next
  case (Some it)
  from lru_index_lookup [OF inv Some] obtain e where
    e: "map_of (nodes (lru_list s)) it = Some e" "le_key e = k"
    and only: "\<forall>(i, e')\<in>set (nodes (lru_list s)). i = it \<longleftrightarrow> le_key e' = k"
    and r: "map_of (lru_recency s) k = Some (le_size e)" .
  define s' where "s' = s\<lparr>lru_list := (lru_list s)\<lparr>nodes := AList.delete it (nodes (lru_list s))\<rparr>,
    lru_index := um_erase k (lru_index s),
    lru_memory_used := lru_memory_used s - charge k (le_size e)\<rparr>"
  have s': "lru_remove k s = Some s'"
    using Some e by (simp add: lru_remove_def cl_erase_def cl_deref_def charge_def s'_def)
  have l: "lru_list s' = (lru_list s)\<lparr>nodes := AList.delete it (nodes (lru_list s))\<rparr>"
    and i: "lru_index s' = um_erase k (lru_index s)"
    and m: "lru_memory_used s' = lru_memory_used s - charge k (le_size e)"
    by (simp_all add: s'_def)
  from erase_inv [OF inv only r l i m] s' show ?thesis by blast
qed

lemma lru_evict_empty:
  assumes "lru_inv s" and "lru_recency s = []"
  shows "lru_evict s = Some ([], s)"
  using assms by (simp add: lru_evict_def cl_is_empty_def recency_of_nodes)

lemma lru_evict_refines:
  assumes inv: "lru_inv s" and ne: "lru_recency s \<noteq> []"
  shows "\<exists>s'. lru_evict s = Some (fst (last (lru_recency s)), s') \<and> lru_inv s' \<and>
           lru_recency s' = butlast (lru_recency s)"
proof -
  let ?ns = "nodes (lru_list s)"
  have ns: "?ns \<noteq> []" using ne by (simp add: recency_of_nodes)
  obtain it e where last: "last ?ns = (it, e)" by (cases "last ?ns")
  with ns have mem: "(it, e) \<in> set ?ns" using last_in_set by metis
  have d: "distinct_nodes ?ns" by (rule inv_distinct_nodes [OF inv])
  define k where "k = le_key e"
  have only: "\<forall>(i, e')\<in>set ?ns. i = it \<longleftrightarrow> le_key e' = k"
    using d mem by (fastforce simp: k_def distinct_nodes_def distinct_map inj_on_def)
  have bl: "AList.delete it ?ns = butlast ?ns"
    using delete_last [of ?ns] d ns last by (simp add: distinct_nodes_def)
  have r: "map_of (lru_recency s) k = Some (le_size e)"
    using recency_lookup [OF d _ refl] mem d by (simp add: k_def recency_of_nodes distinct_nodes_def)
  have rl: "last (lru_recency s) = (k, le_size e)"
    using ns last by (simp add: recency_of_nodes last_map ent_def k_def)
  define s' where "s' = s\<lparr>lru_list := (lru_list s)\<lparr>nodes := AList.delete it ?ns\<rparr>,
    lru_index := um_erase k (lru_index s),
    lru_memory_used := lru_memory_used s - charge k (le_size e)\<rparr>"
  have s': "lru_evict s = Some (k, s')"
    using ns last by (simp add: lru_evict_def cl_is_empty_def cl_back_def cl_pop_back_def
        charge_def k_def bl s'_def Let_def)
  have l: "lru_list s' = (lru_list s)\<lparr>nodes := AList.delete it ?ns\<rparr>"
    and i: "lru_index s' = um_erase k (lru_index s)"
    and m: "lru_memory_used s' = lru_memory_used s - charge k (le_size e)"
    by (simp_all add: s'_def)
  have "lru_recency s' = butlast (lru_recency s)"
    by (simp add: recency_of_nodes l bl map_butlast)
  with erase_inv [OF inv only r l i m] s' rl show ?thesis by simp
qed

section \<open>LRU implements the interface\<close>

lemma lru_resident_upd: "map_of (AList.delete k r) = (map_of r)(k := None)"
  by (rule delete_conv')

lemma lru_inv_init: "lru_inv lru_init"
  by (simp add: lru_inv_def lru_init_def lru_keys_def lru_recency_def lru_resident_def
      cl_elems_def by_key_def)

lemma recency_Nil_iff: "lru_recency s = [] \<longleftrightarrow> lru_resident s = Map.empty"
  by (simp add: lru_resident_def)

lemma butlast_delete:
  assumes "lru_inv s" and "lru_recency s \<noteq> []"
  shows "butlast (lru_recency s) = AList.delete (fst (last (lru_recency s))) (lru_recency s)"
  using assms delete_last [of "lru_recency s"] by (simp add: lru_inv_def lru_keys_def)

text \<open>The order guarantee: the key at the front.\<close>

definition lru_newest :: "lru \<Rightarrow> string \<Rightarrow> bool" where
  "lru_newest s k \<longleftrightarrow> lru_recency s \<noteq> [] \<and> fst (hd (lru_recency s)) = k"

interpretation lru: newest_last_policy lru_policy lru_init lru_inv lru_resident lru_newest
proof (unfold_locales, goal_cases)
  case 1
  show ?case by (rule lru_inv_init)
next
  case 2
  show ?case by (simp add: lru_resident_def lru_init_def lru_recency_def cl_elems_def)
next
  case (3 p)
  show ?case by simp
next
  case (4 p k)
  from lru_touch_refines [OF this, of k] show ?case
    by (auto simp: lru_policy_def lru_resident_def map_of_rec_touch)
next
  case (5 p k s)
  from lru_add_refines [OF this, of k s] show ?case
    by (auto simp: lru_policy_def lru_resident_def map_of_rec_add)
next
  case (6 p k)
  from lru_remove_refines [OF this, of k] show ?case
    by (auto simp: lru_policy_def lru_resident_def delete_conv')
next
  case (7 p)
  then show ?case using lru_evict_empty by (simp add: lru_policy_def recency_Nil_iff)
next
  case (8 p)
  then have ne: "lru_recency p \<noteq> []" by (simp add: recency_Nil_iff)
  moreover have "fst (last (lru_recency p)) \<in> dom (lru_resident p)"
    using ne by (simp add: lru_resident_def dom_map_of_conv_image_fst)
  ultimately show ?case
    using lru_evict_refines [OF 8(1) ne] butlast_delete [OF 8(1) ne]
    by (auto simp: lru_policy_def lru_resident_def delete_conv')
next
  case (9 p)
  then show ?case by (simp add: lru_policy_def lru_inv_def)
next
  case (10 p k s p')
  with lru_add_refines [of p k s] show ?case
    by (auto simp: lru_policy_def lru_newest_def rec_add_def)
next
  case (11 p k v p')
  then have ne: "lru_recency p \<noteq> []" by (simp add: lru_newest_def)
  have "length (lru_recency p) \<noteq> 1"
    using 11 ne lru_evict_refines [OF 11(1) ne]
    by (auto simp: lru_policy_def lru_newest_def length_Suc_conv)
  with 11 lru_evict_refines [OF 11(1) ne] show ?case
    by (auto simp: lru_policy_def lru_newest_def neq_Nil_conv)
next
  case (12 p k p')
  then have ne: "lru_recency p \<noteq> []" by (simp add: lru_newest_def)
  with 12 lru_evict_refines [OF 12(1) ne] have ev: "lru_recency p' = butlast (lru_recency p)"
    and "fst (last (lru_recency p)) = fst (hd (lru_recency p))"
    by (auto simp: lru_policy_def lru_newest_def)
  moreover have "distinct (map fst (lru_recency p))"
    using 12(1) by (simp add: lru_inv_def lru_keys_def)
  ultimately have "length (lru_recency p) = 1"
    using ne by (cases "lru_recency p") (auto split: if_splits)
  with ev show ?case by (auto simp: lru_resident_def length_Suc_conv)
qed

section \<open>The victim is the least recently used key\<close>

text \<open>
  \<open>last_use past k\<close> is the time of the last operation of a history that used \<open>k\<close>, counted from 1
  (0: never). Histories are listed latest first.
\<close>

fun uses :: "policy_op \<Rightarrow> string \<Rightarrow> bool" where
  "uses (Touch j) k = (j = k)"
| "uses (Add j _) k = (j = k)"
| "uses _ k = False"

fun last_use :: "policy_op list \<Rightarrow> string \<Rightarrow> nat" where
  "last_use [] k = 0"
| "last_use (a # past) k = (if uses a k then Suc (length past) else last_use past k)"

lemma last_use_le: "last_use past k \<le> length past"
  by (induction past) (auto intro: le_SucI)

definition by_last_use :: "policy_op list \<Rightarrow> recency \<Rightarrow> bool" where
  "by_last_use past r \<longleftrightarrow> sorted_wrt (\<lambda>j k. last_use past k < last_use past j) (map fst r)"

lemma by_last_use_unused:
  assumes "by_last_use past r" and "\<And>k. k \<in> fst ` set r \<Longrightarrow> \<not> uses a k"
  shows "by_last_use (a # past) r"
  using assms(1) unfolding by_last_use_def
  by (rule sorted_wrt_mono_rel [rotated]) (use assms(2) in \<open>auto simp: image_iff\<close>)

lemma by_last_use_delete: "by_last_use past r \<Longrightarrow> by_last_use past (AList.delete k r)"
  by (simp add: by_last_use_def AList.delete_eq sorted_wrt_map sorted_wrt_filter)

lemma by_last_use_butlast: "by_last_use past r \<Longrightarrow> by_last_use past (butlast r)"
  by (simp add: by_last_use_def sorted_wrt_map butlast_conv_take sorted_wrt_take)

lemma by_last_use_front:
  assumes "by_last_use past r" and "uses a k" and "\<And>j. j \<noteq> k \<Longrightarrow> \<not> uses a j"
  shows "by_last_use (a # past) ((k, z) # AList.delete k r)"
proof -
  have "by_last_use (a # past) (AList.delete k r)"
    by (rule by_last_use_unused [OF by_last_use_delete [OF assms(1)]])
      (use assms(3) in \<open>auto simp: set_delete\<close>)
  with assms(2,3) show ?thesis
    by (auto simp: by_last_use_def set_delete less_Suc_eq_le last_use_le)
qed

section \<open>Histories against the specification\<close>

fun rec_step :: "policy_op \<Rightarrow> recency \<Rightarrow> recency" where
  "rec_step (Touch k) r = rec_touch k r"
| "rec_step (Add k z) r = rec_add k z r"
| "rec_step (Remove k) r = AList.delete k r"
| "rec_step Evict r = butlast r"

fun rec_run :: "policy_op list \<Rightarrow> recency" where
  "rec_run [] = []"
| "rec_run (a # past) = rec_step a (rec_run past)"

lemma lru_step_refines:
  assumes "lru_inv s"
  shows "\<exists>s'. policy_step lru_policy a s = Some s' \<and> lru_inv s' \<and>
           lru_recency s' = rec_step a (lru_recency s)"
proof (cases a)
  case Evict
  then show ?thesis
    using lru_evict_refines [OF assms] lru_evict_empty [OF assms] assms
    by (cases "lru_recency s = []") (auto simp: lru_policy_def)
qed (use lru_touch_refines [OF assms] lru_add_refines [OF assms] lru_remove_refines [OF assms]
      in \<open>auto simp: lru_policy_def\<close>)

lemma lru_run_inv:
  "\<exists>s. policy_run lru_policy lru_init past = Some s \<and> lru_inv s \<and> lru_recency s = rec_run past"
proof (induction past)
  case Nil
  show ?case using lru_inv_init by (simp add: lru_init_def lru_recency_def cl_elems_def)
next
  case (Cons a past)
  then obtain s where "policy_run lru_policy lru_init past = Some s" "lru_inv s"
    "lru_recency s = rec_run past" by blast
  with lru_step_refines [of s a] show ?case by simp
qed

lemma rec_run_by_last_use: "by_last_use past (rec_run past)"
proof (induction past)
  case (Cons a past)
  show ?case
  proof (cases a)
    case (Touch k)
    with Cons by_last_use_unused [of past "rec_run past" a] by_last_use_front [of past "rec_run past" a k]
    show ?thesis by (auto simp: rec_touch_def map_of_eq_None_iff split: option.splits)
  next
    case (Add k z)
    with Cons by_last_use_front [of past "rec_run past" a k] show ?thesis by (auto simp: rec_add_def)
  next
    case (Remove k)
    with by_last_use_unused [OF by_last_use_delete [OF Cons]] show ?thesis by simp
  next
    case Evict
    with by_last_use_unused [OF by_last_use_butlast [OF Cons]] show ?thesis by simp
  qed
qed (simp add: by_last_use_def)

section \<open>Properties\<close>

text \<open>
  C4: Along every history of operations on class \<^verbatim>\<open>LRU\<close>, no operation dereferences, erases or splices
  a dangling iterator or pops an empty list; the list is exactly the recency list of the
  specification \<open>rec_run\<close>; and \<^verbatim>\<open>memory_used()\<close> is the sum of key length and size over the listed
  keys (modulo \<open>2\<^sup>6\<^sup>4\<close>, as \<^verbatim>\<open>size_t\<close> wraps).
\<close>

theorem lru_refines_recency_list:
  "\<exists>s. policy_run lru_policy lru_init past = Some s \<and> lru_recency s = rec_run past \<and>
       lru_memory_used s = footprint (map_of (rec_run past))"
  using lru_run_inv [of past] by (auto simp: lru_inv_def lru_resident_def)

text \<open>
  The key \<^verbatim>\<open>LRU::evict\<close> returns is the least recently used one: after any history, every other
  key still listed was touched or added later than the victim.
\<close>

theorem lru_victim_least_recent:
  assumes "policy_run lru_policy lru_init past = Some s" and "lru_keys s \<noteq> []"
  shows "\<exists>v s'. lru_evict s = Some (v, s') \<and> v \<in> set (lru_keys s) \<and>
    (\<forall>k. k \<in> set (lru_keys s') \<longrightarrow> last_use past v < last_use past k)"
proof -
  from lru_run_inv [of past] assms(1) have inv: "lru_inv s" and r: "lru_recency s = rec_run past"
    by auto
  have ne: "lru_recency s \<noteq> []" using assms(2) by (simp add: lru_keys_def)
  then obtain r' v z where rv: "lru_recency s = r' @ [(v, z)]" by (metis rev_exhaust surj_pair)
  from rec_run_by_last_use [of past] rv r
  have "\<forall>k\<in>fst ` set r'. last_use past v < last_use past k"
    by (auto simp: by_last_use_def sorted_wrt_append)
  with lru_evict_refines [OF inv ne] rv show ?thesis by (auto simp: lru_keys_def)
qed

lemma lru_victim_least_recent_witness:
  "\<exists>s v s'. policy_run lru_policy lru_init [Touch ''a'', Add ''b'' 2, Add ''a'' 1] = Some s \<and>
     lru_keys s = [''a'', ''b''] \<and> lru_evict s = Some (v, s') \<and> v = ''b'' \<and>
     last_use [Touch ''a'', Add ''b'' 2, Add ''a'' 1] v = 2"
proof -
  let ?past = "[Touch ''a'', Add ''b'' 2, Add ''a'' 1]"
  obtain s where s: "policy_run lru_policy lru_init ?past = Some s"
    and r: "lru_recency s = rec_run ?past"
    using lru_run_inv by blast
  have keys: "lru_keys s = [''a'', ''b'']"
    by (simp add: lru_keys_def r rec_add_def rec_touch_def)
  from lru_victim_least_recent [OF s] keys obtain v s' where
    ev: "lru_evict s = Some (v, s')" and "v \<in> {''a'', ''b''}"
    and later: "\<forall>k. k \<in> set (lru_keys s') \<longrightarrow> last_use ?past v < last_use ?past k" by auto
  moreover have "v = ''b''"
    using lru_evict_refines [of s] ev r lru_run_inv [of ?past] s
    by (auto simp: rec_add_def rec_touch_def)
  ultimately show ?thesis using s keys by auto
qed

text \<open>
  Evicting as many times as there are keys hands every resident key to the caller exactly once,
  leaves nothing listed and returns the byte counter to zero: no charge leaks.
\<close>

theorem lru_drain_returns_every_key:
  assumes "policy_run lru_policy lru_init past = Some s"
  shows "\<exists>ks s'. drain lru_policy (length (lru_keys s)) s = Some (ks, s') \<and> distinct ks \<and>
    set ks = set (lru_keys s) \<and> lru_keys s' = [] \<and> lru_memory_used s' = 0"
proof -
  from lru_run_inv [of past] assms have inv: "lru_inv s" by auto
  have dom: "dom (lru_resident s) = set (lru_keys s)"
    by (simp add: lru_resident_def lru_keys_def dom_map_of_conv_image_fst)
  then have "card (dom (lru_resident s)) = length (lru_keys s)"
    using inv by (simp add: lru_inv_def distinct_card)
  from lru.drain_all [OF inv this] dom show ?thesis
    by (auto simp: lru_policy_def lru_keys_def recency_Nil_iff)
qed

lemma lru_drain_returns_every_key_witness:
  "\<exists>s ks s'. policy_run lru_policy lru_init [Add ''b'' 2, Add ''a'' 1] = Some s \<and>
     drain lru_policy 2 s = Some (ks, s') \<and> set ks = {''b'', ''a''} \<and> lru_memory_used s' = 0"
proof -
  obtain s where s: "policy_run lru_policy lru_init [Add ''b'' 2, Add ''a'' 1] = Some s"
    and r: "lru_recency s = rec_run [Add ''b'' 2, Add ''a'' 1]"
    using lru_run_inv by blast
  have keys: "lru_keys s = [''b'', ''a'']" by (simp add: lru_keys_def r rec_add_def)
  from lru_drain_returns_every_key [OF s] s show ?thesis by (auto simp: keys numeral_2_eq_2)
qed

end
