(* ===== verification/Ttl.thy ===== *)
theory Ttl
  imports Stdlib
begin

text \<open>
  \<^verbatim>\<open>class TTLManager\<close> (\<^verbatim>\<open>src/src/ttl.h\<close>, \<^verbatim>\<open>ttl.cpp\<close>): the table of expiry times. Each operation is one
  critical section of the manager's mutex and is modelled as one step; the value
  \<^verbatim>\<open>steady_clock::now()\<close> it reads is its argument \<open>now\<close>, in nanoseconds. The sweeper thread that
  calls \<^verbatim>\<open>expired_keys\<close> is modelled with the storage it calls back, in theory \<open>Sweeper\<close>.
\<close>

section \<open>State and operations\<close>

type_synonym time = int

record ttl_manager =
  expiries :: "(string, time) umap"

definition ttl_init :: ttl_manager where
  "ttl_init = \<lparr>expiries = []\<rparr>"

text \<open>\<^verbatim>\<open>std::chrono::seconds\<close> added to a \<^verbatim>\<open>steady_clock\<close> time point counts nanoseconds.\<close>

definition nanoseconds :: "int \<Rightarrow> time" where
  "nanoseconds sec = sec * 1000000000"

definition ttl_set :: "string \<Rightarrow> int \<Rightarrow> time \<Rightarrow> ttl_manager \<Rightarrow> ttl_manager" where
  "ttl_set key duration now t =
     (if duration \<le> 0 then t\<lparr>expiries := um_erase key (expiries t)\<rparr>
      else t\<lparr>expiries := um_set key (now + nanoseconds duration) (expiries t)\<rparr>)"

definition ttl_is_expired :: "string \<Rightarrow> time \<Rightarrow> ttl_manager \<Rightarrow> bool \<times> ttl_manager" where
  "ttl_is_expired key now t = (case um_find (expiries t) key of
     None \<Rightarrow> (False, t)
   | Some e \<Rightarrow>
       if e \<le> now then (True, t\<lparr>expiries := um_erase key (expiries t)\<rparr>)
       else (False, t))"

text \<open>The loop of \<^verbatim>\<open>expired_keys\<close>: collect and erase while iterating.\<close>

fun expired_loop :: "time \<Rightarrow> (string, time) umap \<Rightarrow> string list \<times> (string, time) umap" where
  "expired_loop now [] = ([], [])"
| "expired_loop now ((k, e) # rest) =
     (let (ks, kept) = expired_loop now rest
      in if e \<le> now then (k # ks, kept) else (ks, (k, e) # kept))"

definition ttl_expired_keys :: "time \<Rightarrow> ttl_manager \<Rightarrow> string list \<times> ttl_manager" where
  "ttl_expired_keys now t =
     (let (ks, kept) = expired_loop now (expiries t) in (ks, t\<lparr>expiries := kept\<rparr>))"

definition ttl_erase :: "string \<Rightarrow> ttl_manager \<Rightarrow> ttl_manager" where
  "ttl_erase key t = t\<lparr>expiries := um_erase key (expiries t)\<rparr>"

definition ttl_clear :: "ttl_manager \<Rightarrow> ttl_manager" where
  "ttl_clear t = t\<lparr>expiries := []\<rparr>"

section \<open>What the operations do to the expiry map\<close>

definition ttl_ok :: "ttl_manager \<Rightarrow> bool" where
  "ttl_ok t \<longleftrightarrow> um_ok (expiries t)"

abbreviation expiry :: "ttl_manager \<Rightarrow> string \<rightharpoonup> time" where
  "expiry t \<equiv> um_find (expiries t)"

text \<open>The keys whose time has come.\<close>

definition due :: "time \<Rightarrow> ttl_manager \<Rightarrow> string set" where
  "due now t = {k. \<exists>e. expiry t k = Some e \<and> e \<le> now}"

lemma expiry_set [simp]:
  "expiry (ttl_set k d now t) =
     (expiry t)(k := if d \<le> 0 then None else Some (now + nanoseconds d))"
  by (simp add: ttl_set_def)

lemma expiry_erase [simp]: "expiry (ttl_erase k t) = (expiry t)(k := None)"
  by (simp add: ttl_erase_def)

lemma is_expired_iff [simp]: "fst (ttl_is_expired k now t) \<longleftrightarrow> k \<in> due now t"
  by (auto simp: ttl_is_expired_def due_def split: option.splits)

lemma expiry_is_expired [simp]:
  "expiry (snd (ttl_is_expired k now t)) = (if k \<in> due now t then (expiry t)(k := None) else expiry t)"
  by (auto simp: ttl_is_expired_def due_def split: option.splits)

lemma is_expired_not_due: "k \<notin> due now t \<Longrightarrow> ttl_is_expired k now t = (False, t)"
  by (auto simp: ttl_is_expired_def due_def split: option.splits)

lemma ttl_ok_init [simp]: "ttl_ok ttl_init"
  by (simp add: ttl_ok_def ttl_init_def)

lemma ttl_ok_ops [keeps_inv]:
  assumes "ttl_ok t"
  shows "ttl_ok (ttl_set k d now t)" "ttl_ok (snd (ttl_is_expired k now t))"
    "ttl_ok (ttl_erase k t)" "ttl_ok (ttl_clear t)"
  using assms
  by (auto simp: ttl_ok_def ttl_set_def ttl_is_expired_def ttl_erase_def ttl_clear_def
      split: option.splits)

lemma expired_loop_filter:
  "expired_loop now m = (map fst (filter (\<lambda>(k, e). e \<le> now) m), filter (\<lambda>(k, e). \<not> e \<le> now) m)"
  by (induction m) auto

lemma map_of_filter_value:
  "distinct (map fst m) \<Longrightarrow>
     map_of (filter (\<lambda>(k, v). Q v) m) k = (case map_of m k of None \<Rightarrow> None | Some v \<Rightarrow> if Q v then Some v else None)"
  by (induction m) (auto split: option.splits simp: map_of_eq_None_iff image_iff)

lemma ttl_expired_keys_spec:
  assumes "ttl_ok t" and "ttl_expired_keys now t = (ks, t')"
  shows "ttl_ok t' \<and> distinct ks \<and> set ks = due now t \<and>
    expiry t' = (\<lambda>k. if k \<in> due now t then None else expiry t k)"
proof -
  let ?m = "expiries t"
  have d: "distinct (map fst ?m)" using assms(1) by (simp add: ttl_ok_def um_ok_def)
  have ks: "ks = map fst (filter (\<lambda>(k, e). e \<le> now) ?m)"
    and t': "expiries t' = filter (\<lambda>(k, e). \<not> e \<le> now) ?m"
    using assms(2) by (auto simp: ttl_expired_keys_def expired_loop_filter)
  have "set ks = due now t"
    using d by (force simp: ks due_def)
  moreover have "expiry t' = (\<lambda>k. if k \<in> due now t then None else expiry t k)"
    using map_of_filter_value [OF d, of "\<lambda>e. \<not> e \<le> now"]
    by (auto simp: t' due_def fun_eq_iff split: option.splits)
  ultimately show ?thesis
    using d by (simp add: ks t' ttl_ok_def um_ok_def distinct_map_filter)
qed

section \<open>Properties\<close>

text \<open>
  Expiry is exact. A key given a positive time to live at time \<open>t0\<close> is reported expired at
  \<open>now\<close> exactly when \<open>now\<close> has reached \<open>t0\<close> plus that many seconds; a key given no time to live is
  never reported; and reporting a key forgets its expiry, so it is reported once.
\<close>

theorem ttl_expires_exactly_on_time:
  "(fst (ttl_is_expired k now (ttl_set k d t0 t)) \<longleftrightarrow> 0 < d \<and> t0 + nanoseconds d \<le> now) \<and>
   expiry (snd (ttl_is_expired k now (ttl_set k d t0 t))) =
     (expiry t)(k := if 0 < d \<and> now < t0 + nanoseconds d then Some (t0 + nanoseconds d) else None)"
  by (auto simp: due_def)

text \<open>
  One pass of the sweeper's collection returns every key that is due, each exactly once and no
  other, and leaves exactly the expiries that are not due.
\<close>

theorem ttl_sweep_collects_due_keys:
  assumes "ttl_ok t"
  shows "\<exists>ks t'. ttl_expired_keys now t = (ks, t') \<and> ttl_ok t' \<and> distinct ks \<and>
    set ks = {k. \<exists>e. expiry t k = Some e \<and> e \<le> now} \<and>
    expiry t' = (\<lambda>k. if k \<in> set ks then None else expiry t k)"
proof -
  obtain ks t' where r: "ttl_expired_keys now t = (ks, t')" by fastforce
  from ttl_expired_keys_spec [OF assms r] r show ?thesis by (auto simp: due_def)
qed

lemma ttl_sweep_collects_due_keys_witness:
  "ttl_ok \<lparr>expiries = [(''a'', 5), (''b'', 9)]\<rparr> \<and>
   (\<exists>ks t'. ttl_expired_keys 7 \<lparr>expiries = [(''a'', 5), (''b'', 9)]\<rparr> = (ks, t') \<and> set ks = {''a''})"
proof -
  have ok: "ttl_ok \<lparr>expiries = [(''a'', 5), (''b'', 9)]\<rparr>" by (simp add: ttl_ok_def um_ok_def)
  from ttl_sweep_collects_due_keys [OF ok, of 7] ok show ?thesis
    by (auto split: if_splits)
qed

end
