(* ===== verification/Storage.thy ===== *)
theory Storage
  imports Lru Ttl Complex_Main
begin

text \<open>
  \<^verbatim>\<open>class Storage\<close> (\<^verbatim>\<open>src/src/storage.h\<close>, \<^verbatim>\<open>storage.cpp\<close>): the table of values, the eviction policy
  behind its interface, the expiry table and the counters. Every public operation holds the
  storage mutex for its whole body and is one step here. The values the code reads from its
  environment are arguments: \<open>now\<close> (the clock) and \<open>cap\<close> (\<^verbatim>\<open>value.capacity()\<close>, which C++ leaves to the
  implementation). The record \<open>runtime\<close> holds the policy object's operations and how
  \<^verbatim>\<open>unordered_map\<close> grows its bucket array, which C++ leaves to the implementation too.

  The lemmas about the operations are proved once in the locale \<open>eviction_policy\<close>, for any policy that
  meets the contract, and reach the program through the interpretation for \<^verbatim>\<open>LRU\<close>.
\<close>

section \<open>State\<close>

text \<open>A shared pointer to an immutable string: \<open>None\<close> is the null pointer.\<close>

type_synonym blob = "string option"

record key_meta =
  km_value :: blob
  km_size :: size_t

record 'p storage =
  st_data :: "(string, key_meta) umap"
  st_buckets :: size_t
  st_policy :: 'p
  st_ttl :: ttl_manager
  st_hits :: size_t
  st_misses :: size_t
  st_evictions :: size_t
  st_expired_keys :: size_t
  st_value_bytes :: size_t
  st_largest_item :: size_t
  st_peak :: size_t
  st_memory_limit :: size_t
  st_max_value_size :: size_t

record 'p runtime =
  rt_policy :: "'p policy"
  rt_grow :: "size_t \<Rightarrow> nat \<Rightarrow> size_t"

definition kMaxKeySize :: size_t where "kMaxKeySize = 1 * 1024 * 1024"

definition kEntryOverhead :: size_t where "kEntryOverhead = 128"

definition storage_init :: "'p \<Rightarrow> size_t \<Rightarrow> size_t \<Rightarrow> size_t \<Rightarrow> 'p storage" where
  "storage_init p buckets memory_limit max_value_size =
     \<lparr>st_data = [], st_buckets = buckets, st_policy = p, st_ttl = ttl_init,
      st_hits = 0, st_misses = 0, st_evictions = 0, st_expired_keys = 0,
      st_value_bytes = 0, st_largest_item = 0, st_peak = 0,
      st_memory_limit = memory_limit, st_max_value_size = max_value_size\<rparr>"

section \<open>Operations\<close>

definition bucket_bytes :: "'p storage \<Rightarrow> size_t" where
  "bucket_bytes st = st_buckets st * 8"

definition used_memory :: "'p runtime \<Rightarrow> 'p storage \<Rightarrow> size_t" where
  "used_memory rt st = p_memory_used (rt_policy rt) (st_policy st) + bucket_bytes st"

definition can_store :: "'p storage \<Rightarrow> string \<Rightarrow> string \<Rightarrow> size_t \<Rightarrow> bool" where
  "can_store st key value cap =
     (if size_of key > kMaxKeySize \<or> size_of value > st_max_value_size st then False
      else let accounted = cap + kEntryOverhead
           in accounted + size_of key \<le> st_memory_limit st)"

text \<open>\<^verbatim>\<open>meta.value ? meta.value->size() : 0\<close>\<close>

definition blob_size :: "blob \<Rightarrow> size_t" where
  "blob_size b = (case b of None \<Rightarrow> 0 | Some s \<Rightarrow> size_of s)"

text \<open>
  The budget loop. Each round erases an entry of the table, so the loop ends; \<open>None\<close> is undefined
  behaviour inside the policy.
\<close>

function evict_if_over_limit :: "'p runtime \<Rightarrow> 'p storage \<Rightarrow> 'p storage option" where
  "evict_if_over_limit rt st =
     (if st_data st \<noteq> [] \<and> used_memory rt st > st_memory_limit st then
        (case p_evict (rt_policy rt) (st_policy st) of
           None \<Rightarrow> None
         | Some (victim, p) \<Rightarrow>
             (case um_find (st_data st) victim of
                None \<Rightarrow> Some (st\<lparr>st_policy := p\<rparr>)
              | Some meta \<Rightarrow>
                  evict_if_over_limit rt
                    (st\<lparr>st_policy := p,
                        st_value_bytes := st_value_bytes st - blob_size (km_value meta),
                        st_data := um_erase victim (st_data st),
                        st_ttl := ttl_erase victim (st_ttl st),
                        st_evictions := st_evictions st + 1\<rparr>)))
      else Some st)"
  by pat_completeness auto
termination
  by (relation "measure (\<lambda>(rt, st). length (st_data st))") (auto intro: length_um_erase_less)

declare evict_if_over_limit.simps [simp del]

definition storage_set ::
  "'p runtime \<Rightarrow> string \<Rightarrow> string \<Rightarrow> size_t \<Rightarrow> int \<Rightarrow> time \<Rightarrow> 'p storage \<Rightarrow> (bool \<times> 'p storage) option" where
  "storage_set rt key value cap ttl_sec now st =
     (if \<not> can_store st key value cap then Some (False, st)
      else do {
        let payload = size_of value;
        let accounted = cap + kEntryOverhead;
        let blob = Some value;
        st \<leftarrow> (case um_find (st_data st) key of
            None \<Rightarrow> do {
              let st = st\<lparr>st_value_bytes := st_value_bytes st + payload,
                          st_largest_item := max (st_largest_item st) payload\<rparr>;
              let data = um_emplace key \<lparr>km_value = blob, km_size = accounted\<rparr> (st_data st);
              let st = st\<lparr>st_data := data, st_buckets := rt_grow rt (st_buckets st) (length data)\<rparr>;
              p \<leftarrow> p_add (rt_policy rt) key accounted (st_policy st);
              Some (st\<lparr>st_policy := p\<rparr>) }
          | Some meta \<Rightarrow> do {
              let st = st\<lparr>st_value_bytes := st_value_bytes st - blob_size (km_value meta) + payload,
                          st_largest_item := max (st_largest_item st) payload\<rparr>;
              let st = st\<lparr>st_data := um_set key (meta\<lparr>km_value := blob, km_size := accounted\<rparr>)
                                              (st_data st)\<rparr>;
              p \<leftarrow> p_add (rt_policy rt) key accounted (st_policy st);
              Some (st\<lparr>st_policy := p\<rparr>) });
        let st = (if ttl_sec > 0 then st\<lparr>st_ttl := ttl_set key ttl_sec now (st_ttl st)\<rparr>
                  else st\<lparr>st_ttl := ttl_erase key (st_ttl st)\<rparr>);
        let st = st\<lparr>st_peak := max (st_peak st) (used_memory rt st)\<rparr>;
        st \<leftarrow> evict_if_over_limit rt st;
        Some (True, st) })"

definition storage_get ::
  "'p runtime \<Rightarrow> string \<Rightarrow> time \<Rightarrow> 'p storage \<Rightarrow> (blob \<times> 'p storage) option" where
  "storage_get rt key now st =
     (let (expired, t) = ttl_is_expired key now (st_ttl st); st = st\<lparr>st_ttl := t\<rparr>
      in if expired then do {
           st \<leftarrow> (case um_find (st_data st) key of
               None \<Rightarrow> Some st
             | Some meta \<Rightarrow> do {
                 let st = st\<lparr>st_value_bytes := st_value_bytes st - blob_size (km_value meta),
                             st_data := um_erase key (st_data st)\<rparr>;
                 p \<leftarrow> p_remove (rt_policy rt) key (st_policy st);
                 Some (st\<lparr>st_policy := p\<rparr>) });
           Some (None, st\<lparr>st_expired_keys := st_expired_keys st + 1, st_misses := st_misses st + 1\<rparr>) }
         else (case um_find (st_data st) key of
             None \<Rightarrow> Some (None, st\<lparr>st_misses := st_misses st + 1\<rparr>)
           | Some meta \<Rightarrow> do {
               p \<leftarrow> p_touch (rt_policy rt) key (st_policy st);
               Some (km_value meta, st\<lparr>st_policy := p, st_hits := st_hits st + 1\<rparr>) }))"

definition storage_del ::
  "'p runtime \<Rightarrow> string \<Rightarrow> 'p storage \<Rightarrow> (bool \<times> 'p storage) option" where
  "storage_del rt key st = (case um_find (st_data st) key of
     None \<Rightarrow> Some (False, st)
   | Some meta \<Rightarrow> do {
       let st = st\<lparr>st_value_bytes := st_value_bytes st - blob_size (km_value meta),
                   st_data := um_erase key (st_data st)\<rparr>;
       p \<leftarrow> p_remove (rt_policy rt) key (st_policy st);
       Some (True, st\<lparr>st_policy := p, st_ttl := ttl_erase key (st_ttl st)\<rparr>) })"

text \<open>The callback the sweeper thread runs for each key it collected.\<close>

definition expire_key :: "'p runtime \<Rightarrow> string \<Rightarrow> 'p storage \<Rightarrow> 'p storage option" where
  "expire_key rt key st = (case um_find (st_data st) key of
     None \<Rightarrow> Some st
   | Some meta \<Rightarrow> do {
       let st = st\<lparr>st_value_bytes := st_value_bytes st - blob_size (km_value meta),
                   st_data := um_erase key (st_data st)\<rparr>;
       p \<leftarrow> p_remove (rt_policy rt) key (st_policy st);
       Some (st\<lparr>st_policy := p, st_expired_keys := st_expired_keys st + 1\<rparr>) })"

section \<open>Metrics\<close>

text \<open>
  The JSON object \<^verbatim>\<open>metrics()\<close> fills, field by field. The two rates are quotients of the counters;
  the rounding of \<^verbatim>\<open>double\<close> is not modelled.
\<close>

record metrics =
  total_keys :: nat
  memory_bytes :: size_t
  m_used_memory :: size_t
  used_memory_peak :: size_t
  memory_limit :: size_t
  max_value_size :: size_t
  hits :: size_t
  misses :: size_t
  evictions :: size_t
  expired_keys :: size_t
  avg_item_bytes :: size_t
  largest_item_bytes :: size_t
  hit_rate :: rat
  miss_rate :: rat

definition storage_metrics :: "'p runtime \<Rightarrow> 'p storage \<Rightarrow> metrics" where
  "storage_metrics rt st =
     (let keys = length (st_data st);
          used = used_memory rt st;
          total = of_nat (unat (st_hits st + st_misses st)) :: rat
      in \<lparr>total_keys = keys, memory_bytes = used, m_used_memory = used,
          used_memory_peak = max (st_peak st) used,
          memory_limit = st_memory_limit st, max_value_size = st_max_value_size st,
          hits = st_hits st, misses = st_misses st, evictions = st_evictions st,
          expired_keys = st_expired_keys st,
          avg_item_bytes = (if keys = 0 then 0 else st_value_bytes st div of_nat keys),
          largest_item_bytes = st_largest_item st,
          hit_rate = (if total > 0 then of_nat (unat (st_hits st)) / total else 0),
          miss_rate = (if total > 0 then of_nat (unat (st_misses st)) / total else 0)\<rparr>)"

end
