(* ===== verification/StorageInv.thy ===== *)
theory StorageInv
  imports Storage
begin

text \<open>
  The invariant of \<^verbatim>\<open>class Storage\<close> and what its operations do, for any policy that meets the
  contract \<open>eviction_policy\<close>: the table, the policy's resident keys and the byte counters agree; no
  operation meets undefined behaviour; the budget loop ends with the budget kept or the
  table empty.
\<close>

section \<open>Abstraction and invariant\<close>

text \<open>The abstract store: what a client can read.\<close>

definition contents :: "'p storage \<Rightarrow> string \<rightharpoonup> string" where
  "contents st k = Option.bind (um_find (st_data st) k) km_value"

definition payload :: "string \<Rightarrow> key_meta \<Rightarrow> size_t" where
  "payload k m = blob_size (km_value m)"

definition charged :: "'p storage \<Rightarrow> string \<rightharpoonup> size_t" where
  "charged st k = map_option km_size (um_find (st_data st) k)"

definition storage_inv ::
  "('p \<Rightarrow> bool) \<Rightarrow> ('p \<Rightarrow> string \<rightharpoonup> size_t) \<Rightarrow> 'p storage \<Rightarrow> bool" where
  "storage_inv pinv res st \<longleftrightarrow>
     pinv (st_policy st) \<and> res (st_policy st) = charged st \<and>
     um_ok (st_data st) \<and> ttl_ok (st_ttl st) \<and>
     (\<forall>k m. um_find (st_data st) k = Some m \<longrightarrow> km_value m \<noteq> None) \<and>
     st_value_bytes st = msum payload (um_find (st_data st))"

lemma storage_invD:
  assumes "storage_inv pinv res st"
  shows "pinv (st_policy st)" "res (st_policy st) = charged st" "um_ok (st_data st)"
    "ttl_ok (st_ttl st)" "st_value_bytes st = msum payload (um_find (st_data st))"
    "um_find (st_data st) k = Some m \<Longrightarrow> km_value m \<noteq> None"
  using assms by (simp_all add: storage_inv_def)

lemma finite_charged [simp]: "finite (dom (charged st))"
proof -
  have "dom (charged st) = dom (um_find (st_data st))" by (auto simp: charged_def dom_def)
  then show ?thesis by simp
qed

lemma contents_None_iff:
  "storage_inv pinv res st \<Longrightarrow> contents st k = None \<longleftrightarrow> um_find (st_data st) k = None"
  by (cases "um_find (st_data st) k") (auto simp: contents_def storage_inv_def)

lemma contents_empty_iff:
  "storage_inv pinv res st \<Longrightarrow> contents st = Map.empty \<longleftrightarrow> st_data st = []"
  by (auto simp: fun_eq_iff contents_None_iff) (metis list.exhaust map_of_Cons_code(2) option.distinct(1) surj_pair)

lemma charged_empty_iff: "charged st = Map.empty \<longleftrightarrow> st_data st = []"
proof -
  have "charged st = Map.empty \<longleftrightarrow> um_find (st_data st) = Map.empty"
    by (simp add: charged_def fun_eq_iff)
  then show ?thesis by simp
qed

text \<open>Erasing one entry, whatever else the operation does to the other fields.\<close>

lemma storage_inv_erase:
  assumes inv: "storage_inv pinv res st" and k: "um_find (st_data st) k = Some m"
    and p: "pinv (st_policy st')" "res (st_policy st') = (res (st_policy st))(k := None)"
    and d: "st_data st' = um_erase k (st_data st)" and t: "ttl_ok (st_ttl st')"
    and v: "st_value_bytes st' = st_value_bytes st - blob_size (km_value m)"
  shows "storage_inv pinv res st'" and "contents st' = (contents st)(k := None)"
proof -
  show "contents st' = (contents st)(k := None)"
    by (auto simp: contents_def d fun_eq_iff)
  have "res (st_policy st') = charged st'"
    using inv by (auto simp: p(2) storage_invD(2) charged_def d fun_eq_iff)
  moreover have "st_value_bytes st' = msum payload (um_find (st_data st'))"
    using storage_invD(5) [OF inv] k by (simp add: v d msum_del payload_def)
  ultimately show "storage_inv pinv res st'"
    using inv p(1) t by (auto simp: storage_inv_def d)
qed

text \<open>Writing one entry.\<close>

lemma storage_inv_put:
  assumes inv: "storage_inv pinv res st" and w: "km_value m \<noteq> None"
    and p: "pinv (st_policy st')" "res (st_policy st') = (res (st_policy st))(k \<mapsto> km_size m)"
    and d: "st_data st' = um_set k m (st_data st)" and t: "ttl_ok (st_ttl st')"
    and v: "st_value_bytes st' = st_value_bytes st
              - (case um_find (st_data st) k of None \<Rightarrow> 0 | Some m' \<Rightarrow> blob_size (km_value m'))
              + blob_size (km_value m)"
  shows "storage_inv pinv res st'" and "contents st' = (contents st)(k := km_value m)"
proof -
  show "contents st' = (contents st)(k := km_value m)"
    by (auto simp: contents_def d fun_eq_iff)
  have "res (st_policy st') = charged st'"
    using inv by (auto simp: p(2) storage_invD(2) charged_def d fun_eq_iff)
  moreover have "st_value_bytes st' = msum payload (um_find (st_data st'))"
    using storage_invD(5) [OF inv] by (simp add: v d msum_upd payload_def [abs_def])
  ultimately show "storage_inv pinv res st'"
    using inv p(1) t w by (auto simp: storage_inv_def d)
qed

text \<open>An operation that writes neither the table nor the policy's resident set.\<close>

lemma storage_inv_frame:
  assumes "storage_inv pinv res st" and "pinv (st_policy st')"
    and "res (st_policy st') = res (st_policy st)" and "st_data st' = st_data st"
    and "ttl_ok (st_ttl st')" and "st_value_bytes st' = st_value_bytes st"
  shows "storage_inv pinv res st'" and "contents st' = contents st"
  using assms by (auto simp: storage_inv_def charged_def [abs_def] contents_def [abs_def])

section \<open>The budget loop\<close>

text \<open>\<open>within_budget\<close> is the exit condition of the loop.\<close>

definition within_budget :: "'p runtime \<Rightarrow> 'p storage \<Rightarrow> bool" where
  "within_budget rt st \<longleftrightarrow> st_data st = [] \<or> used_memory rt st \<le> st_memory_limit st"

lemma evict_within: "within_budget rt st \<Longrightarrow> evict_if_over_limit rt st = Some st"
  by (subst evict_if_over_limit.simps) (auto simp: within_budget_def)

text \<open>Fields the loop never writes.\<close>

definition same_fixed :: "'p storage \<Rightarrow> 'p storage \<Rightarrow> bool" where
  "same_fixed st st' \<longleftrightarrow> st_hits st' = st_hits st \<and> st_misses st' = st_misses st \<and>
     st_expired_keys st' = st_expired_keys st \<and> st_largest_item st' = st_largest_item st \<and>
     st_peak st' = st_peak st \<and> st_memory_limit st' = st_memory_limit st \<and>
     st_max_value_size st' = st_max_value_size st \<and> st_buckets st' = st_buckets st"

lemma same_fixed_refl [simp]: "same_fixed st st"
  by (simp add: same_fixed_def)

lemma same_fixed_trans: "same_fixed a b \<Longrightarrow> same_fixed b c \<Longrightarrow> same_fixed a c"
  by (simp add: same_fixed_def)

text \<open>What the loop leaves: \<open>evicted st st'\<close> relates the states before and after.\<close>

definition kept_or_gone :: "'p storage \<Rightarrow> 'p storage \<Rightarrow> string \<Rightarrow> bool" where
  "kept_or_gone st st' k \<longleftrightarrow>
     contents st' k = contents st k \<and> expiry (st_ttl st') k = expiry (st_ttl st) k \<or>
     contents st k \<noteq> None \<and> contents st' k = None \<and> expiry (st_ttl st') k = None"

definition evicted :: "'p storage \<Rightarrow> 'p storage \<Rightarrow> bool" where
  "evicted st st' \<longleftrightarrow> same_fixed st st' \<and>
     (\<forall>k. kept_or_gone st st' k) \<and>
     st_evictions st' + of_nat (length (st_data st')) = st_evictions st + of_nat (length (st_data st))"

lemma evicted_refl [simp]: "evicted st st"
  by (simp add: evicted_def kept_or_gone_def)

lemma kept_or_gone_trans: "kept_or_gone a b k \<Longrightarrow> kept_or_gone b c k \<Longrightarrow> kept_or_gone a c k"
  by (auto simp: kept_or_gone_def)

lemma evicted_trans: "evicted a b \<Longrightarrow> evicted b c \<Longrightarrow> evicted a c"
  unfolding evicted_def by (metis same_fixed_trans kept_or_gone_trans)

lemma length_um_erase:
  "um_ok m \<Longrightarrow> um_find m k = Some v \<Longrightarrow> length m = Suc (length (um_erase k m))"
proof -
  assume ok: "um_ok m" and k: "um_find m k = Some v"
  have "card (dom (um_find m)) = Suc (card (dom (um_find m) - {k}))"
    using k by (intro card.remove) auto
  then show ?thesis using ok by (simp add: um_size_card)
qed

context eviction_policy
begin

lemma used_memory_eq:
  assumes "storage_inv p_inv resident st" and "rt_policy rt = P"
  shows "used_memory rt st = footprint (charged st) + bucket_bytes st"
  using assms memory_law [OF storage_invD(1) [OF assms(1)]]
  by (simp add: used_memory_def storage_invD(2))

text \<open>One round: the victim is in the table, so the loop's early exit is never taken.\<close>

lemma evict_round:
  assumes rt: "rt_policy rt = P" and inv: "storage_inv p_inv resident st"
    and over: "\<not> within_budget rt st"
  obtains v p m st1 where "p_evict P (st_policy st) = Some (v, p)"
    and "um_find (st_data st) v = Some m"
    and "st1 = st\<lparr>st_policy := p, st_value_bytes := st_value_bytes st - blob_size (km_value m),
                 st_data := um_erase v (st_data st), st_ttl := ttl_erase v (st_ttl st),
                 st_evictions := st_evictions st + 1\<rparr>"
    and "evict_if_over_limit rt st = evict_if_over_limit rt st1"
    and "storage_inv p_inv resident st1" and "evicted st st1"
proof -
  note D = storage_invD [OF inv]
  have ne: "st_data st \<noteq> []" "\<not> used_memory rt st \<le> st_memory_limit st"
    using over by (auto simp: within_budget_def)
  then have "resident (st_policy st) \<noteq> Map.empty" by (simp add: D(2) charged_empty_iff)
  from evict_law [OF D(1) this] obtain v p where ev: "p_evict P (st_policy st) = Some (v, p)"
    and v: "v \<in> dom (resident (st_policy st))" and p: "p_inv p"
    "resident p = (resident (st_policy st))(v := None)" by blast
  from v obtain m where m: "um_find (st_data st) v = Some m"
    by (auto simp: D(2) charged_def)
  define st1 where "st1 = st\<lparr>st_policy := p,
      st_value_bytes := st_value_bytes st - blob_size (km_value m),
      st_data := um_erase v (st_data st), st_ttl := ttl_erase v (st_ttl st),
      st_evictions := st_evictions st + 1\<rparr>"
  have round: "evict_if_over_limit rt st = evict_if_over_limit rt st1"
    using ne ev m rt by (subst evict_if_over_limit.simps) (simp add: st1_def not_le)
  have inv1: "storage_inv p_inv resident st1" and c1: "contents st1 = (contents st)(v := None)"
    using storage_inv_erase [OF inv m, of st1] p D(4) ttl_ok_ops by (auto simp: st1_def)
  have "contents st v \<noteq> None" using m D(6) by (auto simp: contents_def)
  then have "evicted st st1"
    using c1 length_um_erase [OF D(3) m] by (auto simp: evicted_def kept_or_gone_def same_fixed_def st1_def)
  from that [OF ev m st1_def round inv1 this] show ?thesis .
qed

lemma evict_loop:
  assumes "rt_policy rt = P" and "storage_inv p_inv resident st"
  shows "\<exists>st'. evict_if_over_limit rt st = Some st' \<and> storage_inv p_inv resident st' \<and>
    within_budget rt st' \<and> evicted st st'"
  using assms
proof (induction "length (st_data st)" arbitrary: st rule: less_induct)
  case less
  show ?case
  proof (cases "within_budget rt st")
    case True
    with less.prems evict_within [OF True] show ?thesis by auto
  next
    case False
    show ?thesis
    proof (rule evict_round [OF less.prems False])
      fix v p m st1
      assume m: "um_find (st_data st) v = Some m"
        and st1: "st1 = st\<lparr>st_policy := p,
          st_value_bytes := st_value_bytes st - blob_size (km_value m),
          st_data := um_erase v (st_data st), st_ttl := ttl_erase v (st_ttl st),
          st_evictions := st_evictions st + 1\<rparr>"
        and round: "evict_if_over_limit rt st = evict_if_over_limit rt st1"
        and inv1: "storage_inv p_inv resident st1" and e1: "evicted st st1"
      have "length (st_data st1) < length (st_data st)"
        using length_um_erase_less [OF m] by (simp add: st1)
      from less.hyps [OF this less.prems(1) inv1] obtain st' where
        "evict_if_over_limit rt st1 = Some st'" "storage_inv p_inv resident st'"
        "within_budget rt st'" "evicted st1 st'" by blast
      with round evicted_trans [OF e1] show ?thesis by auto
    qed
  qed
qed

end

section \<open>The operations\<close>

text \<open>The state \<^verbatim>\<open>set\<close> reaches before the budget loop, given the policy's new state.\<close>

definition written ::
  "'p runtime \<Rightarrow> string \<Rightarrow> string \<Rightarrow> size_t \<Rightarrow> int \<Rightarrow> time \<Rightarrow> 'p \<Rightarrow> 'p storage \<Rightarrow> 'p storage" where
  "written rt k v cap ttl now p st =
     (let st1 = st\<lparr>
        st_data := um_set k \<lparr>km_value = Some v, km_size = cap + kEntryOverhead\<rparr> (st_data st),
        st_buckets := (if um_find (st_data st) k = None
          then rt_grow rt (st_buckets st) (Suc (length (st_data st))) else st_buckets st),
        st_policy := p,
        st_value_bytes := st_value_bytes st
          - (case um_find (st_data st) k of None \<Rightarrow> 0 | Some m \<Rightarrow> blob_size (km_value m)) + size_of v,
        st_largest_item := max (st_largest_item st) (size_of v),
        st_ttl := ttl_set k ttl now (st_ttl st)\<rparr>
      in st1\<lparr>st_peak := max (st_peak st) (used_memory rt st1)\<rparr>)"

lemma length_um_set_new: "um_find m k = None \<Longrightarrow> length (um_set k v m) = Suc (length m)"
  by (simp add: map_of_eq_None_iff update_nonempty) (induction m; auto)

lemma ttl_set_nonpos: "d \<le> 0 \<Longrightarrow> ttl_set k d now t = ttl_erase k t"
  by (simp add: ttl_set_def ttl_erase_def)

lemma set_rejected:
  "\<not> can_store st k v cap \<Longrightarrow> storage_set rt k v cap ttl now st = Some (False, st)"
  by (simp add: storage_set_def)

lemma key_meta_overwrite: "m\<lparr>km_value := a, km_size := b\<rparr> = \<lparr>km_value = a, km_size = b\<rparr>"
  by simp

lemma set_accepted:
  assumes "can_store st k v cap"
    and "p_add (rt_policy rt) k (cap + kEntryOverhead) (st_policy st) = Some p"
  shows "storage_set rt k v cap ttl now st =
    map_option (Pair True) (evict_if_over_limit rt (written rt k v cap ttl now p st))"
  using assms
  by (cases st; cases "um_find (st_data st) k"; cases "0 < ttl")
    (simp_all add: storage_set_def Let_def written_def length_um_set_new key_meta_overwrite
      ttl_set_nonpos used_memory_def bucket_bytes_def bind_Some_map)

context eviction_policy
begin

lemma written_inv:
  assumes inv: "storage_inv p_inv resident st"
    and add: "p_add P k (cap + kEntryOverhead) (st_policy st) = Some p"
  shows "storage_inv p_inv resident (written rt k v cap ttl now p st)"
    and "contents (written rt k v cap ttl now p st) = (contents st)(k \<mapsto> v)"
    and "expiry (st_ttl (written rt k v cap ttl now p st)) =
      (expiry (st_ttl st))(k := if ttl \<le> 0 then None else Some (now + nanoseconds ttl))"
proof -
  note p = add_inv [OF storage_invD(1) [OF inv] add]
  let ?m = "\<lparr>km_value = Some v, km_size = cap + kEntryOverhead\<rparr>"
  have t: "ttl_ok (ttl_set k ttl now (st_ttl st))"
    by (rule ttl_ok_ops(1)) (rule storage_invD(4) [OF inv])
  note put = storage_inv_put [OF inv, of ?m "written rt k v cap ttl now p st" k]
  show "storage_inv p_inv resident (written rt k v cap ttl now p st)"
    by (rule put(1)) (use p t in \<open>simp_all add: written_def Let_def blob_size_def\<close>)
  have "contents (written rt k v cap ttl now p st) = (contents st)(k := km_value ?m)"
    by (rule put(2)) (use p t in \<open>simp_all add: written_def Let_def blob_size_def\<close>)
  then show "contents (written rt k v cap ttl now p st) = (contents st)(k \<mapsto> v)" by simp
  show "expiry (st_ttl (written rt k v cap ttl now p st)) =
      (expiry (st_ttl st))(k := if ttl \<le> 0 then None else Some (now + nanoseconds ttl))"
    by (simp add: written_def Let_def)
qed

text \<open>\<^verbatim>\<open>set\<close>: the entry is written, then victims leave until the budget holds.\<close>

lemma set_law:
  assumes rt: "rt_policy rt = P" and inv: "storage_inv p_inv resident st"
    and fits: "can_store st k v cap"
  obtains p st' where "p_add P k (cap + kEntryOverhead) (st_policy st) = Some p"
    and "storage_set rt k v cap ttl now st = Some (True, st')"
    and "evict_if_over_limit rt (written rt k v cap ttl now p st) = Some st'"
    and "storage_inv p_inv resident st'" and "within_budget rt st'"
    and "evicted (written rt k v cap ttl now p st) st'"
proof -
  obtain p where add: "p_add P k (cap + kEntryOverhead) (st_policy st) = Some p"
    using add_law [OF storage_invD(1) [OF inv], of k "cap + kEntryOverhead"] by blast
  obtain st' where ev: "evict_if_over_limit rt (written rt k v cap ttl now p st) = Some st'"
    and r: "storage_inv p_inv resident st'" "within_budget rt st'"
      "evicted (written rt k v cap ttl now p st) st'"
    using evict_loop [OF rt written_inv(1) [OF inv add, where rt = rt and v = v and ttl = ttl and now = now]]
    by (elim exE conjE) (rule that)
  have "storage_set rt k v cap ttl now st = Some (True, st')"
    using set_accepted [OF fits] add ev rt by simp
  from that [OF add this ev r] show ?thesis .
qed

lemma get_due:
  assumes rt: "rt_policy rt = P" and inv: "storage_inv p_inv resident st"
    and due: "k \<in> due now (st_ttl st)"
  shows "\<exists>st'. storage_get rt k now st = Some (None, st') \<and> storage_inv p_inv resident st' \<and>
    contents st' = (contents st)(k := None) \<and>
    expiry (st_ttl st') = (expiry (st_ttl st))(k := None) \<and>
    st_misses st' = st_misses st + 1 \<and> st_hits st' = st_hits st \<and>
    st_expired_keys st' = st_expired_keys st + 1"
proof -
  note D = storage_invD [OF inv]
  obtain t' where e: "ttl_is_expired k now (st_ttl st) = (True, t')"
    using due is_expired_iff [of k now "st_ttl st"] by (cases "ttl_is_expired k now (st_ttl st)") simp
  have t: "ttl_ok t'" "expiry t' = (expiry (st_ttl st))(k := None)"
    using ttl_ok_ops(2) [OF D(4), of k now] expiry_is_expired [of k now "st_ttl st"] due
    by (simp_all add: e)
  show ?thesis
  proof (cases "um_find (st_data st) k")
    case None
    let ?st = "st\<lparr>st_ttl := t', st_expired_keys := st_expired_keys st + 1, st_misses := st_misses st + 1\<rparr>"
    have "storage_get rt k now st = Some (None, ?st)"
      using None by (simp add: storage_get_def e)
    moreover have "storage_inv p_inv resident ?st" "contents ?st = contents st"
      using storage_inv_frame [OF inv, of ?st] D(1) t(1) by simp_all
    moreover have "contents st k = None" using None contents_None_iff [OF inv] by blast
    ultimately show ?thesis
      using t(2) by (intro exI [of _ ?st]) (simp add: fun_upd_idem)
  next
    case (Some m)
    obtain p where p: "p_remove P k (st_policy st) = Some p" "p_inv p"
      "resident p = (resident (st_policy st))(k := None)"
      using remove_law [OF D(1), of k] by blast
    let ?st = "st\<lparr>st_ttl := t', st_value_bytes := st_value_bytes st - blob_size (km_value m),
      st_data := um_erase k (st_data st), st_policy := p,
      st_expired_keys := st_expired_keys st + 1, st_misses := st_misses st + 1\<rparr>"
    have "storage_get rt k now st = Some (None, ?st)"
      using Some p(1) rt by (simp add: storage_get_def e)
    moreover have "storage_inv p_inv resident ?st" "contents ?st = (contents st)(k := None)"
      using storage_inv_erase [OF inv Some, of ?st] p t(1) by simp_all
    ultimately show ?thesis using t(2) by (intro exI [of _ ?st]) simp
  qed
qed

lemma get_fresh:
  assumes rt: "rt_policy rt = P" and inv: "storage_inv p_inv resident st"
    and fresh: "k \<notin> due now (st_ttl st)"
  shows "\<exists>st'. storage_get rt k now st = Some (contents st k, st') \<and> storage_inv p_inv resident st' \<and>
    contents st' = contents st \<and> st_ttl st' = st_ttl st \<and>
    st_hits st' = st_hits st + (if contents st k = None then 0 else 1) \<and>
    st_misses st' = st_misses st + (if contents st k = None then 1 else 0) \<and>
    st_expired_keys st' = st_expired_keys st"
proof -
  note D = storage_invD [OF inv]
  note e = is_expired_not_due [OF fresh]
  show ?thesis
  proof (cases "um_find (st_data st) k")
    case None
    let ?st = "st\<lparr>st_misses := st_misses st + 1\<rparr>"
    have "storage_get rt k now st = Some (None, ?st)"
      using None by (simp add: storage_get_def e)
    moreover have "storage_inv p_inv resident ?st" "contents ?st = contents st"
      using storage_inv_frame [OF inv, of ?st] D(1,4) by simp_all
    moreover have "contents st k = None" using None contents_None_iff [OF inv] by blast
    ultimately show ?thesis by (intro exI [of _ ?st]) simp
  next
    case (Some m)
    obtain p where p: "p_touch P k (st_policy st) = Some p" "p_inv p"
      "resident p = resident (st_policy st)"
      using touch_law [OF D(1), of k] by blast
    let ?st = "st\<lparr>st_policy := p, st_hits := st_hits st + 1\<rparr>"
    have "storage_get rt k now st = Some (km_value m, ?st)"
      using Some p(1) rt by (simp add: storage_get_def e)
    moreover have "storage_inv p_inv resident ?st" "contents ?st = contents st"
      using storage_inv_frame [OF inv, of ?st] p D(4) by simp_all
    moreover have "contents st k = km_value m" "km_value m \<noteq> None"
      using Some D(6) [OF Some] by (simp_all add: contents_def)
    ultimately show ?thesis by (intro exI [of _ ?st]) simp
  qed
qed

lemma del_law:
  assumes rt: "rt_policy rt = P" and inv: "storage_inv p_inv resident st"
  shows "\<exists>st'. storage_del rt k st = Some (contents st k \<noteq> None, st') \<and>
    storage_inv p_inv resident st' \<and> contents st' = (contents st)(k := None) \<and>
    expiry (st_ttl st') = (if contents st k = None then expiry (st_ttl st)
                           else (expiry (st_ttl st))(k := None)) \<and>
    st_hits st' = st_hits st \<and> st_misses st' = st_misses st \<and>
    st_expired_keys st' = st_expired_keys st"
proof (cases "um_find (st_data st) k")
  case None
  then have "contents st k = None" using contents_None_iff [OF inv] by blast
  with None inv show ?thesis by (intro exI [of _ st]) (simp add: storage_del_def fun_upd_idem)
next
  case (Some m)
  note D = storage_invD [OF inv]
  obtain p where p: "p_remove P k (st_policy st) = Some p" "p_inv p"
    "resident p = (resident (st_policy st))(k := None)"
    using remove_law [OF D(1), of k] by blast
  let ?st = "st\<lparr>st_value_bytes := st_value_bytes st - blob_size (km_value m),
    st_data := um_erase k (st_data st), st_policy := p, st_ttl := ttl_erase k (st_ttl st)\<rparr>"
  have "storage_del rt k st = Some (True, ?st)"
    using Some p(1) rt by (simp add: storage_del_def)
  moreover have "storage_inv p_inv resident ?st" "contents ?st = (contents st)(k := None)"
    using storage_inv_erase [OF inv Some, of ?st] p ttl_ok_ops(3) [OF D(4)] by simp_all
  moreover have "contents st k \<noteq> None" using contents_None_iff [OF inv, of k] Some by simp
  ultimately show ?thesis by (intro exI [of _ ?st]) auto
qed

lemma expire_law:
  assumes rt: "rt_policy rt = P" and inv: "storage_inv p_inv resident st"
  shows "\<exists>st'. expire_key rt k st = Some st' \<and> storage_inv p_inv resident st' \<and>
    contents st' = (contents st)(k := None) \<and> st_ttl st' = st_ttl st \<and>
    st_hits st' = st_hits st \<and> st_misses st' = st_misses st \<and>
    st_expired_keys st' = st_expired_keys st + (if contents st k = None then 0 else 1)"
proof (cases "um_find (st_data st) k")
  case None
  then have "contents st k = None" using contents_None_iff [OF inv] by blast
  with None inv show ?thesis by (intro exI [of _ st]) (simp add: expire_key_def fun_upd_idem)
next
  case (Some m)
  note D = storage_invD [OF inv]
  obtain p where p: "p_remove P k (st_policy st) = Some p" "p_inv p"
    "resident p = (resident (st_policy st))(k := None)"
    using remove_law [OF D(1), of k] by blast
  let ?st = "st\<lparr>st_value_bytes := st_value_bytes st - blob_size (km_value m),
    st_data := um_erase k (st_data st), st_policy := p,
    st_expired_keys := st_expired_keys st + 1\<rparr>"
  have "expire_key rt k st = Some ?st"
    using Some p(1) rt by (simp add: expire_key_def)
  moreover have "storage_inv p_inv resident ?st" "contents ?st = (contents st)(k := None)"
    using storage_inv_erase [OF inv Some, of ?st] p D(4) by simp_all
  moreover have "contents st k \<noteq> None" using contents_None_iff [OF inv, of k] Some by simp
  ultimately show ?thesis by (intro exI [of _ ?st]) simp
qed

end

section \<open>The key just written is the last to go\<close>

context newest_last_policy
begin

lemma evict_loop_newest:
  assumes "rt_policy rt = P" and "storage_inv p_inv resident st"
    and "newest (st_policy st) k" and "um_find (st_data st) k \<noteq> None"
    and "evict_if_over_limit rt st = Some st'"
  shows "st_data st' = [] \<or> contents st' k = contents st k"
  using assms
proof (induction "length (st_data st)" arbitrary: st rule: less_induct)
  case less
  show ?case
  proof (cases "within_budget rt st")
    case True
    with less.prems(5) show ?thesis by (simp add: evict_within)
  next
    case False
    show ?thesis
    proof (rule evict_round [OF less.prems(1,2) False])
      fix v p m st1
      assume ev: "p_evict P (st_policy st) = Some (v, p)" and m: "um_find (st_data st) v = Some m"
        and st1: "st1 = st\<lparr>st_policy := p,
          st_value_bytes := st_value_bytes st - blob_size (km_value m),
          st_data := um_erase v (st_data st), st_ttl := ttl_erase v (st_ttl st),
          st_evictions := st_evictions st + 1\<rparr>"
        and round: "evict_if_over_limit rt st = evict_if_over_limit rt st1"
        and inv1: "storage_inv p_inv resident st1"
      have pinv: "p_inv (st_policy st)" by (rule storage_invD(1) [OF less.prems(2)])
      have res: "resident (st_policy st) = charged st" by (rule storage_invD(2) [OF less.prems(2)])
      then have kdom: "k \<in> dom (resident (st_policy st))"
        using less.prems(4) by (auto simp: charged_def)
      show ?thesis
      proof (cases "v = k")
        case True
        with evict_newest_alone [OF pinv less.prems(3) kdom] ev have "resident p = Map.empty" by simp
        then have "st_data st1 = []"
          using storage_invD(2) [OF inv1] charged_empty_iff [of st1] by (simp add: st1)
        then have "evict_if_over_limit rt st1 = Some st1"
          by (intro evict_within) (simp add: within_budget_def)
        with round less.prems(5) \<open>st_data st1 = []\<close> show ?thesis by simp
      next
        case False
        have n1: "newest (st_policy st1) k"
          using evict_newest [OF pinv less.prems(3) kdom ev False] by (simp add: st1)
        have k1: "um_find (st_data st1) k = um_find (st_data st) k" using False by (simp add: st1)
        have "length (st_data st1) < length (st_data st)"
          using length_um_erase_less [OF m] by (simp add: st1)
        from less.hyps [OF this less.prems(1) inv1 n1] k1 less.prems(4,5) round
        show ?thesis by (simp add: contents_def)
      qed
    qed
  qed
qed

lemma set_keeps_newest:
  assumes rt: "rt_policy rt = P" and inv: "storage_inv p_inv resident st"
    and set: "storage_set rt k v cap ttl now st = Some (True, st')"
  shows "st_data st' = [] \<or> contents st' k = Some v"
proof -
  have fits: "can_store st k v cap"
    using set set_rejected [of st k v cap rt ttl now] by (cases "can_store st k v cap") auto
  show ?thesis
  proof (rule set_law [OF rt inv fits, of ttl now])
    fix p st2
    assume add: "p_add P k (cap + kEntryOverhead) (st_policy st) = Some p"
      and set2: "storage_set rt k v cap ttl now st = Some (True, st2)"
      and ev: "evict_if_over_limit rt (written rt k v cap ttl now p st) = Some st2"
    let ?w = "written rt k v cap ttl now p st"
    have "newest (st_policy ?w) k"
      using add_newest [OF storage_invD(1) [OF inv] add] by (simp add: written_def Let_def)
    moreover have "um_find (st_data ?w) k \<noteq> None" by (simp add: written_def Let_def)
    ultimately have "st_data st2 = [] \<or> contents st2 k = contents ?w k"
      by (rule evict_loop_newest [OF rt written_inv(1) [OF inv add] _ _ ev])
    with set set2 show ?thesis by (simp add: written_inv(2) [OF inv add])
  qed
qed

end

end
