(* ===== verification/StorageLru.thy ===== *)
theory StorageLru
  imports StorageInv
begin

text \<open>
  The storage layer as the program runs it: \<^verbatim>\<open>Storage::Storage\<close> installs an \<^verbatim>\<open>LRU\<close>. Histories of
  storage operations (latest first) start from the constructor's state; the sweeper's two
  actions occur in them at any time and for any key, which covers every order in which
  its thread can run between client operations.
\<close>

section \<open>The program's storage and its histories\<close>

definition lru_runtime :: "(size_t \<Rightarrow> nat \<Rightarrow> size_t) \<Rightarrow> lru runtime" where
  "lru_runtime grow = \<lparr>rt_policy = lru_policy, rt_grow = grow\<rparr>"

text \<open>The constructor; \<open>b\<close> is the bucket count of an empty \<^verbatim>\<open>unordered_map\<close>.\<close>

definition storage_new :: "size_t \<Rightarrow> size_t \<Rightarrow> size_t \<Rightarrow> lru storage" where
  "storage_new b limit max_value = storage_init lru_init b limit max_value"

datatype storage_op =
    SSet string string size_t int time
  | SGet string time
  | SDel string
  | SCollect time
  | SExpire string

fun storage_step :: "'p runtime \<Rightarrow> storage_op \<Rightarrow> 'p storage \<Rightarrow> 'p storage option" where
  "storage_step rt (SSet k v cap ttl now) st = map_option snd (storage_set rt k v cap ttl now st)"
| "storage_step rt (SGet k now) st = map_option snd (storage_get rt k now st)"
| "storage_step rt (SDel k) st = map_option snd (storage_del rt k st)"
| "storage_step rt (SCollect now) st = Some (st\<lparr>st_ttl := snd (ttl_expired_keys now (st_ttl st))\<rparr>)"
| "storage_step rt (SExpire k) st = expire_key rt k st"

fun storage_run :: "'p runtime \<Rightarrow> 'p storage \<Rightarrow> storage_op list \<Rightarrow> 'p storage option" where
  "storage_run rt st0 [] = Some st0"
| "storage_run rt st0 (a # past) = do { st \<leftarrow> storage_run rt st0 past; storage_step rt a st }"

abbreviation lru_storage_inv :: "lru storage \<Rightarrow> bool" where
  "lru_storage_inv \<equiv> storage_inv lru_inv lru_resident"

lemma rt_lru [simp]: "rt_policy (lru_runtime grow) = lru_policy"
  by (simp add: lru_runtime_def)

lemma storage_new_inv: "lru_storage_inv (storage_new b limit mx)"
  by (simp add: storage_new_def storage_init_def storage_inv_def lru.inv_init lru.resident_init
      charged_def [abs_def])

lemma expired_keys_ttl_ok: "ttl_ok t \<Longrightarrow> ttl_ok (snd (ttl_expired_keys now t))"
  using ttl_expired_keys_spec [of t now] by (cases "ttl_expired_keys now t") auto

text \<open>Settings never change; the hit and miss counters together count the reads.\<close>

fun is_get :: "storage_op \<Rightarrow> bool" where
  "is_get (SGet _ _) = True"
| "is_get _ = False"

definition reads :: "storage_op list \<Rightarrow> nat" where
  "reads past = length (filter is_get past)"

definition counted :: "storage_op \<Rightarrow> 'p storage \<Rightarrow> 'p storage \<Rightarrow> bool" where
  "counted a st st' \<longleftrightarrow> (if is_get a
     then (st_hits st' = st_hits st + 1 \<and> st_misses st' = st_misses st) \<or>
          (st_hits st' = st_hits st \<and> st_misses st' = st_misses st + 1)
     else st_hits st' = st_hits st \<and> st_misses st' = st_misses st)"

lemma set_total:
  assumes "lru_storage_inv st"
  shows "\<exists>st'. storage_set (lru_runtime grow) k v cap ttl now st = Some (can_store st k v cap, st') \<and>
    lru_storage_inv st' \<and> st_hits st' = st_hits st \<and> st_misses st' = st_misses st"
proof (cases "can_store st k v cap")
  case False
  with assms show ?thesis by (simp add: set_rejected)
next
  case True
  show ?thesis
    by (rule lru.set_law [OF rt_lru assms True, of grow ttl now])
      (use True in \<open>auto simp: evicted_def same_fixed_def written_def Let_def\<close>)
qed

lemma storage_step_total:
  assumes inv: "lru_storage_inv st"
  shows "\<exists>st'. storage_step (lru_runtime grow) a st = Some st' \<and> lru_storage_inv st' \<and>
    counted a st st'"
proof (cases a)
  case (SSet k v cap ttl now)
  with set_total [OF inv, of grow k v cap ttl now] show ?thesis by (auto simp: counted_def)
next
  case (SGet k now)
  then show ?thesis
    using lru.get_due [OF rt_lru inv, of k now grow] lru.get_fresh [OF rt_lru inv, of k now grow]
    by (cases "k \<in> due now (st_ttl st)") (auto simp: counted_def)
next
  case (SDel k)
  with lru.del_law [OF rt_lru inv, of grow k] show ?thesis by (auto simp: counted_def)
next
  case (SCollect now)
  then show ?thesis
    using storage_inv_frame(1) [OF inv] storage_invD(1,4) [OF inv] by (simp add: expired_keys_ttl_ok counted_def)
next
  case (SExpire k)
  with lru.expire_law [OF rt_lru inv, of grow k] show ?thesis by (auto simp: counted_def)
qed

lemma storage_run_total:
  "\<exists>st h m. storage_run (lru_runtime grow) (storage_new b limit mx) past = Some st \<and>
     lru_storage_inv st \<and> st_hits st = of_nat h \<and> st_misses st = of_nat m \<and> h + m = reads past"
proof (induction past)
  case Nil
  show ?case using storage_new_inv [of b limit mx]
    by (auto simp: storage_new_def storage_init_def reads_def intro: exI [of _ 0])
next
  case (Cons a past)
  then obtain st h m where st: "storage_run (lru_runtime grow) (storage_new b limit mx) past = Some st"
    "lru_storage_inv st" and hm: "st_hits st = of_nat h" "st_misses st = of_nat m" "h + m = reads past"
    by blast
  from storage_step_total [OF st(2), of grow a] obtain st' where
    st': "storage_step (lru_runtime grow) a st = Some st'" "lru_storage_inv st'" "counted a st st'"
    by blast
  have "\<exists>h m. st_hits st' = of_nat h \<and> st_misses st' = of_nat m \<and> h + m = reads (a # past)"
    using st'(3) hm
    by (auto simp: counted_def reads_def split: if_splits
        intro: exI [of _ h] exI [of _ "Suc h"] exI [of _ m] exI [of _ "Suc m"]) 
      (metis add.commute add_Suc of_nat_Suc)+
  with st st' show ?case by auto
qed

lemma storage_run_inv:
  "storage_run (lru_runtime grow) (storage_new b limit mx) past = Some st \<Longrightarrow> lru_storage_inv st"
  using storage_run_total [of grow b limit mx past] by auto

lemma lru_evict_loop_prefix:
  assumes "lru_storage_inv st" and "evict_if_over_limit (lru_runtime grow) st = Some st'"
  shows "\<exists>n. lru_recency (st_policy st') = take n (lru_recency (st_policy st))"
  using assms
proof (induction "length (st_data st)" arbitrary: st rule: less_induct)
  case less
  show ?case
  proof (cases "within_budget (lru_runtime grow) st")
    case True
    with less.prems(2) evict_within [OF True] have "st' = st" by simp
    then show ?thesis by (intro exI [of _ "length (lru_recency (st_policy st))"]) simp
  next
    case False
    show ?thesis
    proof (rule lru.evict_round [OF rt_lru less.prems(1) False])
      fix v p m st1
      assume ev: "p_evict lru_policy (st_policy st) = Some (v, p)"
        and m: "um_find (st_data st) v = Some m"
        and st1: "st1 = st\<lparr>st_policy := p,
          st_value_bytes := st_value_bytes st - blob_size (km_value m),
          st_data := um_erase v (st_data st), st_ttl := ttl_erase v (st_ttl st),
          st_evictions := st_evictions st + 1\<rparr>"
        and round: "evict_if_over_limit (lru_runtime grow) st = evict_if_over_limit (lru_runtime grow) st1"
        and inv1: "lru_storage_inv st1"
      have linv: "lru_inv (st_policy st)" by (rule storage_invD(1) [OF less.prems(1)])
      have "lru_recency p = butlast (lru_recency (st_policy st))"
        using lru_evict_refines [OF linv] lru_evict_empty [OF linv] ev
        by (cases "lru_recency (st_policy st) = []") (auto simp: lru_policy_def)
      moreover have "length (st_data st1) < length (st_data st)"
        using length_um_erase_less [OF m] by (simp add: st1)
      from less.hyps [OF this inv1] round less.prems(2) obtain n where
        "lru_recency (st_policy st') = take n (lru_recency (st_policy st1))" by auto
      ultimately show ?thesis by (auto simp: st1 butlast_conv_take)
    qed
  qed
qed

lemma set_fits_exact:
  assumes inv: "lru_storage_inv st"
    and "can_store st k v cap"
    and "footprint ((charged st)(k \<mapsto> cap + kEntryOverhead)) +
           (if contents st k = None then grow (st_buckets st) (Suc (length (st_data st)))
            else st_buckets st) * 8 \<le> st_memory_limit st"
  shows "\<exists>st'. storage_set (lru_runtime grow) k v cap ttl now st = Some (True, st') \<and>
    lru_storage_inv st' \<and> contents st' = (contents st)(k \<mapsto> v) \<and>
    expiry (st_ttl st') = (expiry (st_ttl st))(k := if ttl \<le> 0 then None else Some (now + nanoseconds ttl)) \<and>
    st_evictions st' = st_evictions st"
proof -
  obtain p where add: "p_add lru_policy k (cap + kEntryOverhead) (st_policy st) = Some p"
    using lru.add_law [OF storage_invD(1) [OF inv], of k "cap + kEntryOverhead"] by blast
  let ?w = "written (lru_runtime grow) k v cap ttl now p st"
  have w: "lru_storage_inv ?w" "contents ?w = (contents st)(k \<mapsto> v)" by (rule lru.written_inv [OF inv add])+
  have ch: "charged ?w = (charged st)(k \<mapsto> cap + kEntryOverhead)"
    by (simp add: charged_def fun_eq_iff written_def Let_def)
  have "used_memory (lru_runtime grow) ?w \<le> st_memory_limit ?w"
    using assms(3) contents_None_iff [OF inv, of k]
    by (simp only: lru.used_memory_eq [OF w(1) rt_lru] ch bucket_bytes_def)
      (cases "um_find (st_data st) k"; simp add: written_def Let_def lru_runtime_def)
  then have "evict_if_over_limit (lru_runtime grow) ?w = Some ?w"
    by (intro evict_within) (simp add: within_budget_def)
  with set_accepted [OF assms(2), of "lru_runtime grow" p] add
  have "storage_set (lru_runtime grow) k v cap ttl now st = Some (True, ?w)" by simp
  with w lru.written_inv(3) [OF inv add] show ?thesis
    by (intro exI [of _ ?w]) (simp add: written_def Let_def)
qed

section \<open>Properties\<close>



lemma example_fits: "can_store (storage_new 1 1000 500) ''k'' ''v'' 15"
  by (simp add: can_store_def storage_new_def storage_init_def size_of_def kMaxKeySize_def
      kEntryOverhead_def)


text \<open>
  Without memory pressure a set is exactly a map update: when the bytes charged after the write
  fit the limit, no key is evicted, the new value is readable, and the expiry of the key is the
  requested one.
\<close>

theorem storage_set_exact_when_it_fits:
  assumes "storage_run (lru_runtime grow) (storage_new b limit mx) past = Some st"
    and "can_store st k v cap"
    and "footprint ((charged st)(k \<mapsto> cap + kEntryOverhead)) +
           (if contents st k = None then grow (st_buckets st) (Suc (length (st_data st)))
            else st_buckets st) * 8 \<le> st_memory_limit st"
  shows "\<exists>st'. storage_set (lru_runtime grow) k v cap ttl now st = Some (True, st') \<and>
    contents st' = (contents st)(k \<mapsto> v) \<and>
    expiry (st_ttl st') = (expiry (st_ttl st))(k := if ttl \<le> 0 then None else Some (now + nanoseconds ttl)) \<and>
    st_evictions st' = st_evictions st"
  using set_fits_exact [where grow = grow, OF storage_run_inv [OF assms(1)] assms(2,3), of ttl now] by blast

lemma storage_set_exact_when_it_fits_witness:
  "\<exists>st'. storage_set (lru_runtime (\<lambda>b n. b)) ''k'' ''v'' 15 0 0 (storage_new 1 1000 500) = Some (True, st') \<and>
     contents st' = [''k'' \<mapsto> ''v'']"
proof -
  let ?st = "storage_new 1 1000 500"
  have run: "storage_run (lru_runtime (\<lambda>b n. b)) ?st [] = Some ?st" by simp
  have empty: "charged ?st = Map.empty" "contents ?st = Map.empty"
    by (simp_all add: fun_eq_iff charged_def contents_def storage_new_def storage_init_def)
  have "footprint ([''k'' \<mapsto> 15 + kEntryOverhead]) = 144"
    by (simp add: footprint_insert charge_def kEntryOverhead_def size_of_def)
  then have "footprint ((charged ?st)(''k'' \<mapsto> 15 + kEntryOverhead)) + 1 * 8 \<le> st_memory_limit ?st"
    by (simp only: empty) (simp add: storage_new_def storage_init_def)
  then have "footprint ((charged ?st)(''k'' \<mapsto> 15 + kEntryOverhead)) +
      (if contents ?st ''k'' = None then 1 else st_buckets ?st) * 8 \<le> st_memory_limit ?st"
    by (simp add: empty)
  moreover have "st_buckets ?st = 1" by (simp add: storage_new_def storage_init_def)
  ultimately show ?thesis
    using storage_set_exact_when_it_fits [OF run example_fits, of 0 0] by (auto simp: empty)
qed

text \<open>
  C24: What \<^verbatim>\<open>get\<close> does, from any reachable state. If the key's expiry has come, the key is removed
  with its expiry and the read is a miss; otherwise the read returns exactly the stored value (or a
  miss when there is none), removes nothing, and exactly one of the hit and miss counters counts it.
\<close>

theorem storage_get_outcome:
  assumes "storage_run (lru_runtime grow) (storage_new b limit mx) past = Some st"
  shows "\<exists>r st'. storage_get (lru_runtime grow) k now st = Some (r, st') \<and>
    (if k \<in> due now (st_ttl st)
     then r = None \<and> contents st' = (contents st)(k := None) \<and>
          expiry (st_ttl st') = (expiry (st_ttl st))(k := None) \<and>
          st_expired_keys st' = st_expired_keys st + 1
     else r = contents st k \<and> contents st' = contents st \<and>
          expiry (st_ttl st') = expiry (st_ttl st) \<and> st_expired_keys st' = st_expired_keys st) \<and>
    st_hits st' = st_hits st + (if r = None then 0 else 1) \<and>
    st_misses st' = st_misses st + (if r = None then 1 else 0)"
proof -
  have inv: "lru_storage_inv st" by (rule storage_run_inv [OF assms])
  show ?thesis
  proof (cases "k \<in> due now (st_ttl st)")
    case True
    from lru.get_due [OF rt_lru inv True, of grow] True show ?thesis by (elim exE) (auto intro!: exI)
  next
    case False
    from lru.get_fresh [OF rt_lru inv False, of grow] False show ?thesis by (elim exE) (auto intro!: exI)
  qed
qed

lemma storage_get_outcome_witness:
  "\<exists>r st'. storage_get (lru_runtime (\<lambda>b n. b)) ''k'' 3 (storage_new 1 1000 500) = Some (r, st') \<and>
     r = None \<and> st_misses st' = 1"
proof -
  have run: "storage_run (lru_runtime (\<lambda>b n. b)) (storage_new 1 1000 500) [] =
      Some (storage_new 1 1000 500)" by simp
  from storage_get_outcome [OF run, of "''k''" 3] show ?thesis
    by (auto simp: due_def storage_new_def storage_init_def ttl_init_def contents_def)
qed

text \<open>
  C25: A value that was stored is read back unchanged. After a set that was accepted and did not empty
  the table, a read of the key before its expiry (or at any time, if it has none) returns exactly the
  bytes that were stored.
\<close>

theorem storage_set_get_roundtrip:
  assumes "storage_run (lru_runtime grow) (storage_new b limit mx) past = Some st"
    and "storage_set (lru_runtime grow) k v cap ttl t0 st = Some (True, st1)"
    and "contents st1 \<noteq> Map.empty" and "ttl \<le> 0 \<or> now < t0 + nanoseconds ttl"
  shows "\<exists>st2. storage_get (lru_runtime grow) k now st1 = Some (Some v, st2)"
proof -
  have inv: "lru_storage_inv st" by (rule storage_run_inv [OF assms(1)])
  have fits: "can_store st k v cap" using assms(2) by (cases "can_store st k v cap") (auto simp: set_rejected)
  show ?thesis
  proof (rule lru.set_law [OF rt_lru inv fits, of grow ttl t0])
    fix p st'
    let ?w = "written (lru_runtime grow) k v cap ttl t0 p st"
    assume add: "p_add lru_policy k (cap + kEntryOverhead) (st_policy st) = Some p"
      and set: "storage_set (lru_runtime grow) k v cap ttl t0 st = Some (True, st')"
      and inv': "lru_storage_inv st'" and ev: "evicted ?w st'"
    have st1: "st' = st1" using set assms(2) by simp
    have "contents st1 k = Some v"
      using lru.set_keeps_newest [OF rt_lru inv set] contents_empty_iff [OF inv'] assms(3) st1 by auto
    moreover have "kept_or_gone ?w st' k" using ev by (simp add: evicted_def)
    ultimately have "expiry (st_ttl st1) k = (if ttl \<le> 0 then None else Some (t0 + nanoseconds ttl))"
      using lru.written_inv(3) [OF inv add, where rt = "lru_runtime grow" and ttl = ttl and now = t0 and v = v]
      by (auto simp: kept_or_gone_def st1)
    then have "k \<notin> due now (st_ttl st1)" using assms(4) by (auto simp: due_def)
    from lru.get_fresh [OF rt_lru _ this, of grow] inv' st1 \<open>contents st1 k = Some v\<close>
    show ?thesis by auto
  qed
qed

lemma storage_set_get_roundtrip_witness:
  "\<exists>st1 st2. storage_set (lru_runtime (\<lambda>b n. b)) ''k'' ''v'' 15 0 0 (storage_new 1 1000 500) = Some (True, st1) \<and>
     storage_get (lru_runtime (\<lambda>b n. b)) ''k'' 9 st1 = Some (Some ''v'', st2)"
proof -
  let ?st = "storage_new 1 1000 500"
  have run: "storage_run (lru_runtime (\<lambda>b n. b)) ?st [] = Some ?st" by simp
  have "footprint ([''k'' \<mapsto> 15 + kEntryOverhead]) = 144"
    by (simp add: footprint_insert charge_def kEntryOverhead_def size_of_def)
  have set: "storage_set (lru_runtime (\<lambda>b n. b)) ''k'' ''v'' 15 0 0 ?st =
    Some (True, written (lru_runtime (\<lambda>b n. b)) ''k'' ''v'' 15 0 0
      (the (lru_add ''k'' 143 lru_init)) ?st)" (is "_ = Some (True, ?w)")
  proof -
    have add: "p_add (rt_policy (lru_runtime (\<lambda>b n. b))) ''k'' (15 + kEntryOverhead) (st_policy ?st)
        = Some (the (lru_add ''k'' 143 lru_init))"
      using lru_add_refines [OF lru_inv_init, of "''k''" 143]
      by (auto simp: lru_policy_def storage_new_def storage_init_def kEntryOverhead_def)
    have "used_memory (lru_runtime (\<lambda>b n. b)) ?w \<le> st_memory_limit ?w"
      by (simp add: used_memory_def written_def Let_def lru_policy_def lru_add_def cl_push_front_def
          lru_init_def storage_new_def storage_init_def bucket_bytes_def lru_runtime_def size_of_def)
    then have "evict_if_over_limit (lru_runtime (\<lambda>b n. b)) ?w = Some ?w"
      by (intro evict_within) (simp add: within_budget_def)
    with set_accepted [OF example_fits add] show ?thesis by simp
  qed
  have "contents ?w ''k'' = Some ''v''" by (simp add: contents_def written_def Let_def)
  then have "contents ?w \<noteq> Map.empty" by auto
  from storage_set_get_roundtrip [OF run set this, of 9] set show ?thesis by auto
qed

text \<open>
  Eviction under memory pressure takes the least recently used keys first: after an accepted set,
  the keys that remain are the most recent ones of the recency list with the new key in front, in the
  same order, and they are exactly the keys of the table.
\<close>

theorem storage_set_evicts_least_recent:
  assumes "storage_run (lru_runtime grow) (storage_new b limit mx) past = Some st"
    and "storage_set (lru_runtime grow) k v cap ttl now st = Some (True, st')"
  shows "\<exists>n. lru_recency (st_policy st') =
      take n (rec_add k (cap + kEntryOverhead) (lru_recency (st_policy st))) \<and>
    dom (contents st') = set (lru_keys (st_policy st'))"
proof -
  have inv: "lru_storage_inv st" by (rule storage_run_inv [OF assms(1)])
  have fits: "can_store st k v cap"
    using assms(2) by (cases "can_store st k v cap") (auto simp: set_rejected)
  show ?thesis
  proof (rule lru.set_law [OF rt_lru inv fits, of grow ttl now])
    fix p st2
    let ?w = "written (lru_runtime grow) k v cap ttl now p st"
    assume add: "p_add lru_policy k (cap + kEntryOverhead) (st_policy st) = Some p"
      and set: "storage_set (lru_runtime grow) k v cap ttl now st = Some (True, st2)"
      and loop: "evict_if_over_limit (lru_runtime grow) ?w = Some st2"
      and inv2: "lru_storage_inv st2"
    have st2: "st2 = st'" using set assms(2) by simp
    have "lru_recency (st_policy ?w) = rec_add k (cap + kEntryOverhead) (lru_recency (st_policy st))"
      using lru_add_refines [OF storage_invD(1) [OF inv], of k "cap + kEntryOverhead"] add
      by (auto simp: lru_policy_def written_def Let_def)
    with lru_evict_loop_prefix [OF lru.written_inv(1) [OF inv add] loop] have
      "\<exists>n. lru_recency (st_policy st') = take n (rec_add k (cap + kEntryOverhead) (lru_recency (st_policy st)))"
      by (simp add: st2)
    moreover have "dom (contents st') = set (lru_keys (st_policy st'))"
    proof -
      have "dom (contents st2) = dom (charged st2)"
        using contents_None_iff [OF inv2] by (simp add: charged_def dom_def)
      also have "\<dots> = dom (lru_resident (st_policy st2))" using storage_invD(2) [OF inv2] by simp
      also have "\<dots> = set (lru_keys (st_policy st2))"
        by (simp add: lru_resident_def lru_keys_def dom_map_of_conv_image_fst)
      finally show ?thesis by (simp add: st2)
    qed
    ultimately show ?thesis by blast
  qed
qed

abbreviation fixed_buckets :: "lru runtime" where
  "fixed_buckets \<equiv> lru_runtime (\<lambda>b n. b)"

lemma storage_set_evicts_least_recent_witness:
  "\<exists>st st' n. storage_run fixed_buckets (storage_new 1 200 100) [SSet ''a'' ''x'' 15 0 0] = Some st \<and>
     storage_set fixed_buckets ''b'' ''y'' 15 0 0 st = Some (True, st') \<and>
     lru_recency (st_policy st') = take n (rec_add ''b'' (15 + kEntryOverhead) (lru_recency (st_policy st))) \<and>
     dom (contents st') = {''b''}"
proof -
  obtain st where run: "storage_run fixed_buckets (storage_new 1 200 100) [SSet ''a'' ''x'' 15 0 0] = Some st"
    using storage_run_total by blast
  have "map_option (map_prod id (\<lambda>s. lru_keys (st_policy s)))
      (Option.bind (storage_run fixed_buckets (storage_new 1 200 100) [SSet ''a'' ''x'' 15 0 0])
        (storage_set fixed_buckets ''b'' ''y'' 15 0 0)) = Some (True, [''b''])"
    by code_simp
  then obtain st' where set: "storage_set fixed_buckets ''b'' ''y'' 15 0 0 st = Some (True, st')"
    and keys: "lru_keys (st_policy st') = [''b'']" using run by auto
  from storage_set_evicts_least_recent [OF run set] run set keys show ?thesis by auto
qed

text \<open>
  Acceptance does not mean storage. \<^verbatim>\<open>can_store\<close> does not count the bucket array that the budget
  loop counts, so there is a reachable state in which \<^verbatim>\<open>set\<close> returns true for a key and leaves the
  table empty: the new value is gone, and so is every other key.
\<close>

theorem storage_set_true_but_dropped:
  "\<exists>st st'. storage_run fixed_buckets (storage_new 1 300 200) [SSet ''a'' ''x'' 15 0 0] = Some st \<and>
     contents st ''a'' = Some ''x'' \<and>
     storage_set fixed_buckets ''b'' ''y'' 170 0 0 st = Some (True, st') \<and>
     contents st' = Map.empty"
proof -
  have "map_option (\<lambda>st. contents st ''a'')
      (storage_run fixed_buckets (storage_new 1 300 200) [SSet ''a'' ''x'' 15 0 0]) = Some (Some ''x'')"
    by code_simp
  then obtain st where run: "storage_run fixed_buckets (storage_new 1 300 200) [SSet ''a'' ''x'' 15 0 0] = Some st"
    and a: "contents st ''a'' = Some ''x''" by auto
  have "map_option (map_prod id st_data)
      (Option.bind (storage_run fixed_buckets (storage_new 1 300 200) [SSet ''a'' ''x'' 15 0 0])
        (storage_set fixed_buckets ''b'' ''y'' 170 0 0)) = Some (True, [])"
    by code_simp
  then obtain st' where "storage_set fixed_buckets ''b'' ''y'' 170 0 0 st = Some (True, st')"
    and "st_data st' = []" using run by auto
  then have "contents st' = Map.empty" by (simp add: contents_def [abs_def])
  with run a \<open>storage_set fixed_buckets ''b'' ''y'' 170 0 0 st = Some (True, st')\<close> show ?thesis by blast
qed

text \<open>
  Deletion removes exactly the key, with its expiry, and reports whether it was there; deleting an
  absent key changes nothing a client can read.
\<close>

theorem storage_del_outcome:
  assumes "storage_run (lru_runtime grow) (storage_new b limit mx) past = Some st"
  shows "\<exists>st'. storage_del (lru_runtime grow) k st = Some (k \<in> dom (contents st), st') \<and>
    contents st' = (contents st)(k := None) \<and>
    expiry (st_ttl st') = (if k \<in> dom (contents st) then (expiry (st_ttl st))(k := None)
                           else expiry (st_ttl st))"
  using lru.del_law [OF rt_lru storage_run_inv [OF assms], of grow k] by (auto simp: domIff)

lemma storage_del_outcome_witness:
  "\<exists>st st'. storage_run fixed_buckets (storage_new 1 300 200) [SSet ''a'' ''x'' 15 0 0] = Some st \<and>
     storage_del fixed_buckets ''a'' st = Some (True, st') \<and> contents st' ''a'' = None"
proof -
  have "map_option (\<lambda>st. contents st ''a'')
      (storage_run fixed_buckets (storage_new 1 300 200) [SSet ''a'' ''x'' 15 0 0]) = Some (Some ''x'')"
    by code_simp
  then obtain st where run: "storage_run fixed_buckets (storage_new 1 300 200) [SSet ''a'' ''x'' 15 0 0] = Some st"
    and a: "contents st ''a'' = Some ''x''" by auto
  from storage_del_outcome [OF run, of "''a''"] run a show ?thesis by (auto simp: domI)
qed

text \<open>
  The metrics are consistent. From any reachable state, \<^verbatim>\<open>total_keys\<close> is the number of readable keys,
  the reported peak is at least the reported use, and while the counters have not wrapped hits and
  misses add up to the reads made and the two rates to one.
\<close>

theorem storage_metrics_consistent:
  assumes "storage_run (lru_runtime grow) (storage_new b limit mx) past = Some st"
    and "reads past < 2 ^ 64"
  shows "let j = storage_metrics (lru_runtime grow) st in
    total_keys j = card (dom (contents st)) \<and>
    m_used_memory j \<le> used_memory_peak j \<and>
    unat (hits j) + unat (misses j) = reads past \<and>
    (if reads past = 0 then hit_rate j = 0 \<and> miss_rate j = 0 else hit_rate j + miss_rate j = 1)"
proof -
  obtain h m where inv: "lru_storage_inv st" and hm: "st_hits st = of_nat h" "st_misses st = of_nat m"
    and sum: "h + m = reads past"
    using storage_run_total [of grow b limit mx past] assms(1) by auto
  have u: "unat (st_hits st) = h" "unat (st_misses st) = m" "unat (st_hits st + st_misses st) = h + m"
    using assms(2) sum by (simp_all add: hm unat_of_nat of_nat_add [symmetric] del: of_nat_add)
  have "dom (contents st) = dom (um_find (st_data st))"
    using contents_None_iff [OF inv] by (simp add: dom_def)
  then have "length (st_data st) = card (dom (contents st))"
    using um_size_card [OF storage_invD(3) [OF inv]] by simp
  then show ?thesis
    using sum by (auto simp: storage_metrics_def Let_def u add_divide_distrib [symmetric])
qed

lemma storage_metrics_consistent_witness:
  "\<exists>st. storage_run fixed_buckets (storage_new 1 300 200) [SGet ''b'' 0, SGet ''a'' 0, SSet ''a'' ''x'' 15 0 0] = Some st \<and>
     hit_rate (storage_metrics fixed_buckets st) + miss_rate (storage_metrics fixed_buckets st) = 1"
proof -
  let ?h = "[SGet ''b'' 0, SGet ''a'' 0, SSet ''a'' ''x'' 15 0 0]"
  obtain st where run: "storage_run fixed_buckets (storage_new 1 300 200) ?h = Some st"
    using storage_run_total by blast
  have "reads ?h = 2" by (simp add: reads_def)
  with storage_metrics_consistent [OF run] run show ?thesis by (auto simp: Let_def)
qed

end
