(* ===== verification/Sweeper.thy ===== *)
theory Sweeper
  imports StorageLru
begin

text \<open>
  The two threads that share a \<^verbatim>\<open>Storage\<close>: clients (the event loop and the admin server, whose
  operations hold the storage mutex for their whole body) and the sweeper thread of \<^verbatim>\<open>TTLManager\<close>
  (\<^verbatim>\<open>sweep_loop\<close> in \<^verbatim>\<open>src/src/ttl.cpp\<close>), whose critical sections are separate: it tests the stop flag,
  then collects the expired keys under the TTL mutex, then calls the storage back once per key, each
  under the storage mutex. The step relation \<open>sys_step\<close> interleaves these sections in every order.
\<close>

section \<open>The sweeper thread\<close>

datatype phase = Waiting | Collecting | Expiring | Finished

record sys =
  sys_store :: "lru storage"
  sys_phase :: phase
  sys_pending :: "string list"
  sys_stop :: bool
  sys_now :: time

definition sys_init :: "lru storage \<Rightarrow> time \<Rightarrow> sys" where
  "sys_init st now = \<lparr>sys_store = st, sys_phase = Waiting, sys_pending = [],
                     sys_stop = False, sys_now = now\<rparr>"

lemma sys_init_sel [simp]:
  "sys_store (sys_init st now) = st" "sys_phase (sys_init st now) = Waiting"
  "sys_stop (sys_init st now) = False" "sys_now (sys_init st now) = now"
  by (simp_all add: sys_init_def)

text \<open>
  One section of \<^verbatim>\<open>sweep_loop\<close>: the wait ends and the flag is tested; \<^verbatim>\<open>expired_keys()\<close>; one turn of the
  callback loop; the end of that loop.
\<close>

fun sweep_loop :: "lru runtime \<Rightarrow> sys \<Rightarrow> sys option" where
  "sweep_loop rt s = (case sys_phase s of
     Waiting \<Rightarrow> Some (s\<lparr>sys_phase := if sys_stop s then Finished else Collecting\<rparr>)
   | Collecting \<Rightarrow>
       let (expired, t) = ttl_expired_keys (sys_now s) (st_ttl (sys_store s))
       in Some (s\<lparr>sys_phase := Expiring, sys_pending := expired,
                 sys_store := (sys_store s)\<lparr>st_ttl := t\<rparr>\<rparr>)
   | Expiring \<Rightarrow> (case sys_pending s of
         [] \<Rightarrow> Some (s\<lparr>sys_phase := Waiting\<rparr>)
       | key # rest \<Rightarrow> do {
           st \<leftarrow> expire_key rt key (sys_store s);
           Some (s\<lparr>sys_store := st, sys_pending := rest\<rparr>) })
   | Finished \<Rightarrow> Some s)"

lemma sweep_loop_phases:
  "sys_phase s = Waiting \<Longrightarrow>
     sweep_loop rt s = Some (s\<lparr>sys_phase := if sys_stop s then Finished else Collecting\<rparr>)"
  "sys_phase s = Collecting \<Longrightarrow> ttl_expired_keys (sys_now s) (st_ttl (sys_store s)) = (ks, t) \<Longrightarrow>
     sweep_loop rt s = Some (s\<lparr>sys_phase := Expiring, sys_pending := ks,
                               sys_store := (sys_store s)\<lparr>st_ttl := t\<rparr>\<rparr>)"
  "sys_phase s = Expiring \<Longrightarrow> sys_pending s = [] \<Longrightarrow> sweep_loop rt s = Some (s\<lparr>sys_phase := Waiting\<rparr>)"
  "sys_phase s = Expiring \<Longrightarrow> sys_pending s = k # rest \<Longrightarrow> sweep_loop rt s =
     map_option (\<lambda>st. s\<lparr>sys_store := st, sys_pending := rest\<rparr>) (expire_key rt k (sys_store s))"
  "sys_phase s = Finished \<Longrightarrow> sweep_loop rt s = Some s"
  by (simp_all add: bind_Some_map)

declare sweep_loop.simps [simp del]

text \<open>The destructor raises the flag and waits for the thread.\<close>

definition ttl_stop :: "sys \<Rightarrow> sys" where
  "ttl_stop s = s\<lparr>sys_stop := True\<rparr>"

section \<open>Interleavings\<close>

inductive sys_step :: "lru runtime \<Rightarrow> sys \<Rightarrow> sys \<Rightarrow> bool" for rt :: "lru runtime" where
  set: "storage_set rt k v cap ttl (sys_now s) (sys_store s) = Some (r, st) \<Longrightarrow>
    sys_step rt s (s\<lparr>sys_store := st\<rparr>)"
| get: "storage_get rt k (sys_now s) (sys_store s) = Some (b, st) \<Longrightarrow>
    sys_step rt s (s\<lparr>sys_store := st\<rparr>)"
| del: "storage_del rt k (sys_store s) = Some (r, st) \<Longrightarrow>
    sys_step rt s (s\<lparr>sys_store := st\<rparr>)"
| tick: "sys_now s \<le> now \<Longrightarrow> sys_step rt s (s\<lparr>sys_now := now\<rparr>)"
| sweep: "sweep_loop rt s = Some s' \<Longrightarrow> sys_step rt s s'"
| stop: "sys_step rt s (ttl_stop s)"

inductive sys_reach :: "lru runtime \<Rightarrow> sys \<Rightarrow> sys \<Rightarrow> bool" for rt :: "lru runtime" and s0 :: sys where
  start: "sys_reach rt s0 s0"
| step: "sys_reach rt s0 s \<Longrightarrow> sys_step rt s s' \<Longrightarrow> sys_reach rt s0 s'"

lemma sweep_loop_total:
  assumes "lru_storage_inv (sys_store s)"
  shows "\<exists>s'. sweep_loop (lru_runtime grow) s = Some s' \<and> lru_storage_inv (sys_store s')"
proof (cases "sys_phase s")
  case Collecting
  then show ?thesis
    using storage_inv_frame(1) [OF assms] storage_invD(1,4) [OF assms]
      expired_keys_ttl_ok [of "st_ttl (sys_store s)" "sys_now s"]
    by (cases "ttl_expired_keys (sys_now s) (st_ttl (sys_store s))") (simp add: sweep_loop_phases)
next
  case Expiring
  then show ?thesis
    using assms lru.expire_law [OF rt_lru assms, of grow "hd (sys_pending s)"]
    by (cases "sys_pending s") (auto simp: sweep_loop_phases)
qed (use assms in \<open>auto simp: sweep_loop_phases\<close>)

lemma sys_step_inv:
  assumes "sys_step (lru_runtime grow) s s'" and inv: "lru_storage_inv (sys_store s)"
  shows "lru_storage_inv (sys_store s')"
  using assms(1)
proof (cases rule: sys_step.cases)
  case (set k v cap ttl r st)
  with set_total [OF inv, of grow k v cap ttl "sys_now s"] show ?thesis by auto
next
  case (get k b st)
  with storage_step_total [OF inv, of grow "SGet k (sys_now s)"] show ?thesis by auto
next
  case (del k r st)
  with storage_step_total [OF inv, of grow "SDel k"] show ?thesis by auto
next
  case sweep
  with sweep_loop_total [OF inv, of grow] show ?thesis by auto
qed (use inv in \<open>auto simp: ttl_stop_def\<close>)

lemma sys_reach_inv:
  "sys_reach (lru_runtime grow) s0 s \<Longrightarrow> lru_storage_inv (sys_store s0) \<Longrightarrow> lru_storage_inv (sys_store s)"
  by (induction rule: sys_reach.induct) (auto intro: sys_step_inv)

section \<open>An undisturbed pass\<close>

fun sweep_run :: "lru runtime \<Rightarrow> nat \<Rightarrow> sys \<Rightarrow> sys option" where
  "sweep_run rt 0 s = Some s"
| "sweep_run rt (Suc n) s = do { s \<leftarrow> sweep_loop rt s; sweep_run rt n s }"

lemma sweep_run_add: "sweep_run rt (m + n) s = Option.bind (sweep_run rt m s) (sweep_run rt n)"
proof (induction m arbitrary: s)
  case (Suc m)
  then show ?case by (cases "sweep_loop rt s") simp_all
qed simp

lemma expire_pass:
  assumes "sys_phase s = Expiring" and "lru_storage_inv (sys_store s)"
  shows "\<exists>s'. sweep_run (lru_runtime grow) (Suc (length (sys_pending s))) s = Some s' \<and>
    sys_phase s' = Waiting \<and> sys_stop s' = sys_stop s \<and> lru_storage_inv (sys_store s') \<and>
    contents (sys_store s') = (\<lambda>k. if k \<in> set (sys_pending s) then None else contents (sys_store s) k) \<and>
    st_ttl (sys_store s') = st_ttl (sys_store s)"
  using assms
proof (induction "sys_pending s" arbitrary: s)
  case Nil
  then show ?case by (auto simp: fun_eq_iff sweep_loop_phases)
next
  case (Cons k ks)
  obtain st where st: "expire_key (lru_runtime grow) k (sys_store s) = Some st" "lru_storage_inv st"
    "contents st = (contents (sys_store s))(k := None)" "st_ttl st = st_ttl (sys_store s)"
    using lru.expire_law [OF rt_lru Cons.prems(2), of grow k] by blast
  define s1 where "s1 = s\<lparr>sys_store := st, sys_pending := ks\<rparr>"
  have s1: "sys_store s1 = st" "ks = sys_pending s1" "sys_phase s1 = Expiring" "sys_stop s1 = sys_stop s"
    using Cons.prems(1) by (simp_all add: s1_def)
  have one: "sweep_loop (lru_runtime grow) s = Some s1"
    using st(1) Cons.hyps(2) [symmetric] Cons.prems(1) by (simp add: sweep_loop_phases s1_def)
  have "lru_storage_inv (sys_store s1)" using st(2) by (simp only: s1)
  from Cons.hyps(1) [OF s1(2,3) this] obtain s' where
    "sweep_run (lru_runtime grow) (Suc (length ks)) s1 = Some s'" "sys_phase s' = Waiting"
    "sys_stop s' = sys_stop s" "lru_storage_inv (sys_store s')"
    "contents (sys_store s') = (\<lambda>j. if j \<in> set ks then None else contents st j)"
    "st_ttl (sys_store s') = st_ttl st" using s1 by auto
  then show ?case
    using one st(3,4) by (simp add: Cons.hyps(2) [symmetric] fun_eq_iff)
qed

section \<open>Properties\<close>



text \<open>
  C39: An undisturbed pass of the sweeper removes exactly the keys that are due and nothing else, and
  forgets exactly their expiries; it takes one section per due key and three more.
\<close>

theorem sweeper_pass_removes_due_keys:
  assumes "lru_storage_inv (sys_store s)" and "sys_phase s = Waiting" and "\<not> sys_stop s"
  shows "\<exists>n s'. n = card (due (sys_now s) (st_ttl (sys_store s))) + 3 \<and>
    sweep_run (lru_runtime grow) n s = Some s' \<and> sys_phase s' = Waiting \<and>
    contents (sys_store s') =
      (\<lambda>k. if k \<in> due (sys_now s) (st_ttl (sys_store s)) then None else contents (sys_store s) k) \<and>
    expiry (st_ttl (sys_store s')) =
      (\<lambda>k. if k \<in> due (sys_now s) (st_ttl (sys_store s)) then None else expiry (st_ttl (sys_store s)) k)"
proof -
  obtain ks t where e: "ttl_expired_keys (sys_now s) (st_ttl (sys_store s)) = (ks, t)" by fastforce
  note t = ttl_expired_keys_spec [OF storage_invD(4) [OF assms(1)] e]
  define s1 where "s1 = s\<lparr>sys_phase := Collecting\<rparr>"
  define s2 where "s2 = s\<lparr>sys_phase := Expiring, sys_pending := ks,
                         sys_store := (sys_store s)\<lparr>st_ttl := t\<rparr>\<rparr>"
  have run2: "sweep_run (lru_runtime grow) 2 s = Some s2"
    using assms(2,3) e by (simp add: numeral_2_eq_2 sweep_loop_phases s2_def)
  have s2: "sys_phase s2 = Expiring" "sys_pending s2 = ks" "st_ttl (sys_store s2) = t"
    "contents (sys_store s2) = contents (sys_store s)"
    by (simp_all add: s2_def contents_def [abs_def])
  have "lru_storage_inv (sys_store s2)"
    unfolding s2_def using storage_inv_frame(1) [OF assms(1)] storage_invD(1) [OF assms(1)] t by simp
  from expire_pass [OF s2(1) this, of grow, unfolded s2] obtain s' where
    s': "sweep_run (lru_runtime grow) (Suc (length ks)) s2 = Some s'" "sys_phase s' = Waiting"
    "contents (sys_store s') = (\<lambda>k. if k \<in> set ks then None else contents (sys_store s) k)"
    "st_ttl (sys_store s') = t" by blast
  have "length ks = card (due (sys_now s) (st_ttl (sys_store s)))"
    using t by (metis distinct_card)
  then have "sweep_run (lru_runtime grow) (card (due (sys_now s) (st_ttl (sys_store s))) + 3) s = Some s'"
    using sweep_run_add [of "lru_runtime grow" 2 "Suc (length ks)" s] run2 s'(1)
    by (simp add: numeral_3_eq_3 del: sweep_run.simps)
  with s' t show ?thesis by auto
qed

lemma sweeper_pass_removes_due_keys_witness:
  "\<exists>st s'. storage_run fixed_buckets (storage_new 1 300 200) [SSet ''a'' ''x'' 15 1 0] = Some st \<and>
     sweep_run fixed_buckets 4 (sys_init st 1000000000) = Some s' \<and>
     contents (sys_store s') ''a'' = None"
proof -
  obtain st where run: "storage_run fixed_buckets (storage_new 1 300 200) [SSet ''a'' ''x'' 15 1 0] = Some st"
    using storage_run_total by blast
  have "map_option (\<lambda>st. expiries (st_ttl st))
      (storage_run fixed_buckets (storage_new 1 300 200) [SSet ''a'' ''x'' 15 1 0]) =
      Some [(''a'', 1000000000)]" by code_simp
  then have "due 1000000000 (st_ttl st) = {''a''}" using run by (auto simp: due_def split: if_splits)
  moreover have "lru_storage_inv (sys_store (sys_init st 1000000000))"
    using storage_run_inv [OF run] by simp
  from sweeper_pass_removes_due_keys [OF this, of "\<lambda>b n. b", unfolded sys_init_sel]
  obtain n s' where "n = card (due 1000000000 (st_ttl st)) + 3"
    "sweep_run fixed_buckets n (sys_init st 1000000000) = Some s'"
    "contents (sys_store s') = (\<lambda>k. if k \<in> due 1000000000 (st_ttl st) then None else contents st k)"
    by blast
  ultimately show ?thesis using run by auto
qed

text \<open>
  C40: The sweeper can delete a value that has no expiry. It forgets the expiry of a key when it
  collects it and deletes the key later, without looking again; a client that overwrites the key
  in between, with no time to live, loses the new value to the pending deletion. The states below are
  reachable from the constructor.
\<close>

theorem sweeper_deletes_unexpired_value:
  "\<exists>s s'. sys_reach fixed_buckets (sys_init (storage_new 1 300 200) 0) s \<and>
     contents (sys_store s) ''k'' = Some ''new'' \<and> expiry (st_ttl (sys_store s)) ''k'' = None \<and>
     sweep_loop fixed_buckets s = Some s' \<and> contents (sys_store s') ''k'' = None"
proof -
  let ?s0 = "sys_init (storage_new 1 300 200) 0"
  have "do { (r, st) \<leftarrow> storage_set fixed_buckets ''k'' ''old'' 15 1 (sys_now ?s0) (sys_store ?s0);
        s \<leftarrow> sweep_run fixed_buckets 2 (?s0\<lparr>sys_store := st, sys_now := 1000000000\<rparr>);
        (r, st) \<leftarrow> storage_set fixed_buckets ''k'' ''new'' 15 0 (sys_now s) (sys_store s);
        s' \<leftarrow> sweep_loop fixed_buckets (s\<lparr>sys_store := st\<rparr>);
        Some (contents st ''k'', expiry (st_ttl st) ''k'', contents (sys_store s') ''k'') } =
      Some (Some ''new'', None, None)"
    by code_simp
  then obtain r st s1 s2 r2 st2 s' where
    set1: "storage_set fixed_buckets ''k'' ''old'' 15 1 (sys_now ?s0) (sys_store ?s0) = Some (r, st)"
    and w1: "sweep_loop fixed_buckets (?s0\<lparr>sys_store := st, sys_now := 1000000000\<rparr>) = Some s1"
    and w2: "sweep_loop fixed_buckets s1 = Some s2"
    and set2: "storage_set fixed_buckets ''k'' ''new'' 15 0 (sys_now s2) (sys_store s2) = Some (r2, st2)"
    and w3: "sweep_loop fixed_buckets (s2\<lparr>sys_store := st2\<rparr>) = Some s'"
    and out: "contents st2 ''k'' = Some ''new''" "expiry (st_ttl st2) ''k'' = None"
      "contents (sys_store s') ''k'' = None"
    by (auto simp: bind_Some_iff numeral_2_eq_2)
  have "sys_reach fixed_buckets ?s0 (?s0\<lparr>sys_store := st\<rparr>)"
    by (rule sys_reach.step [OF sys_reach.start sys_step.set [OF set1]])
  then have "sys_reach fixed_buckets ?s0 (?s0\<lparr>sys_store := st, sys_now := 1000000000\<rparr>)"
    by (rule sys_reach.step) (rule sys_step.tick, simp add: sys_init_def)
  then have "sys_reach fixed_buckets ?s0 s2"
    using w1 w2 by (blast intro: sys_reach.step sys_step.sweep)
  then have "sys_reach fixed_buckets ?s0 (s2\<lparr>sys_store := st2\<rparr>)"
    by (rule sys_reach.step) (rule sys_step.set [OF set2])
  with w3 out show ?thesis by (intro exI conjI) simp_all
qed

end
