(* ===== verification/Lfu.thy ===== *)
theory Lfu
  imports Policy
begin

text \<open>
  \<^verbatim>\<open>class LFU\<close> (\<^verbatim>\<open>src/src/eviction/lfu.h\<close>, \<^verbatim>\<open>lfu.cpp\<close>): one list of keys per frequency, an index of entries
  with iterators into these lists, and a hint \<^verbatim>\<open>min_freq_\<close> below which every list is empty. Frequencies
  are \<^verbatim>\<open>size_t\<close> and wrap. The loop of \<^verbatim>\<open>evict\<close> that skips empty lists would run forever on an empty
  table; that it returns whenever there is an entry is a theorem.
\<close>

section \<open>State and operations\<close>

record lfu_entry =
  fe_size :: size_t
  fe_freq :: size_t
  fe_it :: nat

record lfu =
  lfu_entries :: "(string, lfu_entry) umap"
  lfu_buckets :: "(size_t, string cxx_list) umap"
  lfu_min_freq :: size_t
  lfu_memory_used :: size_t

definition lfu_init :: lfu where
  "lfu_init = \<lparr>lfu_entries = [], lfu_buckets = [], lfu_min_freq = 0, lfu_memory_used = 0\<rparr>"

text \<open>\<^verbatim>\<open>buckets_[f]\<close>: the list, an empty one where there was none.\<close>

definition bucket :: "(size_t, string cxx_list) umap \<Rightarrow> size_t \<Rightarrow> string cxx_list" where
  "bucket bs f = (case um_find bs f of None \<Rightarrow> cl_empty | Some l \<Rightarrow> l)"

definition lfu_touch :: "string \<Rightarrow> lfu \<Rightarrow> lfu option" where
  "lfu_touch key s = (case um_find (lfu_entries s) key of
     None \<Rightarrow> Some s
   | Some e \<Rightarrow> do {
       l \<leftarrow> cl_erase (fe_it e) (bucket (lfu_buckets s) (fe_freq e));
       let bs = um_set (fe_freq e) l (lfu_buckets s);
       let mf = (if cl_is_empty l \<and> fe_freq e = lfu_min_freq s then lfu_min_freq s + 1
                 else lfu_min_freq s);
       let f = fe_freq e + 1;
       let (it, l') = cl_push_front key (bucket bs f);
       Some (s\<lparr>lfu_min_freq := mf,
               lfu_buckets := um_set f l' bs,
               lfu_entries := um_set key (e\<lparr>fe_freq := f, fe_it := it\<rparr>) (lfu_entries s)\<rparr>) })"

definition lfu_add :: "string \<Rightarrow> size_t \<Rightarrow> lfu \<Rightarrow> lfu option" where
  "lfu_add key sz s = (case um_find (lfu_entries s) key of
     Some e \<Rightarrow>
       let mem = lfu_memory_used s - (size_of key + fe_size e)
       in Some (s\<lparr>lfu_entries := um_set key (e\<lparr>fe_size := sz\<rparr>) (lfu_entries s),
                  lfu_memory_used := mem + (size_of key + sz)\<rparr>)
   | None \<Rightarrow>
       let (it, l) = cl_push_front key (bucket (lfu_buckets s) 1)
       in Some (s\<lparr>lfu_buckets := um_set 1 l (lfu_buckets s),
                  lfu_entries := um_emplace key \<lparr>fe_size = sz, fe_freq = 1, fe_it = it\<rparr> (lfu_entries s),
                  lfu_min_freq := 1,
                  lfu_memory_used := lfu_memory_used s + (size_of key + sz)\<rparr>))"

definition lfu_remove :: "string \<Rightarrow> lfu \<Rightarrow> lfu option" where
  "lfu_remove key s = (case um_find (lfu_entries s) key of
     None \<Rightarrow> Some s
   | Some e \<Rightarrow> do {
       l \<leftarrow> cl_erase (fe_it e) (bucket (lfu_buckets s) (fe_freq e));
       let mf = (if cl_is_empty l \<and> fe_freq e = lfu_min_freq s then lfu_min_freq s + 1
                 else lfu_min_freq s);
       Some (s\<lparr>lfu_buckets := um_set (fe_freq e) l (lfu_buckets s),
               lfu_min_freq := mf,
               lfu_memory_used := lfu_memory_used s - (size_of key + fe_size e),
               lfu_entries := um_erase key (lfu_entries s)\<rparr>) })"

text \<open>
  \<^verbatim>\<open>while (buckets_[min_freq_].empty()) ++min_freq_;\<close> where the subscript also inserts the list it
  looks at.
\<close>

partial_function (option) skip_empty ::
  "(size_t, string cxx_list) umap \<Rightarrow> size_t \<Rightarrow> ((size_t, string cxx_list) umap \<times> size_t) option" where
  "skip_empty bs f =
     (let l = bucket bs f; bs = um_emplace f cl_empty bs
      in if cl_is_empty l then skip_empty bs (f + 1) else Some (bs, f))"

definition lfu_evict :: "lfu \<Rightarrow> (string \<times> lfu) option" where
  "lfu_evict s = (if lfu_entries s = [] then Some ([], s)
   else do {
     (bs, f) \<leftarrow> skip_empty (lfu_buckets s) (lfu_min_freq s);
     key \<leftarrow> cl_back (bucket bs f);
     l \<leftarrow> cl_pop_back (bucket bs f);
     let sz = (case um_find (lfu_entries s) key of None \<Rightarrow> 0 | Some e \<Rightarrow> fe_size e);
     Some (key, s\<lparr>lfu_buckets := um_set f l bs,
                  lfu_min_freq := f,
                  lfu_memory_used := lfu_memory_used s - (size_of key + sz),
                  lfu_entries := um_erase key (lfu_entries s)\<rparr>) })"

definition lfu_policy :: "lfu policy" where
  "lfu_policy = \<lparr>p_touch = lfu_touch, p_add = lfu_add, p_remove = lfu_remove,
                 p_evict = lfu_evict, p_memory_used = lfu_memory_used\<rparr>"

section \<open>The invariant\<close>

definition lfu_resident :: "lfu \<Rightarrow> string \<rightharpoonup> size_t" where
  "lfu_resident s k = map_option fe_size (um_find (lfu_entries s) k)"

abbreviation lfu_list :: "lfu \<Rightarrow> size_t \<Rightarrow> string cxx_list" where
  "lfu_list s f \<equiv> bucket (lfu_buckets s) f"

text \<open>
  The lists and the entries describe the same thing: the node \<open>i\<close> of the list for frequency \<open>f\<close> holds \<open>k\<close>
  exactly when the entry of \<open>k\<close> says so.
\<close>

definition linked :: "(string \<rightharpoonup> lfu_entry) \<Rightarrow> (size_t \<Rightarrow> string cxx_list) \<Rightarrow> bool" where
  "linked E B \<longleftrightarrow> (\<forall>f. cl_ok (B f)) \<and>
     (\<forall>f i k. map_of (nodes (B f)) i = Some k \<longleftrightarrow>
        (\<exists>e. E k = Some e \<and> fe_freq e = f \<and> fe_it e = i))"

definition lfu_inv :: "lfu \<Rightarrow> bool" where
  "lfu_inv s \<longleftrightarrow> linked (um_find (lfu_entries s)) (lfu_list s) \<and>
     lfu_memory_used s = footprint (lfu_resident s)"

lemma linkedD:
  assumes "linked E B" and "E k = Some e"
  shows "map_of (nodes (B (fe_freq e))) (fe_it e) = Some k" and "cl_ok (B f)"
  using assms by (auto simp: linked_def)

lemma linked_inj:
  assumes "linked E B" and "E k = Some e" and "E j = Some e'"
    and "fe_freq e' = fe_freq e" and "fe_it e' = fe_it e"
  shows "j = k"
  using linkedD(1) [OF assms(1,2)] linkedD(1) [OF assms(1,3)] assms(4,5) by simp

lemma bucket_set [simp]: "bucket (um_set f l bs) = (bucket bs)(f := l)"
  by (rule ext) (simp add: bucket_def)

lemma bucket_emplace [simp]: "bucket (um_emplace f cl_empty bs) = bucket bs"
  by (rule ext) (auto simp: bucket_def um_emplace_def split: option.split)

lemma map_of_delete_node: "map_of (AList.delete i ns) = (map_of ns)(i := None)"
  by (rule delete_conv')

text \<open>Taking the node of an entry out of its list, with the entry.\<close>

lemma linked_erase:
  assumes L: "linked E B" and e: "E k = Some e"
  shows "linked (E(k := None)) (B(fe_freq e := (B (fe_freq e))\<lparr>nodes := AList.delete (fe_it e) (nodes (B (fe_freq e)))\<rparr>))"
  unfolding linked_def
proof (intro conjI allI)
  fix f
  show "cl_ok ((B(fe_freq e := (B (fe_freq e))\<lparr>nodes := AList.delete (fe_it e) (nodes (B (fe_freq e)))\<rparr>)) f)"
    using linkedD(2) [OF L e] by (simp add: cl_ok_delete)
next
  fix f i j
  show "map_of (nodes ((B(fe_freq e := (B (fe_freq e))\<lparr>nodes := AList.delete (fe_it e) (nodes (B (fe_freq e)))\<rparr>)) f)) i = Some j
    \<longleftrightarrow> (\<exists>e'. (E(k := None)) j = Some e' \<and> fe_freq e' = f \<and> fe_it e' = i)"
  proof (cases "f = fe_freq e \<and> i = fe_it e")
    case True
    have "\<not> ((E(k := None)) j = Some e' \<and> fe_freq e' = f \<and> fe_it e' = i)" for e'
      using linked_inj [OF L e, of j e'] True by auto
    with True show ?thesis by (simp add: map_of_delete_node)
  next
    case False
    then have "map_of (nodes ((B(fe_freq e := (B (fe_freq e))\<lparr>nodes := AList.delete (fe_it e) (nodes (B (fe_freq e)))\<rparr>)) f)) i
        = map_of (nodes (B f)) i"
      by (auto simp: map_of_delete_node)
    moreover have "map_of (nodes (B f)) i = Some j \<longleftrightarrow> (\<exists>e'. E j = Some e' \<and> fe_freq e' = f \<and> fe_it e' = i)"
      using L by (simp add: linked_def)
    ultimately show ?thesis using e False by auto
  qed
qed

text \<open>Putting a new key at the front of a list, with its entry.\<close>

lemma linked_push:
  assumes L: "linked E B" and k: "E k = None" and e: "fe_freq e = f" "fe_it e = fst (cl_push_front k (B f))"
  shows "linked (E(k \<mapsto> e)) (B(f := snd (cl_push_front k (B f))))"
proof -
  have ok: "\<forall>g. cl_ok (B g)" using L by (simp add: linked_def)
  then have fresh: "map_of (nodes (B f)) (next_id (B f)) = None" by (simp add: cl_fresh)
  have nok: "map_of (nodes (B g)) i \<noteq> Some k" for g i using L k by (auto simp: linked_def)
  have old: "E j = Some e' \<Longrightarrow> fe_freq e' = f \<Longrightarrow> fe_it e' \<noteq> next_id (B f)" for j e'
    using linkedD(1) [OF L, of j e'] fresh by auto
  have it: "fe_it e = next_id (B f)" using e(2) by (simp add: cl_push_front_def)
  show ?thesis
    unfolding linked_def
  proof (intro conjI allI)
    fix g
    show "cl_ok ((B(f := snd (cl_push_front k (B f)))) g)" using ok by simp
  next
    fix g i j
    show "map_of (nodes ((B(f := snd (cl_push_front k (B f)))) g)) i = Some j
      \<longleftrightarrow> (\<exists>e'. (E(k \<mapsto> e)) j = Some e' \<and> fe_freq e' = g \<and> fe_it e' = i)"
      using L k e(1) it fresh nok old [of j] by (auto simp: linked_def cl_push_front_def)
  qed
qed

lemma linked_size:
  assumes "linked E B" and "E k = Some e" and "fe_freq e' = fe_freq e" "fe_it e' = fe_it e"
  shows "linked (E(k \<mapsto> e')) B"
  using assms by (auto simp: linked_def)

lemma resident_entries [simp]:
  "lfu_resident s = (\<lambda>k. map_option fe_size (um_find (lfu_entries s) k))"
  by (rule ext) (simp add: lfu_resident_def)

section \<open>What the operations do to entries and lists\<close>

definition taken :: "(size_t \<Rightarrow> string cxx_list) \<Rightarrow> lfu_entry \<Rightarrow> size_t \<Rightarrow> string cxx_list" where
  "taken B e = B(fe_freq e := (B (fe_freq e))\<lparr>nodes := AList.delete (fe_it e) (nodes (B (fe_freq e)))\<rparr>)"

definition pushed :: "string \<Rightarrow> size_t \<Rightarrow> (size_t \<Rightarrow> string cxx_list) \<Rightarrow> size_t \<Rightarrow> string cxx_list" where
  "pushed k f B = B(f := snd (cl_push_front k (B f)))"

definition bump :: "(size_t \<Rightarrow> string cxx_list) \<Rightarrow> lfu_entry \<Rightarrow> size_t \<Rightarrow> size_t" where
  "bump B e m = (if nodes (taken B e (fe_freq e)) = [] \<and> fe_freq e = m then m + 1 else m)"

lemma linked_cl_erase:
  assumes "linked E B" and "E k = Some e"
  shows "cl_erase (fe_it e) (B (fe_freq e)) = Some (taken B e (fe_freq e))"
  using linkedD(1) [OF assms] by (simp add: cl_erase_def cl_deref_def taken_def)

lemma lfu_touch_eq:
  assumes "linked (um_find (lfu_entries s)) (lfu_list s)" and "um_find (lfu_entries s) k = Some e"
  defines "B \<equiv> taken (lfu_list s) e"
  shows "\<exists>s'. lfu_touch k s = Some s' \<and>
    um_find (lfu_entries s') = (um_find (lfu_entries s))
      (k \<mapsto> e\<lparr>fe_freq := fe_freq e + 1, fe_it := fst (cl_push_front k (B (fe_freq e + 1)))\<rparr>) \<and>
    lfu_list s' = pushed k (fe_freq e + 1) B \<and>
    lfu_min_freq s' = bump (lfu_list s) e (lfu_min_freq s) \<and>
    lfu_memory_used s' = lfu_memory_used s"
  using linked_cl_erase [OF assms(1,2)] assms(2)
  by (simp add: lfu_touch_def Let_def case_prod_unfold bump_def cl_is_empty_def pushed_def B_def taken_def)

lemma lfu_remove_eq:
  assumes "linked (um_find (lfu_entries s)) (lfu_list s)" and "um_find (lfu_entries s) k = Some e"
  shows "\<exists>s'. lfu_remove k s = Some s' \<and>
    um_find (lfu_entries s') = (um_find (lfu_entries s))(k := None) \<and>
    lfu_list s' = taken (lfu_list s) e \<and>
    lfu_min_freq s' = bump (lfu_list s) e (lfu_min_freq s) \<and>
    lfu_memory_used s' = lfu_memory_used s - charge k (fe_size e)"
  using linked_cl_erase [OF assms(1,2)] assms(2)
  by (simp add: lfu_remove_def Let_def bump_def cl_is_empty_def charge_def taken_def)

lemma lfu_add_old:
  assumes "um_find (lfu_entries s) k = Some e"
  shows "\<exists>s'. lfu_add k z s = Some s' \<and>
    um_find (lfu_entries s') = (um_find (lfu_entries s))(k \<mapsto> e\<lparr>fe_size := z\<rparr>) \<and>
    lfu_list s' = lfu_list s \<and> lfu_min_freq s' = lfu_min_freq s \<and>
    lfu_memory_used s' = lfu_memory_used s - charge k (fe_size e) + charge k z"
  using assms by (simp add: lfu_add_def Let_def charge_def)

lemma lfu_add_new:
  assumes "um_find (lfu_entries s) k = None"
  shows "\<exists>s'. lfu_add k z s = Some s' \<and>
    um_find (lfu_entries s') = (um_find (lfu_entries s))
      (k \<mapsto> \<lparr>fe_size = z, fe_freq = 1, fe_it = fst (cl_push_front k (lfu_list s 1))\<rparr>) \<and>
    lfu_list s' = pushed k 1 (lfu_list s) \<and> lfu_min_freq s' = 1 \<and>
    lfu_memory_used s' = lfu_memory_used s + charge k z"
  using assms by (simp add: lfu_add_def case_prod_unfold charge_def pushed_def Let_def)

text \<open>The skipping loop returns as soon as any list holds a key: it looks at every frequency in turn.\<close>

lemma skip_empty_returns:
  assumes "nodes (bucket bs g) \<noteq> []"
  shows "\<exists>bs' f. skip_empty bs m = Some (bs', f) \<and> bucket bs' = bucket bs \<and> nodes (bucket bs f) \<noteq> [] \<and>
    (\<forall>h. unat (h - m) < unat (f - m) \<longrightarrow> nodes (bucket bs h) = [])"
  using assms
proof (induction "unat (g - m)" arbitrary: m bs)
  case 0
  then have "g = m" by (simp add: unat_eq_0)
  with 0 show ?case by (subst skip_empty.simps) (auto simp: cl_is_empty_def Let_def)
next
  case (Suc n)
  show ?case
  proof (cases "nodes (bucket bs m) = []")
    case False
    then show ?thesis by (subst skip_empty.simps) (auto simp: cl_is_empty_def Let_def)
  next
    case True
    have step: "unat (h - (m + 1)) = unat (h - m) - 1" if "h \<noteq> m" for h
    proof -
      from that have "h - m \<noteq> 0" by simp
      then have "unat (h - m - 1) = unat (h - m) - 1" by (rule unat_minus_one)
      then show ?thesis by (simp add: diff_diff_eq)
    qed
    let ?bs = "um_emplace m cl_empty bs"
    have "g \<noteq> m" using True Suc.prems by auto
    with step [of g] Suc.hyps(2) have "n = unat (g - (m + 1))" by simp
    from Suc.hyps(1) [OF this, of ?bs] Suc.prems obtain bs' f where
      f: "skip_empty ?bs (m + 1) = Some (bs', f)" "bucket bs' = bucket bs" "nodes (bucket bs f) \<noteq> []"
      and low: "\<forall>h. unat (h - (m + 1)) < unat (f - (m + 1)) \<longrightarrow> nodes (bucket bs h) = []" by auto
    have "f \<noteq> m" using f(3) True by auto
    have "\<forall>h. unat (h - m) < unat (f - m) \<longrightarrow> nodes (bucket bs h) = []"
    proof (intro allI impI)
      fix h
      assume h: "unat (h - m) < unat (f - m)"
      show "nodes (bucket bs h) = []"
      proof (cases "h = m")
        case False
        then have "unat (h - m) \<noteq> 0" by (simp add: unat_eq_0)
        with h step [OF False] step [OF \<open>f \<noteq> m\<close>] low show ?thesis by auto
      qed (use True in simp)
    qed
    with f True show ?thesis by (subst skip_empty.simps) (auto simp: cl_is_empty_def Let_def)
  qed
qed

lemma entry_list_not_empty:
  "linked E B \<Longrightarrow> E k = Some e \<Longrightarrow> nodes (B (fe_freq e)) \<noteq> []"
  using linkedD(1) [of E B k e] by auto

lemma lfu_evict_eq:
  assumes L: "linked (um_find (lfu_entries s)) (lfu_list s)" and ne: "lfu_entries s \<noteq> []"
  shows "\<exists>k e s'. lfu_evict s = Some (k, s') \<and> um_find (lfu_entries s) k = Some e \<and>
    nodes (lfu_list s (fe_freq e)) \<noteq> [] \<and> last (nodes (lfu_list s (fe_freq e))) = (fe_it e, k) \<and>
    (\<forall>h. unat (h - lfu_min_freq s) < unat (fe_freq e - lfu_min_freq s) \<longrightarrow> nodes (lfu_list s h) = []) \<and>
    um_find (lfu_entries s') = (um_find (lfu_entries s))(k := None) \<and>
    lfu_list s' = taken (lfu_list s) e \<and> lfu_min_freq s' = fe_freq e \<and>
    lfu_memory_used s' = lfu_memory_used s - charge k (fe_size e)"
proof -
  have "um_find (lfu_entries s) (fst (hd (lfu_entries s))) = Some (snd (hd (lfu_entries s)))"
    using ne by (cases "lfu_entries s") auto
  from skip_empty_returns [OF entry_list_not_empty [OF L this], of "lfu_min_freq s"] obtain bs f where
    sk: "skip_empty (lfu_buckets s) (lfu_min_freq s) = Some (bs, f)" "bucket bs = lfu_list s"
    and nf: "nodes (lfu_list s f) \<noteq> []"
    and low: "\<forall>h. unat (h - lfu_min_freq s) < unat (f - lfu_min_freq s) \<longrightarrow> nodes (lfu_list s h) = []" by blast
  obtain i k where ik: "last (nodes (lfu_list s f)) = (i, k)" by (cases "last (nodes (lfu_list s f))")
  have ok: "cl_ok (lfu_list s f)" using L by (simp add: linked_def)
  then have d: "distinct (map fst (nodes (lfu_list s f)))" by (simp add: cl_ok_def)
  have "(i, k) \<in> set (nodes (lfu_list s f))" using last_in_set [OF nf] ik by simp
  with d have "map_of (nodes (lfu_list s f)) i = Some k" by simp
  with L obtain e where e: "um_find (lfu_entries s) k = Some e" "fe_freq e = f" "fe_it e = i"
    by (auto simp: linked_def)
  have bl: "AList.delete i (nodes (lfu_list s f)) = butlast (nodes (lfu_list s f))"
    using delete_last [OF d nf] ik by simp
  have tk: "taken (lfu_list s) e = (lfu_list s)(f := (lfu_list s f)\<lparr>nodes := butlast (nodes (lfu_list s f))\<rparr>)"
    using e bl by (simp add: taken_def)
  show ?thesis
    using ne sk nf low ik e
    by (intro exI [of _ k] exI [of _ e])
      (simp add: lfu_evict_def cl_back_def cl_pop_back_def Let_def charge_def tk)
qed

section \<open>LFU implements the interface\<close>

lemma linked_touch:
  assumes "linked E B" and "E k = Some e" and "fe_freq e' = f" "fe_it e' = fst (cl_push_front k (taken B e f))"
  shows "linked (E(k \<mapsto> e')) (pushed k f (taken B e))"
proof -
  have "linked (E(k := None)) (taken B e)" using linked_erase [OF assms(1,2)] by (simp add: taken_def)
  from linked_push [OF this _ assms(3,4)] show ?thesis by (simp add: pushed_def)
qed

lemma lfu_inv_init: "lfu_inv lfu_init"
  by (auto simp: lfu_inv_def lfu_init_def linked_def bucket_def)

lemma resident_finite: "finite (dom (lfu_resident s))"
proof -
  have "dom (lfu_resident s) = dom (um_find (lfu_entries s))" by (auto simp: dom_def)
  then show ?thesis by (simp only: um_finite_dom)
qed

lemma resident_empty_iff: "lfu_resident s = Map.empty \<longleftrightarrow> lfu_entries s = []"
proof
  assume "lfu_resident s = Map.empty"
  then have "um_find (lfu_entries s) = Map.empty" by (auto simp: fun_eq_iff)
  then show "lfu_entries s = []" by simp
qed simp

lemma lfu_touch_inv:
  assumes inv: "lfu_inv s"
  shows "\<exists>s'. lfu_touch k s = Some s' \<and> lfu_inv s' \<and> lfu_resident s' = lfu_resident s"
proof (cases "um_find (lfu_entries s) k")
  case None
  with inv show ?thesis by (simp add: lfu_touch_def)
next
  case (Some e)
  have L: "linked (um_find (lfu_entries s)) (lfu_list s)" using inv by (simp add: lfu_inv_def)
  from lfu_touch_eq [OF L Some] obtain s' where s': "lfu_touch k s = Some s'"
    "um_find (lfu_entries s') = (um_find (lfu_entries s))
      (k \<mapsto> e\<lparr>fe_freq := fe_freq e + 1, fe_it := fst (cl_push_front k (taken (lfu_list s) e (fe_freq e + 1)))\<rparr>)"
    "lfu_list s' = pushed k (fe_freq e + 1) (taken (lfu_list s) e)"
    "lfu_memory_used s' = lfu_memory_used s" by blast
  have r: "lfu_resident s' = lfu_resident s" using s'(2) Some by auto
  have "linked (um_find (lfu_entries s')) (lfu_list s')"
    unfolding s'(2,3) by (rule linked_touch [OF L Some]) simp_all
  with inv r s' show ?thesis by (simp add: lfu_inv_def del: resident_entries)
qed

lemma lfu_add_inv:
  assumes inv: "lfu_inv s"
  shows "\<exists>s'. lfu_add k z s = Some s' \<and> lfu_inv s' \<and> lfu_resident s' = (lfu_resident s)(k \<mapsto> z)"
proof (cases "um_find (lfu_entries s) k")
  case None
  have L: "linked (um_find (lfu_entries s)) (lfu_list s)" using inv by (simp add: lfu_inv_def)
  from lfu_add_new [OF None, of z] obtain s' where s': "lfu_add k z s = Some s'"
    "um_find (lfu_entries s') = (um_find (lfu_entries s))
      (k \<mapsto> \<lparr>fe_size = z, fe_freq = 1, fe_it = fst (cl_push_front k (lfu_list s 1))\<rparr>)"
    "lfu_list s' = pushed k 1 (lfu_list s)" "lfu_memory_used s' = lfu_memory_used s + charge k z" by blast
  have r: "lfu_resident s' = (lfu_resident s)(k \<mapsto> z)" using s'(2) by auto
  have "linked (um_find (lfu_entries s')) (lfu_list s')"
    unfolding s'(2,3) pushed_def by (rule linked_push [OF L None]) simp_all
  moreover have "lfu_resident s k = None" using None by simp
  ultimately show ?thesis
    using inv r s' footprint_insert [OF resident_finite]
    by (simp add: lfu_inv_def del: resident_entries)
next
  case (Some e)
  have L: "linked (um_find (lfu_entries s)) (lfu_list s)" using inv by (simp add: lfu_inv_def)
  from lfu_add_old [OF Some, of z] obtain s' where s': "lfu_add k z s = Some s'"
    "um_find (lfu_entries s') = (um_find (lfu_entries s))(k \<mapsto> e\<lparr>fe_size := z\<rparr>)"
    "lfu_list s' = lfu_list s"
    "lfu_memory_used s' = lfu_memory_used s - charge k (fe_size e) + charge k z" by blast
  have r: "lfu_resident s' = (lfu_resident s)(k \<mapsto> z)" using s'(2) by auto
  have "linked (um_find (lfu_entries s')) (lfu_list s')"
    unfolding s'(2,3) by (rule linked_size [OF L Some]) simp_all
  moreover have "lfu_resident s k = Some (fe_size e)" using Some by simp
  ultimately show ?thesis
    using inv r s' footprint_upd [OF resident_finite, of s k z]
    by (simp add: lfu_inv_def del: resident_entries)
qed

lemma lfu_drop_inv:
  assumes inv: "lfu_inv s" and e: "um_find (lfu_entries s) k = Some e"
    and E: "um_find (lfu_entries s') = (um_find (lfu_entries s))(k := None)"
    and B: "lfu_list s' = taken (lfu_list s) e"
    and m: "lfu_memory_used s' = lfu_memory_used s - charge k (fe_size e)"
  shows "lfu_inv s' \<and> lfu_resident s' = (lfu_resident s)(k := None)"
proof -
  have r: "lfu_resident s' = (lfu_resident s)(k := None)" using E by auto
  have L: "linked (um_find (lfu_entries s)) (lfu_list s)" using inv by (simp add: lfu_inv_def)
  have "linked (um_find (lfu_entries s')) (lfu_list s')"
    unfolding E B using linked_erase [OF L e] by (simp only: taken_def)
  moreover have "lfu_resident s k = Some (fe_size e)" using e by simp
  ultimately show ?thesis
    using inv r m footprint_del [OF resident_finite, of s k]
    by (simp add: lfu_inv_def del: resident_entries)
qed

interpretation lfu: eviction_policy lfu_policy lfu_init lfu_inv lfu_resident
proof (unfold_locales, goal_cases)
  case 1
  show ?case by (rule lfu_inv_init)
next
  case 2
  show ?case by (simp add: lfu_init_def)
next
  case (3 p)
  show ?case by (rule resident_finite)
next
  case (4 p k)
  from lfu_touch_inv [OF this] show ?case by (simp add: lfu_policy_def)
next
  case (5 p k s)
  from lfu_add_inv [OF this] show ?case by (simp add: lfu_policy_def)
next
  case (6 p k)
  then have L: "linked (um_find (lfu_entries p)) (lfu_list p)" by (simp add: lfu_inv_def)
  show ?case
  proof (cases "um_find (lfu_entries p) k")
    case None
    with 6 show ?thesis by (auto simp: lfu_policy_def lfu_remove_def)
  next
    case (Some e)
    from lfu_remove_eq [OF L Some] lfu_drop_inv [OF 6 Some] show ?thesis
      by (auto simp: lfu_policy_def simp del: resident_entries)
  qed
next
  case (7 p)
  then show ?case by (simp add: lfu_policy_def lfu_evict_def resident_empty_iff del: resident_entries)
next
  case (8 p)
  then have L: "linked (um_find (lfu_entries p)) (lfu_list p)" and ne: "lfu_entries p \<noteq> []"
    by (simp add: lfu_inv_def, simp add: resident_empty_iff del: resident_entries)
  from lfu_evict_eq [OF L ne] obtain k e s' where
    "lfu_evict p = Some (k, s')" "um_find (lfu_entries p) k = Some e"
    "lfu_inv s' \<and> lfu_resident s' = (lfu_resident p)(k := None)"
    using lfu_drop_inv [OF 8(1)] by blast
  then show ?case by (auto simp: lfu_policy_def)
next
  case (9 p)
  then show ?case by (simp add: lfu_policy_def lfu_inv_def)
qed

end
