(* ===== verification/LfuSpec.thy ===== *)
theory LfuSpec
  imports Lfu
begin

text \<open>
  What \<^verbatim>\<open>class LFU\<close> promises: the resident keys with their sizes and use counts, latest arrival at its
  count first. A use adds one and moves the key to the front, storing an existing key changes its size
  only, and the victim is, among the keys with the smallest count, the one that reached it first. The class
  refines this as long as no frequency wraps, that is over histories of fewer than \<open>2\<^sup>6\<^sup>4\<close> operations.
\<close>

section \<open>The frequency list\<close>

type_synonym frequency = "(string \<times> size_t \<times> nat) list"

definition fq_touch :: "string \<Rightarrow> frequency \<Rightarrow> frequency" where
  "fq_touch k r = (case map_of r k of None \<Rightarrow> r | Some (z, n) \<Rightarrow> (k, z, Suc n) # AList.delete k r)"

definition fq_add :: "string \<Rightarrow> size_t \<Rightarrow> frequency \<Rightarrow> frequency" where
  "fq_add k z r = (case map_of r k of None \<Rightarrow> (k, z, 1) # r
     | Some (_, n) \<Rightarrow> map (\<lambda>(j, v). (j, if j = k then (z, n) else v)) r)"

definition level :: "nat \<Rightarrow> frequency \<Rightarrow> string list" where
  "level n r = map fst (filter (\<lambda>(_, _, m). m = n) r)"

definition least_count :: "frequency \<Rightarrow> nat" where
  "least_count r = Min (set (map (snd \<circ> snd) r))"

definition fq_victim :: "frequency \<Rightarrow> string" where
  "fq_victim r = last (level (least_count r) r)"

fun fq_step :: "policy_op \<Rightarrow> frequency \<Rightarrow> frequency" where
  "fq_step (Touch k) r = fq_touch k r"
| "fq_step (Add k z) r = fq_add k z r"
| "fq_step (Remove k) r = AList.delete k r"
| "fq_step Evict r = (if r = [] then [] else AList.delete (fq_victim r) r)"

fun fq_run :: "policy_op list \<Rightarrow> frequency" where
  "fq_run [] = []"
| "fq_run (a # past) = fq_step a (fq_run past)"

section \<open>The representation\<close>

definition same_entry :: "(size_t \<times> nat) option \<Rightarrow> lfu_entry option \<Rightarrow> bool" where
  "same_entry v e = (case (v, e) of
     (None, None) \<Rightarrow> True
   | (Some (z, n), Some e) \<Rightarrow> fe_size e = z \<and> unat (fe_freq e) = n
   | _ \<Rightarrow> False)"

definition lfu_rep :: "lfu \<Rightarrow> frequency \<Rightarrow> bool" where
  "lfu_rep s r \<longleftrightarrow> lfu_inv s \<and> distinct (map fst r) \<and>
     (\<forall>k. same_entry (map_of r k) (um_find (lfu_entries s) k)) \<and>
     (\<forall>f. cl_elems (lfu_list s f) = level (unat f) r) \<and>
     (\<forall>(k, z, n)\<in>set r. unat (lfu_min_freq s) \<le> n) \<and> (\<forall>x\<in>set r. 0 < snd (snd x))"

lemma lfu_rep_lookup:
  assumes "lfu_rep s r"
  shows "um_find (lfu_entries s) k = None \<longleftrightarrow> map_of r k = None"
    and "um_find (lfu_entries s) k = Some e \<Longrightarrow> map_of r k = Some (fe_size e, unat (fe_freq e))"
proof -
  have "same_entry (map_of r k) (um_find (lfu_entries s) k)" using assms by (simp add: lfu_rep_def)
  then show "um_find (lfu_entries s) k = None \<longleftrightarrow> map_of r k = None"
    and "um_find (lfu_entries s) k = Some e \<Longrightarrow> map_of r k = Some (fe_size e, unat (fe_freq e))"
    by (auto simp: same_entry_def split: option.splits)
qed

lemma lfu_rep_resident:
  assumes "lfu_rep s r"
  shows "lfu_resident s = (\<lambda>k. map_option fst (map_of r k))"
proof
  fix k
  show "lfu_resident s k = map_option fst (map_of r k)"
    using lfu_rep_lookup [OF assms, of k] by (cases "um_find (lfu_entries s) k") auto
qed

section \<open>Levels\<close>

lemma level_Cons: "level m ((k, z, n) # r) = (if n = m then k # level m r else level m r)"
  by (simp add: level_def)

lemma level_delete: "level m (AList.delete k r) = removeAll k (level m r)"
  by (induction r) (auto simp: level_def)

lemma level_resize:
  "distinct (map fst r) \<Longrightarrow> map_of r k = Some (y, n) \<Longrightarrow>
     level m (map (\<lambda>(j, v). (j, if j = k then (z, n) else v)) r) = level m r"
proof (induction r)
  case (Cons x r)
  obtain j w p where x: "x = (j, w, p)" by (cases x)
  have keep: "map (\<lambda>(j, v). (j, if j = k then (z, n) else v)) r = r" if "k \<notin> fst ` set r"
    using that by (intro map_idI) (force split: if_splits)
  show ?case
  proof (cases "j = k")
    case True
    with Cons.prems x have "k \<notin> fst ` set r" "p = n" by auto
    with True x keep show ?thesis by (simp add: level_Cons)
  next
    case False
    with Cons x show ?thesis by (simp add: level_Cons)
  qed
qed simp

lemma level_not_in: "k \<notin> fst ` set r \<Longrightarrow> k \<notin> set (level m r)"
  by (auto simp: level_def)

lemma in_level: "distinct (map fst r) \<Longrightarrow> map_of r k = Some (z, n) \<Longrightarrow> k \<in> set (level m r) \<longleftrightarrow> m = n"
  by (auto simp: level_def image_iff dest!: map_of_SomeD dest: eq_key_imp_eq_value)

lemma taken_elems:
  assumes L: "linked E B" and e: "E k = Some e"
  shows "cl_elems (taken B e f) = removeAll k (cl_elems (B f))"
proof -
  have ok: "distinct (map fst (nodes (B f)))" using L by (simp add: linked_def cl_ok_def)
  have in_e: "x = k \<longleftrightarrow> f = fe_freq e \<and> i = fe_it e" if "(i, x) \<in> set (nodes (B f))" for i x
  proof -
    from that ok have "map_of (nodes (B f)) i = Some x" by simp
    with L obtain e' where "E x = Some e'" "fe_freq e' = f" "fe_it e' = i" by (auto simp: linked_def)
    with e linked_inj [OF L e, of x e'] show ?thesis by auto
  qed
  show ?thesis
  proof (cases "f = fe_freq e")
    case True
    have "filter (\<lambda>p. fst p \<noteq> fe_it e) (nodes (B f)) = filter (\<lambda>p. snd p \<noteq> k) (nodes (B f))"
      by (rule filter_cong [OF refl]) (metis in_e True prod.collapse)
    with True show ?thesis
      by (simp add: taken_def cl_elems_def AList.delete_eq removeAll_filter_not_eq filter_map comp_def
          case_prod_unfold eq_commute)
  next
    case False
    then have "(i, k) \<notin> set (nodes (B f))" for i using in_e by blast
    then have "k \<notin> set (cl_elems (B f))" by (force simp: cl_elems_def)
    with False show ?thesis by (simp add: taken_def)
  qed
qed

lemma cl_elems_Nil_iff: "cl_elems l = [] \<longleftrightarrow> nodes l = []"
  by (simp add: cl_elems_def)

section \<open>Every operation refines the frequency list\<close>

lemma lfu_repD:
  assumes "lfu_rep s r"
  shows "linked (um_find (lfu_entries s)) (lfu_list s)" and "lfu_inv s" and "distinct (map fst r)"
    and "cl_elems (lfu_list s f) = level (unat f) r"
    and "(k, z, n) \<in> set r \<Longrightarrow> unat (lfu_min_freq s) \<le> n"
    and "\<forall>x\<in>set r. 0 < snd (snd x)"
  using assms by (auto simp: lfu_rep_def lfu_inv_def)

text \<open>After taking a key out, \<^verbatim>\<open>min_freq_\<close> is still at most every count left.\<close>

lemma bump_le:
  assumes rep: "lfu_rep s r" and e: "um_find (lfu_entries s) k = Some e"
    and x: "(j, z, n) \<in> set (AList.delete k r)"
    and small: "Suc (unat (fe_freq e)) < 2 ^ 64"
  shows "unat (bump (lfu_list s) e (lfu_min_freq s)) \<le> n"
proof -
  have old: "unat (lfu_min_freq s) \<le> n" using lfu_repD(5) [OF rep] x by (auto simp: set_delete)
  show ?thesis
  proof (cases "nodes (taken (lfu_list s) e (fe_freq e)) = [] \<and> fe_freq e = lfu_min_freq s")
    case True
    then have "cl_elems (taken (lfu_list s) e (fe_freq e)) = []"
      unfolding cl_elems_Nil_iff by (rule conjunct1)
    then have "removeAll k (level (unat (fe_freq e)) r) = []"
      unfolding taken_elems [OF lfu_repD(1) [OF rep] e] lfu_repD(4) [OF rep] .
    then have "level (unat (fe_freq e)) (AList.delete k r) = []" by (simp add: level_delete)
    with x have "n \<noteq> unat (fe_freq e)" by (auto simp: level_def filter_empty_conv)
    moreover have "unat (lfu_min_freq s + 1) = Suc (unat (lfu_min_freq s))"
    proof -
      have "(of_nat (Suc (unat (lfu_min_freq s))) :: size_t) = lfu_min_freq s + 1"
        by (simp add: add.commute)
      then have "unat (lfu_min_freq s + 1) = unat (of_nat (Suc (unat (lfu_min_freq s))) :: size_t)"
        by (simp only:)
      also have "\<dots> = Suc (unat (lfu_min_freq s))"
        using small True by (simp only: unat_of_nat) simp
      finally show ?thesis .
    qed
    ultimately show ?thesis using True old by (simp add: bump_def)
  qed (use old in \<open>auto simp: bump_def\<close>)
qed

lemma lfu_drop_rep:
  assumes rep: "lfu_rep s r" and e: "um_find (lfu_entries s) k = Some e"
    and E: "um_find (lfu_entries s') = (um_find (lfu_entries s))(k := None)"
    and B: "lfu_list s' = taken (lfu_list s) e"
    and m: "lfu_memory_used s' = lfu_memory_used s - charge k (fe_size e)"
    and low: "\<And>j z n. (j, z, n) \<in> set (AList.delete k r) \<Longrightarrow> unat (lfu_min_freq s') \<le> n"
  shows "lfu_rep s' (AList.delete k r)"
proof -
  have "same_entry (map_of (AList.delete k r) j) (um_find (lfu_entries s') j)" for j
    using rep by (auto simp: E lfu_rep_def same_entry_def)
  moreover have "cl_elems (lfu_list s' f) = level (unat f) (AList.delete k r)" for f
    using taken_elems [OF lfu_repD(1) [OF rep] e] lfu_repD(4) [OF rep] by (simp add: B level_delete)
  ultimately show ?thesis
    using lfu_drop_inv [OF lfu_repD(2) [OF rep] e E B m] lfu_repD(3,6) [OF rep] low
    by (auto simp: lfu_rep_def distinct_delete set_delete)
qed

lemma lfu_remove_rep:
  assumes rep: "lfu_rep s r" and bnd: "\<forall>(k, z, n)\<in>set r. Suc n < 2 ^ 64"
  shows "\<exists>s'. lfu_remove k s = Some s' \<and> lfu_rep s' (AList.delete k r)"
proof (cases "um_find (lfu_entries s) k")
  case None
  then have "AList.delete k r = r" using lfu_rep_lookup(1) [OF rep, of k] by (simp add: map_of_eq_None_iff delete_id)
  with None rep show ?thesis by (simp add: lfu_remove_def)
next
  case (Some e)
  have small: "Suc (unat (fe_freq e)) < 2 ^ 64"
    using lfu_rep_lookup(2) [OF rep Some] bnd by (auto dest!: map_of_SomeD)
  from lfu_remove_eq [OF lfu_repD(1) [OF rep] Some] obtain s' where s': "lfu_remove k s = Some s'"
    "um_find (lfu_entries s') = (um_find (lfu_entries s))(k := None)"
    "lfu_list s' = taken (lfu_list s) e" "lfu_min_freq s' = bump (lfu_list s) e (lfu_min_freq s)"
    "lfu_memory_used s' = lfu_memory_used s - charge k (fe_size e)" by blast
  with lfu_drop_rep [OF rep Some s'(2,3,5)] bump_le [OF rep Some _ small] show ?thesis by simp
qed

lemma lfu_touch_rep:
  assumes rep: "lfu_rep s r" and bnd: "\<forall>(k, z, n)\<in>set r. Suc n < 2 ^ 64"
  shows "\<exists>s'. lfu_touch k s = Some s' \<and> lfu_rep s' (fq_touch k r)"
proof (cases "um_find (lfu_entries s) k")
  case None
  with lfu_rep_lookup(1) [OF rep, of k] rep show ?thesis by (simp add: lfu_touch_def fq_touch_def)
next
  case (Some e)
  define n where "n = unat (fe_freq e)"
  have r: "map_of r k = Some (fe_size e, n)" using lfu_rep_lookup(2) [OF rep Some] by (simp add: n_def)
  have small: "Suc n < 2 ^ 64" using r bnd by (auto dest!: map_of_SomeD)
  have "fe_freq e + 1 = of_nat (Suc n)" by (simp add: n_def)
  then have f: "unat (fe_freq e + 1) = Suc n" using small by (simp only: unat_of_nat) simp
  let ?r = "AList.delete k r"
  from lfu_touch_eq [OF lfu_repD(1) [OF rep] Some] obtain s' where s': "lfu_touch k s = Some s'"
    "um_find (lfu_entries s') = (um_find (lfu_entries s))
      (k \<mapsto> e\<lparr>fe_freq := fe_freq e + 1, fe_it := fst (cl_push_front k (taken (lfu_list s) e (fe_freq e + 1)))\<rparr>)"
    "lfu_list s' = pushed k (fe_freq e + 1) (taken (lfu_list s) e)"
    "lfu_min_freq s' = bump (lfu_list s) e (lfu_min_freq s)" by blast
  have inv: "lfu_inv s'" using lfu_touch_inv [OF lfu_repD(2) [OF rep], of k] s'(1) by auto
  have dist: "distinct (map fst ((k, fe_size e, Suc n) # ?r))"
    using lfu_repD(3) [OF rep] by (auto simp: distinct_delete set_delete)
  have ent: "same_entry (map_of ((k, fe_size e, Suc n) # ?r) j) (um_find (lfu_entries s') j)" for j
    using rep by (auto simp: s'(2) lfu_rep_def same_entry_def f)
  have lists: "cl_elems (lfu_list s' g) = level (unat g) ((k, fe_size e, Suc n) # ?r)" for g
  proof -
    have t: "cl_elems (taken (lfu_list s) e g) = level (unat g) ?r"
      using taken_elems [OF lfu_repD(1) [OF rep] Some] lfu_repD(4) [OF rep] by (simp add: level_delete)
    show ?thesis
    proof (cases "g = fe_freq e + 1")
      case True
      with t f show ?thesis by (simp add: s'(3) pushed_def cl_push_front_def cl_elems_def level_Cons)
    next
      case False
      then have "unat g \<noteq> Suc n" using f by (metis word_unat_eq_iff)
      with False t show ?thesis by (simp add: s'(3) pushed_def level_Cons)
    qed
  qed
  have mf: "unat (lfu_min_freq s') \<le> m" if "(j, z, m) \<in> set ((k, fe_size e, Suc n) # ?r)" for j z m
  proof (cases "j = k")
    case True
    with that have "m = Suc n" by (auto simp: set_delete)
    moreover have "unat (lfu_min_freq s) \<le> n"
      using lfu_repD(5) [OF rep] r by (auto dest!: map_of_SomeD)
    moreover have "fe_freq e = lfu_min_freq s \<Longrightarrow> unat (lfu_min_freq s + 1) = Suc n" using f by simp
    ultimately show ?thesis by (auto simp: s'(4) bump_def)
  next
    case False
    with that have "(j, z, m) \<in> set ?r" by simp
    from bump_le [OF rep Some this] small show ?thesis by (simp add: n_def s'(4))
  qed
  have pos: "\<forall>x\<in>set ((k, fe_size e, Suc n) # ?r). 0 < snd (snd x)"
    using lfu_repD(6) [OF rep] by (auto simp: set_delete)
  have "lfu_rep s' ((k, fe_size e, Suc n) # ?r)"
    using inv pos dist ent lists mf unfolding lfu_rep_def by blast
  with s'(1) r show ?thesis by (simp add: fq_touch_def)
qed

lemma lfu_add_rep:
  assumes rep: "lfu_rep s r"
  shows "\<exists>s'. lfu_add k z s = Some s' \<and> lfu_rep s' (fq_add k z r)"
proof (cases "um_find (lfu_entries s) k")
  case None
  then have k: "map_of r k = None" using lfu_rep_lookup(1) [OF rep] by simp
  from lfu_add_new [OF None, of z] obtain s' where s': "lfu_add k z s = Some s'"
    "um_find (lfu_entries s') = (um_find (lfu_entries s))
      (k \<mapsto> \<lparr>fe_size = z, fe_freq = 1, fe_it = fst (cl_push_front k (lfu_list s 1))\<rparr>)"
    "lfu_list s' = pushed k 1 (lfu_list s)" "lfu_min_freq s' = 1" by blast
  have inv: "lfu_inv s'" using lfu_add_inv [OF lfu_repD(2) [OF rep], of k z] s'(1) by auto
  have dist: "distinct (map fst ((k, z, 1) # r))"
    using lfu_repD(3) [OF rep] k by (simp add: map_of_eq_None_iff)
  have ent: "same_entry (map_of ((k, z, 1) # r) j) (um_find (lfu_entries s') j)" for j
    using rep by (auto simp: s'(2) lfu_rep_def same_entry_def)
  have lists: "cl_elems (lfu_list s' g) = level (unat g) ((k, z, 1) # r)" for g
  proof (cases "g = 1")
    case True
    with lfu_repD(4) [OF rep, of 1] show ?thesis
      by (simp add: s'(3) pushed_def cl_push_front_def cl_elems_def level_Cons)
  next
    case False
    then have "unat g \<noteq> 1" by (metis unat_1 word_unat_eq_iff)
    with False lfu_repD(4) [OF rep, of g] show ?thesis by (simp add: s'(3) pushed_def level_Cons)
  qed
  have mf: "unat (lfu_min_freq s') \<le> m" if "(j, y, m) \<in> set ((k, z, 1) # r)" for j y m
  proof -
    have "0 < m" using that lfu_repD(6) [OF rep] by auto
    then show ?thesis by (simp add: s'(4))
  qed
  have pos: "\<forall>x\<in>set ((k, z, 1) # r). 0 < snd (snd x)" using lfu_repD(6) [OF rep] by auto
  have "lfu_rep s' ((k, z, 1) # r)"
    using inv pos dist ent lists mf unfolding lfu_rep_def by blast
  with s'(1) k show ?thesis by (simp add: fq_add_def)
next
  case (Some e)
  define n where "n = unat (fe_freq e)"
  have r: "map_of r k = Some (fe_size e, n)" using lfu_rep_lookup(2) [OF rep Some] by (simp add: n_def)
  let ?r = "map (\<lambda>(j, v). (j, if j = k then (z, n) else v)) r"
  from lfu_add_old [OF Some, of z] obtain s' where s': "lfu_add k z s = Some s'"
    "um_find (lfu_entries s') = (um_find (lfu_entries s))(k \<mapsto> e\<lparr>fe_size := z\<rparr>)"
    "lfu_list s' = lfu_list s" "lfu_min_freq s' = lfu_min_freq s" by blast
  have inv: "lfu_inv s'" using lfu_add_inv [OF lfu_repD(2) [OF rep], of k z] s'(1) by auto
  have keys: "map fst ?r = map fst r" by (simp add: comp_def case_prod_unfold)
  have look: "map_of ?r j = (if j = k then Some (z, n) else map_of r j)" for j
  proof -
    have "map_of (map (\<lambda>(j, v). (j, if j = k then (z, n) else v)) q) j =
      map_option (\<lambda>v. if j = k then (z, n) else v) (map_of q j)" for q :: frequency
      by (induction q) auto
    with r show ?thesis by (simp add: option.map_ident)
  qed
  have ent: "same_entry (map_of ?r j) (um_find (lfu_entries s') j)" for j
    unfolding look using rep by (auto simp: s'(2) lfu_rep_def same_entry_def n_def)
  have lists: "cl_elems (lfu_list s' g) = level (unat g) ?r" for g
    using lfu_repD(4) [OF rep] level_resize [OF lfu_repD(3) [OF rep] r] by (simp add: s'(3))
  have mf: "unat (lfu_min_freq s') \<le> m" if "(j, y, m) \<in> set ?r" for j y m
    using that lfu_repD(5) [OF rep] r by (force simp: s'(4) dest!: map_of_SomeD split: if_splits)
  have pos: "\<forall>x\<in>set ?r. 0 < snd (snd x)"
  proof -
    have "0 < n" using lfu_repD(6) [OF rep] map_of_SomeD [OF r] by auto
    then show ?thesis using lfu_repD(6) [OF rep] by auto
  qed
  have "lfu_rep s' ?r"
    using inv pos lfu_repD(3) [OF rep] ent lists mf unfolding lfu_rep_def keys by blast
  with s'(1) r show ?thesis by (simp add: fq_add_def)
qed

lemma least_count_le: "(k, z, n) \<in> set r \<Longrightarrow> least_count r \<le> n"
  by (force simp: least_count_def intro: Min_le)

lemma least_count_eq:
  assumes "(k, z, n) \<in> set r" and "\<And>j y m. (j, y, m) \<in> set r \<Longrightarrow> n \<le> m"
  shows "least_count r = n"
  unfolding least_count_def by (rule Min_eqI) (use assms in force)+

lemma lfu_evict_rep:
  assumes rep: "lfu_rep s r" and ne: "r \<noteq> []"
  shows "\<exists>s'. lfu_evict s = Some (fq_victim r, s') \<and> lfu_rep s' (AList.delete (fq_victim r) r)"
proof -
  have "map_of r (fst (hd r)) \<noteq> None" using ne by (cases r) auto
  then have "um_find (lfu_entries s) (fst (hd r)) \<noteq> None" using lfu_rep_lookup(1) [OF rep] by simp
  then have "lfu_entries s \<noteq> []" by auto
  from lfu_evict_eq [OF lfu_repD(1) [OF rep] this] obtain k e s' where
    ev: "lfu_evict s = Some (k, s')" and e: "um_find (lfu_entries s) k = Some e"
    and nonempty: "nodes (lfu_list s (fe_freq e)) \<noteq> []"
    and last: "last (nodes (lfu_list s (fe_freq e))) = (fe_it e, k)"
    and low: "\<And>h. unat (h - lfu_min_freq s) < unat (fe_freq e - lfu_min_freq s) \<Longrightarrow> nodes (lfu_list s h) = []"
    and s': "um_find (lfu_entries s') = (um_find (lfu_entries s))(k := None)"
    "lfu_list s' = taken (lfu_list s) e" "lfu_min_freq s' = fe_freq e"
    "lfu_memory_used s' = lfu_memory_used s - charge k (fe_size e)" by blast
  have r: "map_of r k = Some (fe_size e, unat (fe_freq e))" by (rule lfu_rep_lookup(2) [OF rep e])
  have least: "unat (fe_freq e) \<le> m" if x: "(j, y, m) \<in> set r" for j y m
  proof (rule ccontr)
    assume "\<not> unat (fe_freq e) \<le> m"
    moreover have "map_of r j = Some (y, m)" using x lfu_repD(3) [OF rep] by simp
    then obtain e' where e': "um_find (lfu_entries s) j = Some e'" "unat (fe_freq e') = m"
      using lfu_rep_lookup [OF rep, of j] by (cases "um_find (lfu_entries s) j") auto
    moreover have "unat (lfu_min_freq s) \<le> m" by (rule lfu_repD(5) [OF rep x])
    moreover have "unat (lfu_min_freq s) \<le> unat (fe_freq e)"
      using lfu_repD(5) [OF rep] r by (auto dest!: map_of_SomeD)
    ultimately have "unat (fe_freq e' - lfu_min_freq s) < unat (fe_freq e - lfu_min_freq s)"
      by (simp add: unat_sub word_le_nat_alt)
    with low [of "fe_freq e'"] entry_list_not_empty [OF lfu_repD(1) [OF rep] e'(1)] show False by simp
  qed
  have lc: "least_count r = unat (fe_freq e)"
    using least_count_eq [OF map_of_SomeD [OF r]] least by blast
  have "cl_elems (lfu_list s (fe_freq e)) = level (least_count r) r" using lfu_repD(4) [OF rep] lc by simp
  then have "fq_victim r = last (cl_elems (lfu_list s (fe_freq e)))" by (simp add: fq_victim_def)
  also have "\<dots> = k" using last nonempty by (simp add: cl_elems_def last_map)
  finally have v: "fq_victim r = k" .
  have "lfu_rep s' (AList.delete k r)"
    by (rule lfu_drop_rep [OF rep e s'(1,2,4)]) (use least s'(3) in \<open>auto simp: set_delete\<close>)
  with ev v show ?thesis by simp
qed

section \<open>Histories\<close>

lemma fq_step_counts:
  assumes "\<forall>(k, z, n)\<in>set r. n \<le> m"
  shows "\<forall>(k, z, n)\<in>set (fq_step a r). n \<le> Suc m"
proof (cases a)
  case (Touch k)
  with assms show ?thesis
    by (fastforce simp: fq_touch_def set_delete dest: map_of_SomeD split: option.splits)
next
  case (Add k z)
  with assms show ?thesis
    by (fastforce simp: fq_add_def dest: map_of_SomeD split: option.splits if_splits)
next
  case (Remove k)
  with assms show ?thesis by (fastforce simp: set_delete)
next
  case Evict
  have "set (fq_step a r) \<subseteq> set r" by (auto simp: Evict set_delete)
  with assms show ?thesis by fastforce
qed

lemma fq_run_counts: "\<forall>(k, z, n)\<in>set (fq_run past). n \<le> length past"
  by (induction past) (simp, use fq_step_counts in force)

lemma lfu_step_rep:
  assumes rep: "lfu_rep s r" and bnd: "\<forall>(k, z, n)\<in>set r. Suc n < 2 ^ 64"
  shows "\<exists>s'. policy_step lfu_policy a s = Some s' \<and> lfu_rep s' (fq_step a r)"
proof (cases a)
  case Evict
  show ?thesis
  proof (cases "r = []")
    case True
    then have "lfu_resident s = Map.empty" using lfu_rep_resident [OF rep] by auto
    then have "lfu_evict s = Some ([], s)" by (simp add: lfu_evict_def resident_empty_iff del: resident_entries)
    with True Evict rep show ?thesis by (simp add: lfu_policy_def)
  next
    case False
    from lfu_evict_rep [OF rep False] False Evict show ?thesis by (auto simp: lfu_policy_def)
  qed
qed (use lfu_touch_rep [OF rep bnd] lfu_add_rep [OF rep] lfu_remove_rep [OF rep bnd]
      in \<open>auto simp: lfu_policy_def\<close>)

lemma lfu_run_rep:
  "length past < 2 ^ 64 \<Longrightarrow> \<exists>s. policy_run lfu_policy lfu_init past = Some s \<and> lfu_rep s (fq_run past)"
proof (induction past)
  case Nil
  show ?case
    using lfu_inv_init by (simp add: lfu_rep_def lfu_init_def same_entry_def level_def bucket_def cl_elems_def)
next
  case (Cons a past)
  then obtain s where s: "policy_run lfu_policy lfu_init past = Some s" "lfu_rep s (fq_run past)" by auto
  have "\<forall>(k, z, n)\<in>set (fq_run past). Suc n < 2 ^ 64"
    using fq_run_counts [of past] Cons.prems by fastforce
  from lfu_step_rep [OF s(2) this, of a] s(1) show ?case by simp
qed

section \<open>Properties\<close>

text \<open>
  C29: Class \<^verbatim>\<open>LFU\<close> implements its specification: along every history of fewer than \<open>2\<^sup>6\<^sup>4\<close>
  operations no iterator dangles and every operation returns, the resident keys and sizes are those of the frequency
  list, the byte counter is their sum, and \<^verbatim>\<open>evict\<close> returns the key that first reached the smallest use count.
\<close>

theorem lfu_refines_frequency_list:
  assumes "length past < 2 ^ 64"
  shows "\<exists>s. policy_run lfu_policy lfu_init past = Some s \<and>
    lfu_resident s = (\<lambda>k. map_option fst (map_of (fq_run past) k)) \<and>
    lfu_memory_used s = footprint (lfu_resident s) \<and>
    (fq_run past \<noteq> [] \<longrightarrow> (\<exists>s'. lfu_evict s = Some (fq_victim (fq_run past), s')))"
proof -
  from lfu_run_rep [OF assms] obtain s where
    s: "policy_run lfu_policy lfu_init past = Some s" "lfu_rep s (fq_run past)" by blast
  then have "lfu_memory_used s = footprint (lfu_resident s)" using lfu_repD(2) [OF s(2)] by (simp only: lfu_inv_def)
  with s lfu_rep_resident [OF s(2)] lfu_evict_rep [OF s(2)] show ?thesis by blast
qed

lemma lfu_refines_frequency_list_witness:
  "\<exists>s s'. policy_run lfu_policy lfu_init [Touch ''b'', Add ''c'' 3, Add ''b'' 2, Add ''a'' 1] = Some s \<and>
     lfu_evict s = Some (''a'', s')"
proof -
  have run: "fq_run [Touch ''b'', Add ''c'' 3, Add ''b'' 2, Add ''a'' 1] =
    [(''b'', 2, 2), (''c'', 3, 1), (''a'', 1, 1)]"
    by (simp add: fq_touch_def fq_add_def AList.delete_eq)
  have "fq_victim [(''b'', 2, 2), (''c'', 3, 1), (''a'', 1, 1)] = ''a''"
    by (simp add: fq_victim_def least_count_def level_def)
  with run lfu_refines_frequency_list [of "[Touch ''b'', Add ''c'' 3, Add ''b'' 2, Add ''a'' 1]"]
  show ?thesis by auto
qed

text \<open>
  Over any history at all, even where a frequency wraps, class \<^verbatim>\<open>LFU\<close> has no undefined behaviour, the loop
  of \<^verbatim>\<open>evict\<close> that skips empty lists returns, and draining the policy returns each
  resident key once and brings the byte counter back to zero.
\<close>

theorem lfu_drain_returns_every_key:
  "\<exists>s ks s'. policy_run lfu_policy lfu_init past = Some s \<and>
     drain lfu_policy (card (dom (lfu_resident s))) s = Some (ks, s') \<and> distinct ks \<and>
     set ks = dom (lfu_resident s) \<and> lfu_resident s' = Map.empty \<and> lfu_memory_used s' = 0"
proof -
  from lfu.run_total [of past] obtain s where
    s: "policy_run lfu_policy lfu_init past = Some s" "lfu_inv s" by blast
  from lfu.drain_all [OF s(2) refl] s(1) show ?thesis by (auto simp: lfu_policy_def simp del: resident_entries)
qed

end
