(* ===== verification/Sieve.thy ===== *)
theory Sieve
  imports Policy
begin

text \<open>
  \<^verbatim>\<open>class SIEVE\<close> (\<^verbatim>\<open>src/src/eviction/sieve.h\<close>, \<^verbatim>\<open>sieve.cpp\<close>): a doubly linked list built with \<^verbatim>\<open>new\<close> and
  \<^verbatim>\<open>delete\<close>, an index of raw pointers into it and the hand. The heap of nodes is explicit: a pointer is
  an address or null, a read through null or a freed node is undefined behaviour (\<open>None\<close>), and a node
  that is never freed stays in the heap. The two loops over the list follow pointers and are partial
  functions; that they return is proved.
\<close>

section \<open>State and operations\<close>

type_synonym ptr = "nat option"

record sieve_node =
  sn_key :: string
  sn_value :: size_t
  sn_visited :: bool
  sn_prev :: ptr
  sn_next :: ptr

record sieve =
  sv_heap :: "nat \<rightharpoonup> sieve_node"
  sv_fresh :: nat
  sv_head :: ptr
  sv_tail :: ptr
  sv_hand :: ptr
  sv_index :: "(string, nat) umap"
  sv_memory_used :: size_t

definition sieve_init :: sieve where
  "sieve_init = \<lparr>sv_heap = Map.empty, sv_fresh = 0, sv_head = None, sv_tail = None,
                 sv_hand = None, sv_index = [], sv_memory_used = 0\<rparr>"

definition deref :: "nat \<Rightarrow> sieve \<Rightarrow> sieve_node option" where
  "deref n s = sv_heap s n"

definition assign :: "nat \<Rightarrow> sieve_node \<Rightarrow> sieve \<Rightarrow> sieve" where
  "assign n nd s = s\<lparr>sv_heap := (sv_heap s)(n \<mapsto> nd)\<rparr>"

definition free :: "nat \<Rightarrow> sieve \<Rightarrow> sieve option" where
  "free n s = (case deref n s of None \<Rightarrow> None
     | Some _ \<Rightarrow> Some (s\<lparr>sv_heap := (sv_heap s)(n := None)\<rparr>))"

definition sieve_touch :: "string \<Rightarrow> sieve \<Rightarrow> sieve option" where
  "sieve_touch key s = (case um_find (sv_index s) key of
     None \<Rightarrow> Some s
   | Some n \<Rightarrow> do {
       nd \<leftarrow> deref n s;
       Some (assign n (nd\<lparr>sn_visited := True\<rparr>) s) })"

definition sieve_add :: "string \<Rightarrow> size_t \<Rightarrow> sieve \<Rightarrow> sieve option" where
  "sieve_add key sz s = (case um_find (sv_index s) key of
     Some n \<Rightarrow> do {
       nd \<leftarrow> deref n s;
       let mem = sv_memory_used s - (size_of (sn_key nd) + sn_value nd);
       let s = assign n (nd\<lparr>sn_value := sz\<rparr>) s;
       Some (s\<lparr>sv_memory_used := mem + (size_of key + sz)\<rparr>) }
   | None \<Rightarrow> do {
       let n = sv_fresh s;
       let s = assign n \<lparr>sn_key = key, sn_value = sz, sn_visited = False,
                         sn_prev = None, sn_next = sv_head s\<rparr> (s\<lparr>sv_fresh := Suc n\<rparr>);
       s \<leftarrow> (case sv_head s of None \<Rightarrow> Some s
            | Some h \<Rightarrow> do { hd \<leftarrow> deref h s; Some (assign h (hd\<lparr>sn_prev := Some n\<rparr>) s) });
       let s = s\<lparr>sv_head := Some n\<rparr>;
       let s = (if sv_tail s = None then s\<lparr>sv_tail := Some n\<rparr> else s);
       Some (s\<lparr>sv_index := um_emplace key n (sv_index s),
               sv_memory_used := sv_memory_used s + (size_of key + sz)\<rparr>) })"

text \<open>The pointer surgery \<^verbatim>\<open>remove\<close> and \<^verbatim>\<open>evict\<close> share.\<close>

definition sieve_unlink :: "nat \<Rightarrow> sieve \<Rightarrow> sieve option" where
  "sieve_unlink n s = do {
     nd \<leftarrow> deref n s;
     s \<leftarrow> (case sn_prev nd of
          Some p \<Rightarrow> do { pd \<leftarrow> deref p s; Some (assign p (pd\<lparr>sn_next := sn_next nd\<rparr>) s) }
        | None \<Rightarrow> Some (s\<lparr>sv_head := sn_next nd\<rparr>));
     nd \<leftarrow> deref n s;
     case sn_next nd of
       Some q \<Rightarrow> do { qd \<leftarrow> deref q s; Some (assign q (qd\<lparr>sn_prev := sn_prev nd\<rparr>) s) }
     | None \<Rightarrow> Some (s\<lparr>sv_tail := sn_prev nd\<rparr>) }"

definition sieve_remove :: "string \<Rightarrow> sieve \<Rightarrow> sieve option" where
  "sieve_remove key s = (case um_find (sv_index s) key of
     None \<Rightarrow> Some s
   | Some n \<Rightarrow> do {
       let s = s\<lparr>sv_index := um_erase key (sv_index s)\<rparr>;
       nd \<leftarrow> deref n s;
       let s = s\<lparr>sv_memory_used := sv_memory_used s - (size_of (sn_key nd) + sn_value nd)\<rparr>;
       s \<leftarrow> sieve_unlink n s;
       nd \<leftarrow> deref n s;
       let s = (if sv_hand s = Some n then s\<lparr>sv_hand := sn_prev nd\<rparr> else s);
       free n s })"

text \<open>\<^verbatim>\<open>while (victim && victim->visited) { victim->visited = false; victim = victim->prev; }\<close>\<close>

partial_function (option) sieve_scan :: "ptr \<Rightarrow> sieve \<Rightarrow> (ptr \<times> sieve) option" where
  "sieve_scan victim s = (case victim of
     None \<Rightarrow> Some (None, s)
   | Some n \<Rightarrow> Option.bind (deref n s) (\<lambda>nd.
       if sn_visited nd
       then sieve_scan (sn_prev nd) (assign n (nd\<lparr>sn_visited := False\<rparr>) s)
       else Some (Some n, s)))"

definition sieve_evict :: "sieve \<Rightarrow> (string \<times> sieve) option" where
  "sieve_evict s = (case sv_tail s of
     None \<Rightarrow> Some ([], s)
   | Some t \<Rightarrow> do {
       (victim, s) \<leftarrow> sieve_scan (case sv_hand s of None \<Rightarrow> Some t | Some h \<Rightarrow> Some h) s;
       n \<leftarrow> (case victim of None \<Rightarrow> sv_tail s | Some n \<Rightarrow> Some n);
       nd \<leftarrow> deref n s;
       let s = s\<lparr>sv_hand := sn_prev nd\<rparr>;
       let key = sn_key nd;
       let s = s\<lparr>sv_memory_used := sv_memory_used s - (size_of key + sn_value nd),
                 sv_index := um_erase key (sv_index s)\<rparr>;
       s \<leftarrow> sieve_unlink n s;
       s \<leftarrow> free n s;
       Some (key, s) })"

text \<open>The destructor.\<close>

partial_function (option) sieve_free_all :: "ptr \<Rightarrow> sieve \<Rightarrow> sieve option" where
  "sieve_free_all n s = (case n of
     None \<Rightarrow> Some s
   | Some a \<Rightarrow> Option.bind (deref a s) (\<lambda>nd. Option.bind (free a s) (sieve_free_all (sn_next nd))))"

definition sieve_destroy :: "sieve \<Rightarrow> sieve option" where
  "sieve_destroy s = sieve_free_all (sv_head s) s"

definition sieve_policy :: "sieve policy" where
  "sieve_policy = \<lparr>p_touch = sieve_touch, p_add = sieve_add, p_remove = sieve_remove,
                   p_evict = sieve_evict, p_memory_used = sv_memory_used\<rparr>"

section \<open>Linked lists in the heap\<close>

text \<open>
  Lists of addresses are written from the tail (the oldest node) to the head: the successor is reached by
  \<^verbatim>\<open>prev\<close>, the predecessor by \<^verbatim>\<open>next\<close>.
\<close>

definition first :: "nat list \<Rightarrow> ptr \<Rightarrow> ptr" where
  "first ns q = (case ns of [] \<Rightarrow> q | n # _ \<Rightarrow> Some n)"

definition final :: "ptr \<Rightarrow> nat list \<Rightarrow> ptr" where
  "final p ns = (if ns = [] then p else Some (last ns))"

fun dll :: "(nat \<rightharpoonup> sieve_node) \<Rightarrow> ptr \<Rightarrow> nat list \<Rightarrow> ptr \<Rightarrow> bool" where
  "dll h p [] q = True"
| "dll h p (n # ns) q = (case h n of None \<Rightarrow> False
     | Some nd \<Rightarrow> sn_next nd = p \<and> sn_prev nd = first ns q \<and> dll h (Some n) ns q)"

lemma first_simps [simp]: "first [] q = q" "first (n # ns) q = Some n"
  "first (xs @ ys) q = first xs (first ys q)"
  by (cases xs; simp add: first_def)+

lemma final_simps [simp]: "final p [] = p" "final p (n # ns) = final (Some n) ns"
  "final p (xs @ ys) = final (final p xs) ys"
  by (simp_all add: final_def)

lemma dll_append [simp]: "dll h p (xs @ ys) q \<longleftrightarrow> dll h p xs (first ys q) \<and> dll h (final p xs) ys q"
  by (induction xs arbitrary: p) (auto split: option.splits)

lemma dll_frame [simp]: "n \<notin> set ns \<Longrightarrow> dll (h(n := x)) p ns q = dll h p ns q"
  by (induction ns arbitrary: p) (auto split: option.splits)

lemma dll_update:
  "h n = Some nd \<Longrightarrow> sn_prev nd' = sn_prev nd \<Longrightarrow> sn_next nd' = sn_next nd \<Longrightarrow>
     dll (h(n \<mapsto> nd')) p ns q = dll h p ns q"
  by (induction ns arbitrary: p) (auto split: option.splits)

lemma dll_dom: "dll h p ns q \<Longrightarrow> set ns \<subseteq> dom h"
  by (induction ns arbitrary: p) (auto split: option.splits)

section \<open>The invariant\<close>

definition info :: "(nat \<rightharpoonup> sieve_node) \<Rightarrow> nat \<Rightarrow> string \<times> size_t \<times> bool" where
  "info h n = (sn_key (the (h n)), sn_value (the (h n)), sn_visited (the (h n)))"

text \<open>The heap is the list \<open>ns\<close> and nothing else: no leaked node.\<close>

definition shape :: "sieve \<Rightarrow> nat list \<Rightarrow> bool" where
  "shape s ns \<longleftrightarrow> distinct ns \<and> dll (sv_heap s) None ns None \<and> dom (sv_heap s) = set ns \<and>
     (\<forall>n\<in>set ns. n < sv_fresh s) \<and> sv_head s = final None ns \<and> sv_tail s = first ns None"

definition indexed :: "(string \<rightharpoonup> nat) \<Rightarrow> (nat \<Rightarrow> string \<times> size_t \<times> bool) \<Rightarrow> nat list \<Rightarrow> bool" where
  "indexed idx f ns \<longleftrightarrow> (\<forall>k n. idx k = Some n \<longleftrightarrow> n \<in> set ns \<and> fst (f n) = k)"

definition sieve_resident :: "sieve \<Rightarrow> string \<rightharpoonup> size_t" where
  "sieve_resident s k = map_option (\<lambda>n. fst (snd (info (sv_heap s) n))) (um_find (sv_index s) k)"

text \<open>The hand splits the list: \<open>ps\<close> are older than it, \<open>as\<close> starts with it (null: at the tail).\<close>

definition hand_at :: "ptr \<Rightarrow> nat list \<Rightarrow> nat list \<Rightarrow> bool" where
  "hand_at h ps as \<longleftrightarrow> h = None \<and> ps = [] \<or> as \<noteq> [] \<and> h = first as None"

definition sieve_ok :: "sieve \<Rightarrow> nat list \<Rightarrow> nat list \<Rightarrow> bool" where
  "sieve_ok s ps as \<longleftrightarrow> shape s (ps @ as) \<and> hand_at (sv_hand s) ps as \<and>
     indexed (um_find (sv_index s)) (info (sv_heap s)) (ps @ as) \<and>
     sv_memory_used s = footprint (sieve_resident s)"

definition sieve_inv :: "sieve \<Rightarrow> bool" where
  "sieve_inv s \<longleftrightarrow> (\<exists>ps as. sieve_ok s ps as)"

lemma shape_node:
  assumes "shape s (xs @ n # ys)"
  obtains nd where "sv_heap s n = Some nd" and "sn_next nd = final None xs" and "sn_prev nd = first ys None"
  using assms by (auto simp: shape_def split: option.splits)

lemma shape_deref: "shape s ns \<Longrightarrow> n \<in> set ns \<Longrightarrow> \<exists>nd. sv_heap s n = Some nd"
  by (auto simp: shape_def)

lemma indexed_sub:
  "indexed idx f (xs @ n # ys) \<Longrightarrow> distinct (xs @ n # ys) \<Longrightarrow>
     indexed (idx(fst (f n) := None)) f (xs @ ys)"
proof -
  assume i: "indexed idx f (xs @ n # ys)" and d: "distinct (xs @ n # ys)"
  have inst: "idx k = Some m \<longleftrightarrow> m \<in> set (xs @ n # ys) \<and> fst (f m) = k" for k m
    using i unfolding indexed_def by blast
  have idx_n: "idx (fst (f n)) = Some n" by (simp add: inst)
  have one: "m = n" if "m \<in> set (xs @ n # ys)" "fst (f m) = fst (f n)" for m
  proof -
    have "idx (fst (f m)) = Some m" by (rule iffD2 [OF inst]) (intro conjI that(1) refl)
    then have "idx (fst (f n)) = Some m" by (simp only: that(2))
    then show ?thesis unfolding idx_n by (simp only: option.inject)
  qed
  show ?thesis
    unfolding indexed_def
  proof (intro allI)
    fix k m
    show "(idx(fst (f n) := None)) k = Some m \<longleftrightarrow> m \<in> set (xs @ ys) \<and> fst (f m) = k"
      using inst [of k m] d one [of m] by auto
  qed
qed

lemma indexed_key: "indexed idx f ns \<Longrightarrow> idx k = Some n \<Longrightarrow> n \<in> set ns \<and> fst (f n) = k"
  by (simp add: indexed_def)

section \<open>Unlinking and freeing a node\<close>

lemma sieve_unlink_shape:
  assumes sh: "shape s (xs @ n # ys)"
  shows "\<exists>h. sieve_unlink n s =
      Some (s\<lparr>sv_heap := h, sv_head := final None (xs @ ys), sv_tail := first (xs @ ys) None\<rparr>) \<and>
    dll h None (xs @ ys) None \<and> dom h = dom (sv_heap s) \<and> h n = sv_heap s n \<and> info h = info (sv_heap s)"
proof -
  have d: "distinct (xs @ n # ys)" and dl: "dll (sv_heap s) None (xs @ n # ys) None"
    and hd: "sv_head s = final None (xs @ n # ys)" and tl: "sv_tail s = first (xs @ n # ys) None"
    using sh by (simp_all add: shape_def)
  obtain nd where nd: "sv_heap s n = Some nd" "sn_next nd = final None xs" "sn_prev nd = first ys None"
    by (rule shape_node [OF sh])
  show ?thesis
  proof (cases ys)
    case Nil
    show ?thesis
    proof (cases xs rule: rev_cases)
      case Nil
      with \<open>ys = []\<close> nd show ?thesis
        by (intro exI [of _ "sv_heap s"]) (simp add: sieve_unlink_def deref_def)
    next
      case (snoc xs' x)
      with dl Nil obtain xd where x: "sv_heap s x = Some xd" "sn_next xd = final None xs'"
        by (auto split: option.splits)
      show ?thesis
        by (rule exI [of _ "(sv_heap s)(x \<mapsto> xd\<lparr>sn_prev := None\<rparr>)"])
          (use snoc Nil nd x d dl tl in \<open>auto simp: sieve_unlink_def deref_def assign_def info_def fun_eq_iff\<close>)
    qed
  next
    case (Cons y ys')
    with dl obtain yd where y: "sv_heap s y = Some yd" "sn_prev yd = first ys' None"
      by (auto split: option.splits)
    show ?thesis
    proof (cases xs rule: rev_cases)
      case Nil
      show ?thesis
        by (rule exI [of _ "(sv_heap s)(y \<mapsto> yd\<lparr>sn_next := None\<rparr>)"])
          (use Nil Cons nd y d dl hd in \<open>auto simp: sieve_unlink_def deref_def assign_def info_def fun_eq_iff\<close>)
    next
      case (snoc xs' x)
      with dl obtain xd where x: "sv_heap s x = Some xd" "sn_next xd = final None xs'"
        by (auto split: option.splits)
      show ?thesis
        by (rule exI [of _ "(sv_heap s)(y \<mapsto> yd\<lparr>sn_next := Some x\<rparr>, x \<mapsto> xd\<lparr>sn_prev := Some y\<rparr>)"])
          (use snoc Cons nd x y d dl hd tl in
            \<open>auto simp: sieve_unlink_def deref_def assign_def info_def fun_eq_iff\<close>)
    qed
  qed
qed

lemma info_other [simp]: "m \<noteq> n \<Longrightarrow> info (h(n := x)) m = info h m"
  by (simp add: info_def)

lemma finite_sieve_resident: "finite (dom (sieve_resident s))"
proof -
  have "dom (sieve_resident s) = dom (um_find (sv_index s))" by (auto simp: sieve_resident_def)
  then show ?thesis by (simp only: um_finite_dom)
qed

lemma sieve_okD:
  assumes "sieve_ok s ps as"
  shows "shape s (ps @ as)" and "hand_at (sv_hand s) ps as"
    and "indexed (um_find (sv_index s)) (info (sv_heap s)) (ps @ as)"
    and "sv_memory_used s = footprint (sieve_resident s)" and "distinct (ps @ as)"
  using assms by (simp_all add: sieve_ok_def shape_def)

text \<open>A state in which one node is gone from the list, the heap, the index and the counter.\<close>

lemma dropped_ok:
  assumes sh: "shape s (xs @ n # ys)" and ix: "indexed (um_find (sv_index s)) (info (sv_heap s)) (xs @ n # ys)"
    and mem: "sv_memory_used s = footprint (sieve_resident s)"
    and nd: "sv_heap s n = Some nd"
    and h: "dll h None (xs @ ys) None" "dom h = dom (sv_heap s)" "info h = info (sv_heap s)"
    and s': "sv_heap s' = h(n := None)" "sv_head s' = final None (xs @ ys)"
      "sv_tail s' = first (xs @ ys) None" "sv_fresh s' = sv_fresh s"
      "um_find (sv_index s') = (um_find (sv_index s))(sn_key nd := None)"
      "sv_memory_used s' = sv_memory_used s - charge (sn_key nd) (sn_value nd)"
    and new: "ps @ as = xs @ ys" and hand: "hand_at (sv_hand s') ps as"
  shows "sieve_ok s' ps as \<and> sieve_resident s' = (sieve_resident s)(sn_key nd := None) \<and>
    (\<forall>m\<in>set (ps @ as). info (sv_heap s') m = info (sv_heap s) m)"
proof -
  have d: "distinct (xs @ n # ys)" using sh by (simp add: shape_def)
  have key: "fst (info (sv_heap s) n) = sn_key nd" using nd by (simp add: info_def)
  have sh': "shape s' (xs @ ys)"
    using sh h s' by (auto simp: shape_def)
  have same: "\<forall>m\<in>set (xs @ ys). info (sv_heap s') m = info (sv_heap s) m"
  proof
    fix m assume "m \<in> set (xs @ ys)"
    with d have "m \<noteq> n" by auto
    then show "info (sv_heap s') m = info (sv_heap s) m" by (simp add: s'(1) h(3))
  qed
  have ix': "indexed (um_find (sv_index s')) (info (sv_heap s)) (xs @ ys)"
    using indexed_sub [OF ix d] by (simp only: s'(5) key)
  then have ix'': "indexed (um_find (sv_index s')) (info (sv_heap s')) (xs @ ys)"
    using same by (auto simp: indexed_def)
  have r: "sieve_resident s' = (sieve_resident s)(sn_key nd := None)"
  proof
    fix j
    show "sieve_resident s' j = ((sieve_resident s)(sn_key nd := None)) j"
    proof (cases "um_find (sv_index s') j")
      case None
      then have "j = sn_key nd \<or> um_find (sv_index s) j = None" by (auto simp: s'(5) split: if_splits)
      with None show ?thesis by (auto simp: sieve_resident_def)
    next
      case (Some m)
      then have "um_find (sv_index s) j = Some m" "j \<noteq> sn_key nd" by (auto simp: s'(5) split: if_splits)
      moreover have "info (sv_heap s') m = info (sv_heap s) m" using indexed_key [OF ix' Some] same by blast
      ultimately show ?thesis using Some by (simp add: sieve_resident_def)
    qed
  qed
  have "um_find (sv_index s) (sn_key nd) = Some n"
    using ix key unfolding indexed_def by (metis in_set_conv_decomp)
  then have "sieve_resident s (sn_key nd) = Some (sn_value nd)"
    using nd by (simp add: sieve_resident_def info_def)
  then have "sv_memory_used s' = footprint (sieve_resident s')"
    using mem s'(6) footprint_del [OF finite_sieve_resident, of s "sn_key nd"] r by simp
  with sh' ix'' hand r same new show ?thesis by (simp add: sieve_ok_def)
qed

section \<open>What the operations do\<close>

definition settle :: "'a list \<Rightarrow> 'a list \<Rightarrow> 'a list \<times> 'a list" where
  "settle p a = (if a = [] then ([], p) else (p, a))"

text \<open>\<open>keeps s s' ns\<close>: the listed nodes hold what they held.\<close>

abbreviation keeps :: "sieve \<Rightarrow> sieve \<Rightarrow> nat list \<Rightarrow> bool" where
  "keeps s s' ns \<equiv> \<forall>m\<in>set ns. info (sv_heap s') m = info (sv_heap s) m"

lemma removeAll_mid: "distinct (xs @ n # ys) \<Longrightarrow> removeAll n (xs @ n # ys) = xs @ ys"
  by simp

lemma sieve_remove_ok:
  assumes ok: "sieve_ok s ps as" and k: "um_find (sv_index s) k = Some n"
  shows "\<exists>s' ps' as'. sieve_remove k s = Some s' \<and> sieve_ok s' ps' as' \<and>
    (ps', as') = settle (removeAll n ps) (removeAll n as) \<and> keeps s s' (ps' @ as') \<and>
    sieve_resident s' = (sieve_resident s)(k := None)"
proof -
  note okD = sieve_okD [OF ok]
  have n: "n \<in> set (ps @ as)" "fst (info (sv_heap s) n) = k" using indexed_key [OF okD(3) k] by auto
  then obtain xs ys where xy: "ps @ as = xs @ n # ys" by (metis in_set_conv_decomp)
  have sh: "shape s (xs @ n # ys)" and d: "distinct (xs @ n # ys)" using okD(1,5) xy by simp_all
  obtain nd where nd: "sv_heap s n = Some nd" "sn_prev nd = first ys None" by (rule shape_node [OF sh])
  have key: "sn_key nd = k" using n(2) nd by (simp add: info_def)
  define s1 where "s1 = s\<lparr>sv_index := um_erase k (sv_index s),
    sv_memory_used := sv_memory_used s - charge k (sn_value nd)\<rparr>"
  have sh1: "shape s1 (xs @ n # ys)" using sh by (simp add: s1_def shape_def)
  from sieve_unlink_shape [OF sh1] obtain h where
    ul: "sieve_unlink n s1 = Some (s1\<lparr>sv_heap := h, sv_head := final None (xs @ ys), sv_tail := first (xs @ ys) None\<rparr>)"
    and h: "dll h None (xs @ ys) None" "dom h = dom (sv_heap s1)" "h n = sv_heap s1 n" "info h = info (sv_heap s1)"
    by blast
  define hand where "hand = (if sv_hand s = Some n then first ys None else sv_hand s)"
  define s' where "s' = s1\<lparr>sv_heap := h(n := None), sv_head := final None (xs @ ys),
    sv_tail := first (xs @ ys) None, sv_hand := hand\<rparr>"
  have rm: "sieve_remove k s = Some s'"
  proof -
    have "sieve_remove k s = do {
       s \<leftarrow> sieve_unlink n s1;
       nd \<leftarrow> deref n s;
       let s = (if sv_hand s = Some n then s\<lparr>sv_hand := sn_prev nd\<rparr> else s);
       free n s }"
      using k nd key by (simp add: sieve_remove_def deref_def s1_def charge_def)
    also have "\<dots> = Some s'"
      unfolding ul using h(3) nd by (simp add: deref_def free_def Let_def s'_def hand_def s1_def)
    finally show ?thesis .
  qed
  obtain ps' as' where split: "(ps', as') = settle (removeAll n ps) (removeAll n as)"
    by (cases "settle (removeAll n ps) (removeAll n as)") simp
  have new: "ps' @ as' = xs @ ys"
  proof -
    have "ps' @ as' = removeAll n ps @ removeAll n as" using split by (auto simp: settle_def split: if_splits)
    also have "\<dots> = removeAll n (ps @ as)" by simp
    finally show ?thesis using removeAll_mid [OF d] xy by simp
  qed
  have hand_ok: "hand_at hand ps' as'"
  proof (cases "sv_hand s = Some n")
    case True
    then obtain as1 where as: "as = n # as1"
      using okD(2) by (cases as) (auto simp: hand_at_def)
    have "ps = xs \<and> as1 = ys"
      using xy as d append_Cons_eq_iff [of n xs ys ps as1] by auto
    with split as okD(5) True show ?thesis
      by (cases ys) (auto simp: hand_at_def hand_def settle_def split: if_splits)
  next
    case False
    with okD(2) split show ?thesis
      by (cases as) (auto simp: hand_at_def hand_def settle_def split: if_splits)
  qed
  have "sieve_ok s' ps' as' \<and> sieve_resident s' = (sieve_resident s)(sn_key nd := None) \<and>
    (\<forall>m\<in>set (ps' @ as'). info (sv_heap s') m = info (sv_heap s) m)"
    by (rule dropped_ok [OF sh okD(3) [unfolded xy] okD(4) nd(1) h(1), where s' = s' and ps = ps' and as = as'])
      (use h hand_ok new key in \<open>simp_all add: s'_def s1_def\<close>)
  with rm split key show ?thesis by blast
qed

text \<open>Writing to the value or the mark of one node.\<close>

lemma updated_shape:
  assumes sh: "shape s ns" and n: "n \<in> set ns" and nd: "sv_heap s n = Some nd"
    and nd': "sn_prev nd' = sn_prev nd" "sn_next nd' = sn_next nd"
  shows "shape (assign n nd' s) ns"
  using sh n dll_update [of "sv_heap s", OF nd nd'] by (auto simp: shape_def assign_def)

lemma info_assign [simp]:
  "info (sv_heap (assign n nd s)) n = (sn_key nd, sn_value nd, sn_visited nd)"
  "m \<noteq> n \<Longrightarrow> info (sv_heap (assign n nd s)) m = info (sv_heap s) m"
  by (simp_all add: assign_def info_def)

lemma assign_sel [simp]:
  "sv_index (assign n nd s) = sv_index s" "sv_hand (assign n nd s) = sv_hand s"
  "sv_memory_used (assign n nd s) = sv_memory_used s" "sv_fresh (assign n nd s) = sv_fresh s"
  "sv_head (assign n nd s) = sv_head s" "sv_tail (assign n nd s) = sv_tail s"
  "sv_heap (assign n nd s) = (sv_heap s)(n \<mapsto> nd)"
  by (simp_all add: assign_def)

lemma indexed_cong:
  "(\<And>n. n \<in> set ns \<Longrightarrow> fst (g n) = fst (f n)) \<Longrightarrow> indexed idx f ns \<Longrightarrow> indexed idx g ns"
  by (auto simp: indexed_def)

lemma updated_indexed:
  assumes "indexed idx (info (sv_heap s)) ns" and "sv_heap s n = Some nd" and "sn_key nd' = sn_key nd"
  shows "indexed idx (info ((sv_heap s)(n \<mapsto> nd'))) ns"
  by (rule indexed_cong [OF _ assms(1)]) (use assms(2,3) in \<open>auto simp: info_def\<close>)

lemma sieve_touch_ok:
  assumes ok: "sieve_ok s ps as" and k: "um_find (sv_index s) k = Some n"
  shows "\<exists>s'. sieve_touch k s = Some s' \<and> sieve_ok s' ps as \<and> n \<in> set (ps @ as) \<and>
    info (sv_heap s') n = (k, fst (snd (info (sv_heap s) n)), True) \<and>
    (\<forall>m. m \<noteq> n \<longrightarrow> info (sv_heap s') m = info (sv_heap s) m \<and>
      (m \<in> set (ps @ as) \<longrightarrow> fst (info (sv_heap s) m) \<noteq> k)) \<and>
    sieve_resident s' = sieve_resident s"
proof -
  note okD = sieve_okD [OF ok]
  have n: "n \<in> set (ps @ as)" "fst (info (sv_heap s) n) = k" using indexed_key [OF okD(3) k] by auto
  obtain nd where nd: "sv_heap s n = Some nd" using shape_deref [OF okD(1) n(1)] by blast
  have key: "sn_key nd = k" using n(2) nd by (simp add: info_def)
  let ?s = "assign n (nd\<lparr>sn_visited := True\<rparr>) s"
  have t: "sieve_touch k s = Some ?s" using k nd by (simp add: sieve_touch_def deref_def)
  have sh: "shape ?s (ps @ as)" by (rule updated_shape [OF okD(1) n(1) nd]) simp_all
  have ix: "indexed (um_find (sv_index ?s)) (info (sv_heap ?s)) (ps @ as)"
    using updated_indexed [OF okD(3) nd, of "nd\<lparr>sn_visited := True\<rparr>"] by simp
  have r: "sieve_resident ?s = sieve_resident s"
  proof
    fix j
    have "fst (snd (info (sv_heap ?s) m)) = fst (snd (info (sv_heap s) m))" for m
      using nd by (cases "m = n") (simp_all add: info_def)
    then show "sieve_resident ?s j = sieve_resident s j" unfolding sieve_resident_def by simp
  qed
  have "sieve_ok ?s ps as" using sh ix okD(2,4) r by (simp add: sieve_ok_def del: assign_sel(7))
  moreover have "fst (info (sv_heap s) m) \<noteq> k" if m: "m \<noteq> n" "m \<in> set (ps @ as)" for m
  proof
    assume "fst (info (sv_heap s) m) = k"
    with okD(3) m(2) have "um_find (sv_index s) k = Some m" unfolding indexed_def by blast
    with k m(1) show False by simp
  qed
  moreover have "info (sv_heap ?s) n = (k, fst (snd (info (sv_heap s) n)), True)"
    using nd key by (simp add: info_def)
  ultimately show ?thesis
    using t n(1) r info_assign(2) [of _ n "nd\<lparr>sn_visited := True\<rparr>" s] by blast
qed

lemma sieve_scan_ok:
  assumes "shape s (ps @ as)" and "V = (\<lambda>n. snd (snd (info (sv_heap s) n)))"
  shows "\<exists>h. sieve_scan (first as None) s = Some (first (dropWhile V as) None, s\<lparr>sv_heap := h\<rparr>) \<and>
    shape (s\<lparr>sv_heap := h\<rparr>) (ps @ as) \<and>
    (\<forall>m. info h m = (if m \<in> set (takeWhile V as)
       then (fst (info (sv_heap s) m), fst (snd (info (sv_heap s) m)), False) else info (sv_heap s) m))"
  using assms
proof (induction as arbitrary: s ps V)
  case Nil
  then show ?case by (intro exI [of _ "sv_heap s"]) (simp add: sieve_scan.simps)
next
  case (Cons a as)
  obtain nd where nd: "sv_heap s a = Some nd" "sn_prev nd = first as None" by (rule shape_node [OF Cons.prems(1)])
  have va: "V a = sn_visited nd" using nd by (simp add: Cons.prems(2) info_def)
  have fa: "a \<notin> set as" using Cons.prems(1) by (simp add: shape_def)
  show ?case
  proof (cases "sn_visited nd")
    case False
    with va nd Cons.prems(1) show ?thesis
      by (intro exI [of _ "sv_heap s"]) (simp add: sieve_scan.simps deref_def)
  next
    case True
    let ?nd = "nd\<lparr>sn_visited := False\<rparr>" let ?s = "assign a ?nd s"
    have sh: "shape ?s ((ps @ [a]) @ as)"
      using updated_shape [OF Cons.prems(1) _ nd(1), of ?nd] by simp
    have V: "snd (snd (info (sv_heap ?s) m)) = V m" if "m \<in> set as" for m
      using that fa Cons.prems(2) by (metis info_assign(2))
    have tw: "takeWhile (\<lambda>n. snd (snd (info (sv_heap ?s) n))) as = takeWhile V as"
      "dropWhile (\<lambda>n. snd (snd (info (sv_heap ?s) n))) as = dropWhile V as"
      using V by (auto intro: takeWhile_cong dropWhile_cong)
    from Cons.IH [OF sh refl] obtain h where h:
      "sieve_scan (first as None) ?s = Some (first (dropWhile V as) None, ?s\<lparr>sv_heap := h\<rparr>)"
      "shape (?s\<lparr>sv_heap := h\<rparr>) (ps @ a # as)"
      "\<forall>m. info h m = (if m \<in> set (takeWhile V as)
       then (fst (info (sv_heap ?s) m), fst (snd (info (sv_heap ?s) m)), False) else info (sv_heap ?s) m)"
      unfolding tw by auto
    have same: "?s\<lparr>sv_heap := h\<rparr> = s\<lparr>sv_heap := h\<rparr>" by (simp add: assign_def)
    have "sieve_scan (Some a) s = sieve_scan (first as None) ?s"
      using nd True by (simp add: sieve_scan.simps [of "Some a"] deref_def)
    moreover have "info h m = (if m \<in> set (takeWhile V (a # as))
       then (fst (info (sv_heap s) m), fst (snd (info (sv_heap s) m)), False) else info (sv_heap s) m)" for m
    proof (cases "m = a")
      case m: True
      have "a \<notin> set (takeWhile V as)" using fa by (auto dest: set_takeWhileD)
      with m h(3) True va nd show ?thesis by (simp add: info_def)
    next
      case False
      with h(3) True va show ?thesis by (simp del: assign_sel(7))
    qed
    ultimately show ?thesis using h(1,2) True va by (intro exI [of _ h]) (simp add: same)
  qed
qed

lemma sieve_add_old:
  assumes ok: "sieve_ok s ps as" and k: "um_find (sv_index s) k = Some n"
  shows "\<exists>s'. sieve_add k z s = Some s' \<and> sieve_ok s' ps as \<and> n \<in> set (ps @ as) \<and>
    info (sv_heap s') n = (k, z, snd (snd (info (sv_heap s) n))) \<and>
    (\<forall>m. m \<noteq> n \<longrightarrow> info (sv_heap s') m = info (sv_heap s) m \<and>
      (m \<in> set (ps @ as) \<longrightarrow> fst (info (sv_heap s) m) \<noteq> k)) \<and>
    sieve_resident s' = (sieve_resident s)(k \<mapsto> z)"
proof -
  note okD = sieve_okD [OF ok]
  have n: "n \<in> set (ps @ as)" "fst (info (sv_heap s) n) = k" using indexed_key [OF okD(3) k] by auto
  obtain nd where nd: "sv_heap s n = Some nd" using shape_deref [OF okD(1) n(1)] by blast
  have key: "sn_key nd = k" using n(2) nd by (simp add: info_def)
  let ?nd = "nd\<lparr>sn_value := z\<rparr>"
  define s' where "s' = (assign n ?nd s)
    \<lparr>sv_memory_used := sv_memory_used s - charge k (sn_value nd) + charge k z\<rparr>"
  have heap: "sv_heap s' = (sv_heap s)(n \<mapsto> ?nd)" and idx: "sv_index s' = sv_index s" by (simp_all add: s'_def)
  have t: "sieve_add k z s = Some s'" using k nd key by (simp add: sieve_add_def deref_def s'_def charge_def)
  have sh: "shape s' (ps @ as)"
    using updated_shape [OF okD(1) n(1) nd, of ?nd] by (simp add: shape_def s'_def)
  have ix: "indexed (um_find (sv_index s')) (info (sv_heap s')) (ps @ as)"
    using updated_indexed [OF okD(3) nd, of ?nd] by (simp add: heap idx)
  have other: "fst (info (sv_heap s) m) \<noteq> k" if m: "m \<noteq> n" "m \<in> set (ps @ as)" for m
  proof
    assume "fst (info (sv_heap s) m) = k"
    with okD(3) m(2) have "um_find (sv_index s) k = Some m" unfolding indexed_def by blast
    with k m(1) show False by simp
  qed
  have in_n: "info (sv_heap s') n = (k, z, snd (snd (info (sv_heap s) n)))"
    using nd key by (simp add: heap info_def)
  have r: "sieve_resident s' = (sieve_resident s)(k \<mapsto> z)"
  proof
    fix j
    show "sieve_resident s' j = ((sieve_resident s)(k \<mapsto> z)) j"
    proof (cases "j = k")
      case True
      with k in_n show ?thesis by (simp add: sieve_resident_def idx)
    next
      case False
      have "m \<noteq> n" if "um_find (sv_index s) j = Some m" for m
        using indexed_key [OF okD(3) that] n(2) False by auto
      with False show ?thesis by (cases "um_find (sv_index s) j") (simp_all add: sieve_resident_def idx heap)
    qed
  qed
  have "sieve_resident s k = Some (sn_value nd)" using k nd by (simp add: sieve_resident_def info_def)
  then have "sv_memory_used s' = footprint (sieve_resident s')"
    using okD(4) footprint_upd [OF finite_sieve_resident, of s k z] r by (simp add: s'_def)
  moreover have "sv_hand s' = sv_hand s" by (simp add: s'_def)
  ultimately have "sieve_ok s' ps as" using sh ix okD(2) by (simp add: sieve_ok_def)
  with t n(1) in_n other r show ?thesis by (intro exI [of _ s']) (simp add: heap)
qed

lemma sieve_add_new:
  assumes ok: "sieve_ok s ps as" and k: "um_find (sv_index s) k = None"
  shows "\<exists>s' n. sieve_add k z s = Some s' \<and> sieve_ok s' ps (as @ [n]) \<and>
    info (sv_heap s') n = (k, z, False) \<and> keeps s s' (ps @ as) \<and>
    sieve_resident s' = (sieve_resident s)(k \<mapsto> z)"
proof -
  note okD = sieve_okD [OF ok]
  let ?ns = "ps @ as" let ?n = "sv_fresh s"
  have fresh: "?n \<notin> set ?ns" using okD(1) by (auto simp: shape_def)
  have head: "sv_head s = final None ?ns" and tail: "sv_tail s = first ?ns None"
    and dl: "dll (sv_heap s) None ?ns None" and dom: "dom (sv_heap s) = set ?ns"
    using okD(1) by (simp_all add: shape_def)
  define new where "new = \<lparr>sn_key = k, sn_value = z, sn_visited = False,
    sn_prev = None, sn_next = sv_head s\<rparr>"
  obtain h where
    mid: "(case sv_head s of None \<Rightarrow> Some (assign ?n new (s\<lparr>sv_fresh := Suc ?n\<rparr>))
       | Some h \<Rightarrow> Option.bind (deref h (assign ?n new (s\<lparr>sv_fresh := Suc ?n\<rparr>)))
           (\<lambda>hd. Some (assign h (hd\<lparr>sn_prev := Some ?n\<rparr>) (assign ?n new (s\<lparr>sv_fresh := Suc ?n\<rparr>))))) =
     Some (s\<lparr>sv_fresh := Suc ?n, sv_heap := h\<rparr>)"
    and h: "dll h None (?ns @ [?n]) None" "dom h = insert ?n (set ?ns)"
      "info h ?n = (k, z, False)" "\<And>m. m \<in> set ?ns \<Longrightarrow> info h m = info (sv_heap s) m"
  proof (cases ?ns rule: rev_cases)
    case Nil
    with dom fresh show ?thesis
      by (intro that [of "(sv_heap s)(?n \<mapsto> new)"]) (simp_all add: assign_def new_def info_def head)
  next
    case (snoc xs x)
    with dl obtain xd where x: "sv_heap s x = Some xd" "sn_next xd = final None xs"
      by (auto split: option.splits)
    have d: "distinct (xs @ [x])" using okD(5) snoc by simp
    have nx: "?n \<noteq> x" "?n \<notin> set xs" using fresh snoc by auto
    let ?h = "(sv_heap s)(?n \<mapsto> new, x \<mapsto> xd\<lparr>sn_prev := Some ?n\<rparr>)"
    show ?thesis
    proof (rule that [of ?h])
      show "info ?h m = info (sv_heap s) m" if "m \<in> set ?ns" for m
        using that fresh x(1) by (auto simp: info_def)
    qed (use snoc x nx d dl dom in \<open>auto simp: assign_def deref_def new_def info_def final_def head\<close>)
  qed
  define s' where "s' = s\<lparr>sv_fresh := Suc ?n, sv_heap := h, sv_head := Some ?n,
    sv_tail := first (?ns @ [?n]) None, sv_index := um_set k ?n (sv_index s),
    sv_memory_used := sv_memory_used s + charge k z\<rparr>"
  have t: "sieve_add k z s = Some s'"
  proof -
    have "sieve_add k z s = do {
       s \<leftarrow> (case sv_head s of None \<Rightarrow> Some (assign ?n new (s\<lparr>sv_fresh := Suc ?n\<rparr>))
         | Some h \<Rightarrow> Option.bind (deref h (assign ?n new (s\<lparr>sv_fresh := Suc ?n\<rparr>)))
             (\<lambda>hd. Some (assign h (hd\<lparr>sn_prev := Some ?n\<rparr>) (assign ?n new (s\<lparr>sv_fresh := Suc ?n\<rparr>)))));
       let s = s\<lparr>sv_head := Some ?n\<rparr>;
       let s = (if sv_tail s = None then s\<lparr>sv_tail := Some ?n\<rparr> else s);
       Some (s\<lparr>sv_index := um_emplace k ?n (sv_index s),
               sv_memory_used := sv_memory_used s + (size_of k + z)\<rparr>) }"
      unfolding sieve_add_def new_def Let_def using k by simp
    moreover have "first (?ns @ [?n]) None = (case sv_tail s of None \<Rightarrow> Some ?n | Some t \<Rightarrow> Some t)"
      unfolding tail by (cases ?ns) (simp_all add: first_def)
    ultimately show ?thesis
      unfolding mid using k by (cases "sv_tail s") (simp_all add: Let_def s'_def charge_def)
  qed
  have sh: "shape s' (?ns @ [?n])"
    using okD(1) h fresh by (auto simp: shape_def s'_def less_Suc_eq)
  have in_ns: "um_find (sv_index s) j = Some m \<Longrightarrow> m \<in> set ?ns" for j m
    using indexed_key [OF okD(3)] by blast
  have ix: "indexed (um_find (sv_index s')) (info h) (?ns @ [?n])"
    unfolding indexed_def
  proof (intro allI)
    fix j m
    have old: "um_find (sv_index s) j = Some m \<longleftrightarrow> m \<in> set ?ns \<and> fst (info (sv_heap s) m) = j"
      using okD(3) unfolding indexed_def by blast
    show "um_find (sv_index s') j = Some m \<longleftrightarrow> m \<in> set (?ns @ [?n]) \<and> fst (info h m) = j"
    proof (cases "m = ?n")
      case True
      with fresh old have "um_find (sv_index s) j \<noteq> Some m" by simp
      with True h(3) show ?thesis by (auto simp: s'_def)
    next
      case False
      have "m \<in> set ?ns \<Longrightarrow> info h m = info (sv_heap s) m" by (rule h(4))
      with False old k show ?thesis by (auto simp: s'_def)
    qed
  qed
  have r: "sieve_resident s' = (sieve_resident s)(k \<mapsto> z)"
  proof
    fix j
    show "sieve_resident s' j = ((sieve_resident s)(k \<mapsto> z)) j"
    proof (cases "j = k")
      case False
      then show ?thesis
        using in_ns h(4) by (cases "um_find (sv_index s) j") (simp_all add: sieve_resident_def s'_def)
    qed (simp add: sieve_resident_def s'_def h(3))
  qed
  have "sieve_resident s k = None" using k by (simp add: sieve_resident_def)
  then have "sv_memory_used s' = footprint (sieve_resident s')"
    using okD(4) footprint_insert [OF finite_sieve_resident, of s k z] r by (simp add: s'_def)
  moreover have "hand_at (sv_hand s') ps (as @ [?n])"
    using okD(2) by (cases as) (auto simp: hand_at_def s'_def)
  ultimately have "sieve_ok s' ps (as @ [?n])" using sh ix by (simp add: sieve_ok_def) (simp add: s'_def)
  with t h(3,4) r show ?thesis by (intro exI [of _ s'] exI [of _ ?n]) (simp add: s'_def)
qed

lemma first_None_iff: "first ns None = None \<longleftrightarrow> ns = []"
  by (simp add: first_def split: list.splits)

lemma sieve_evict_ok:
  assumes ok: "sieve_ok s ps as" and ne: "ps @ as \<noteq> []"
  defines "V \<equiv> \<lambda>n. snd (snd (info (sv_heap s) n))"
  defines "passed \<equiv> ps @ takeWhile V as" and "rest \<equiv> dropWhile V as"
  shows "\<exists>n s' ps' as'. sieve_evict s = Some (fst (info (sv_heap s) n), s') \<and> sieve_ok s' ps' as' \<and>
    n \<in> set (ps @ as) \<and>
    (n, ps', as') = (case rest of x # ys \<Rightarrow> (x, settle passed ys) | [] \<Rightarrow> (hd passed, [], tl passed)) \<and>
    (\<forall>m\<in>set (ps' @ as'). info (sv_heap s') m = (if m \<in> set (takeWhile V as)
       then (fst (info (sv_heap s) m), fst (snd (info (sv_heap s) m)), False) else info (sv_heap s) m)) \<and>
    sieve_resident s' = (sieve_resident s)(fst (info (sv_heap s) n) := None)"
proof -
  note okD = sieve_okD [OF ok]
  have all: "passed @ rest = ps @ as" by (simp add: passed_def rest_def)
  obtain t where tail: "sv_tail s = Some t"
    using okD(1) ne first_None_iff [of "ps @ as"]
    by (cases "sv_tail s") (simp_all add: shape_def del: first_simps(3))
  have start: "(case sv_hand s of None \<Rightarrow> Some t | Some h \<Rightarrow> Some h) = first as None"
  proof (cases "sv_hand s")
    case None
    then have "ps = []" using okD(2) first_None_iff [of as] by (auto simp: hand_at_def)
    with None tail okD(1) show ?thesis by (simp add: shape_def)
  next
    case (Some h)
    have "sv_hand s = first as None" using okD(2) Some by (auto simp: hand_at_def)
    then show ?thesis using Some by (cases "first as None") simp_all
  qed
  from sieve_scan_ok [OF okD(1) V_def [THEN meta_eq_to_obj_eq]] obtain h where
    scan: "sieve_scan (first as None) s = Some (first rest None, s\<lparr>sv_heap := h\<rparr>)"
    and sh0: "shape (s\<lparr>sv_heap := h\<rparr>) (ps @ as)"
    and inf: "\<And>m. info h m = (if m \<in> set (takeWhile V as)
       then (fst (info (sv_heap s) m), fst (snd (info (sv_heap s) m)), False) else info (sv_heap s) m)"
    unfolding rest_def by blast
  obtain xs n ys where xy: "ps @ as = xs @ n # ys"
    and victim: "(case first rest None of None \<Rightarrow> sv_tail (s\<lparr>sv_heap := h\<rparr>) | Some n \<Rightarrow> Some n) = Some n"
    and new: "rest = n # ys \<and> xs = passed \<or> rest = [] \<and> passed = n # ys \<and> xs = []"
  proof (cases rest)
    case (Cons n ys)
    with all that [of passed n ys] show ?thesis by simp
  next
    case Nil
    with all ne obtain n ys where p: "passed = n # ys" by (cases passed) auto
    have "sv_tail s = Some n" using okD(1) all p Nil by (simp add: shape_def flip: all)
    with Nil p all that [of "[]" n ys] show ?thesis by simp
  qed
  define s1 where "s1 = s\<lparr>sv_heap := h\<rparr>"
  have sh1: "shape s1 (xs @ n # ys)" using sh0 xy by (simp add: s1_def)
  have d: "distinct (xs @ n # ys)" using okD(5) xy by simp
  obtain nd where nd: "sv_heap s1 n = Some nd" "sn_prev nd = first ys None" by (rule shape_node [OF sh1])
  have fst_inf: "fst (info h m) = fst (info (sv_heap s) m)"
    and val_inf: "fst (snd (info h m)) = fst (snd (info (sv_heap s) m))" for m
    using inf [of m] by simp_all
  have key: "sn_key nd = fst (info (sv_heap s) n)"
    using nd(1) fst_inf [of n] by (simp add: info_def s1_def)
  have ix1: "indexed (um_find (sv_index s1)) (info (sv_heap s1)) (xs @ n # ys)"
    using okD(3) fst_inf unfolding xy indexed_def by (simp add: s1_def)
  have r1: "sieve_resident s1 = sieve_resident s"
    by (rule ext) (simp add: sieve_resident_def s1_def val_inf)
  have mem1: "sv_memory_used s1 = footprint (sieve_resident s1)" using okD(4) r1 by (simp add: s1_def)
  define s2 where "s2 = s1\<lparr>sv_hand := sn_prev nd,
    sv_memory_used := sv_memory_used s1 - charge (sn_key nd) (sn_value nd),
    sv_index := um_erase (sn_key nd) (sv_index s1)\<rparr>"
  have sh2: "shape s2 (xs @ n # ys)" using sh1 by (simp add: s2_def shape_def)
  from sieve_unlink_shape [OF sh2] obtain h2 where
    ul: "sieve_unlink n s2 = Some (s2\<lparr>sv_heap := h2, sv_head := final None (xs @ ys), sv_tail := first (xs @ ys) None\<rparr>)"
    and h2: "dll h2 None (xs @ ys) None" "dom h2 = dom (sv_heap s2)" "h2 n = sv_heap s2 n" "info h2 = info (sv_heap s2)"
    by blast
  define s' where "s' = s2\<lparr>sv_heap := h2(n := None), sv_head := final None (xs @ ys),
    sv_tail := first (xs @ ys) None\<rparr>"
  have ev: "sieve_evict s = Some (sn_key nd, s')"
  proof -
    have "sieve_evict s = do {
       s \<leftarrow> sieve_unlink n s2;
       s \<leftarrow> free n s;
       Some (sn_key nd, s) }"
      using nd(1) unfolding sieve_evict_def tail option.case start scan
      by (simp add: victim [unfolded option.case] s1_def deref_def s2_def charge_def Let_def)
    also have "\<dots> = Some (sn_key nd, s')"
      unfolding ul using h2(3) nd(1) by (simp add: free_def deref_def s'_def s2_def)
    finally show ?thesis .
  qed
  obtain ps' as' where split:
    "(n, ps', as') = (case rest of x # ys \<Rightarrow> (x, settle passed ys) | [] \<Rightarrow> (hd passed, [], tl passed))"
    using new by (cases "settle passed ys") auto
  have cat: "ps' @ as' = xs @ ys" and hand: "hand_at (first ys None) ps' as'"
    using split new by (auto simp: settle_def hand_at_def first_None_iff split: if_splits)
  have "sieve_ok s' ps' as' \<and> sieve_resident s' = (sieve_resident s1)(sn_key nd := None) \<and>
    (\<forall>m\<in>set (ps' @ as'). info (sv_heap s') m = info (sv_heap s1) m)"
    by (rule dropped_ok [OF sh1 ix1 mem1 nd(1) h2(1), where s' = s' and ps = ps' and as = as'])
      (use h2 hand cat nd(2) in \<open>simp_all add: s'_def s2_def\<close>)
  moreover have "info (sv_heap s1) m = info h m" for m by (simp add: s1_def)
  moreover have "n \<in> set (ps @ as)" unfolding xy by simp
  ultimately show ?thesis
    using ev split inf unfolding key r1 by (intro exI [of _ n] exI [of _ s'] exI [of _ ps'] exI [of _ as']) simp
qed

section \<open>SIEVE implements the interface\<close>

lemma sieve_resident_init: "sieve_resident sieve_init = Map.empty"
  by (rule ext) (simp add: sieve_resident_def sieve_init_def)

lemma sieve_ok_init: "sieve_ok sieve_init [] []"
  by (simp add: sieve_ok_def sieve_resident_init) (simp add: sieve_init_def shape_def hand_at_def indexed_def)

lemma sieve_resident_none: "um_find (sv_index s) k = None \<longleftrightarrow> sieve_resident s k = None"
  by (simp add: sieve_resident_def)

lemma sieve_resident_empty:
  assumes "sieve_ok s ps as"
  shows "sieve_resident s = Map.empty \<longleftrightarrow> ps @ as = []"
proof -
  have "sieve_resident s = Map.empty \<longleftrightarrow> (\<forall>k. um_find (sv_index s) k = None)"
    by (auto simp: sieve_resident_def fun_eq_iff)
  also have "\<dots> \<longleftrightarrow> ps @ as = []"
  proof
    assume none: "\<forall>k. um_find (sv_index s) k = None"
    show "ps @ as = []"
    proof (rule ccontr)
      assume "ps @ as \<noteq> []"
      then have "hd (ps @ as) \<in> set (ps @ as)" by (rule hd_in_set)
      with sieve_okD(3) [OF assms] none show False unfolding indexed_def by fastforce
    qed
  next
    assume "ps @ as = []"
    then show "\<forall>k. um_find (sv_index s) k = None"
      using sieve_okD(3) [OF assms] unfolding indexed_def by (metis empty_iff empty_set not_Some_eq)
  qed
  finally show ?thesis .
qed

interpretation sieve: eviction_policy sieve_policy sieve_init sieve_inv sieve_resident
proof (unfold_locales, goal_cases)
  case 1
  show ?case using sieve_ok_init by (auto simp: sieve_inv_def)
next
  case 2
  show ?case by (rule sieve_resident_init)
next
  case (3 p)
  show ?case by (rule finite_sieve_resident)
next
  case (4 p k)
  then obtain ps as where ok: "sieve_ok p ps as" by (auto simp: sieve_inv_def)
  show ?case
  proof (cases "um_find (sv_index p) k")
    case None
    with 4 show ?thesis by (simp add: sieve_policy_def sieve_touch_def)
  next
    case (Some n)
    from sieve_touch_ok [OF ok Some] show ?thesis by (auto simp: sieve_policy_def sieve_inv_def)
  qed
next
  case (5 p k z)
  then obtain ps as where ok: "sieve_ok p ps as" by (auto simp: sieve_inv_def)
  show ?case
  proof (cases "um_find (sv_index p) k")
    case None
    from sieve_add_new [OF ok None, of z] show ?thesis by (auto simp: sieve_policy_def sieve_inv_def)
  next
    case (Some n)
    from sieve_add_old [OF ok Some, of z] show ?thesis by (auto simp: sieve_policy_def sieve_inv_def)
  qed
next
  case (6 p k)
  then obtain ps as where ok: "sieve_ok p ps as" by (auto simp: sieve_inv_def)
  show ?case
  proof (cases "um_find (sv_index p) k")
    case None
    then have "sieve_resident p k = None" by (simp add: sieve_resident_none)
    with 6 None show ?thesis by (auto simp: sieve_policy_def sieve_remove_def)
  next
    case (Some n)
    from sieve_remove_ok [OF ok Some] show ?thesis by (auto simp: sieve_policy_def sieve_inv_def)
  qed
next
  case (7 p)
  then obtain ps as where ok: "sieve_ok p ps as" by (auto simp: sieve_inv_def)
  with 7 have "ps @ as = []" by (simp add: sieve_resident_empty)
  with ok have "sv_tail p = None" by (simp add: sieve_ok_def shape_def)
  then show ?case by (simp add: sieve_policy_def sieve_evict_def)
next
  case (8 p)
  then obtain ps as where ok: "sieve_ok p ps as" by (auto simp: sieve_inv_def)
  with 8(2) have ne: "ps @ as \<noteq> []" by (simp add: sieve_resident_empty)
  from sieve_evict_ok [OF ok ne] obtain n s' ps' as' where
    "sieve_evict p = Some (fst (info (sv_heap p) n), s')" "sieve_ok s' ps' as'" "n \<in> set (ps @ as)"
    "sieve_resident s' = (sieve_resident p)(fst (info (sv_heap p) n) := None)" by blast
  moreover have "um_find (sv_index p) (fst (info (sv_heap p) n)) = Some n"
    using sieve_okD(3) [OF ok] \<open>n \<in> set (ps @ as)\<close> unfolding indexed_def by blast
  then have "fst (info (sv_heap p) n) \<in> dom (sieve_resident p)" by (simp add: sieve_resident_def dom_def)
  ultimately show ?case unfolding sieve_policy_def sieve_inv_def by auto
next
  case (9 p)
  then show ?case by (auto simp: sieve_policy_def sieve_inv_def sieve_ok_def)
qed

end
