(* ===== verification/SieveSpec.thy ===== *)
theory SieveSpec
  imports Sieve
begin

text \<open>
  What \<^verbatim>\<open>class SIEVE\<close> promises: a queue of keys with their sizes and marks, oldest first, split at the hand.
  A use marks its key, an insertion goes to the young end, and an eviction moves the hand towards
  the young end, clearing marks, until it meets an unmarked key; past the young end it takes the
  oldest key. The class refines this over every history, and its destructor frees every node.
\<close>

section \<open>The queue with a hand\<close>

type_synonym sieve_entry = "string \<times> size_t \<times> bool"

type_synonym sieve_queue = "sieve_entry list \<times> sieve_entry list"

definition sq_mark :: "string \<Rightarrow> sieve_entry \<Rightarrow> sieve_entry" where
  "sq_mark k x = (fst x, fst (snd x), if fst x = k then True else snd (snd x))"

definition sq_resize :: "string \<Rightarrow> size_t \<Rightarrow> sieve_entry \<Rightarrow> sieve_entry" where
  "sq_resize k z x = (fst x, if fst x = k then z else fst (snd x), snd (snd x))"

definition sq_clear :: "sieve_entry \<Rightarrow> sieve_entry" where
  "sq_clear x = (fst x, fst (snd x), False)"

definition sq_marked :: "sieve_entry \<Rightarrow> bool" where
  "sq_marked x = snd (snd x)"

definition sq_all :: "sieve_queue \<Rightarrow> sieve_entry list" where
  "sq_all q = fst q @ snd q"

definition sq_evict :: "sieve_queue \<Rightarrow> string \<times> sieve_queue" where
  "sq_evict q = (let passed = fst q @ map sq_clear (takeWhile sq_marked (snd q))
     in case dropWhile sq_marked (snd q) of
          x # rest \<Rightarrow> (fst x, settle passed rest)
        | [] \<Rightarrow> (fst (hd passed), ([], tl passed)))"

fun sq_step :: "policy_op \<Rightarrow> sieve_queue \<Rightarrow> sieve_queue" where
  "sq_step (Touch k) q = map_prod (map (sq_mark k)) (map (sq_mark k)) q"
| "sq_step (Add k z) q =
     (if k \<in> fst ` set (sq_all q) then map_prod (map (sq_resize k z)) (map (sq_resize k z)) q
      else (fst q, snd q @ [(k, z, False)]))"
| "sq_step (Remove k) q =
     (if k \<in> fst ` set (sq_all q)
      then settle (filter (\<lambda>x. fst x \<noteq> k) (fst q)) (filter (\<lambda>x. fst x \<noteq> k) (snd q)) else q)"
| "sq_step Evict q = (if sq_all q = [] then q else snd (sq_evict q))"

fun sq_run :: "policy_op list \<Rightarrow> sieve_queue" where
  "sq_run [] = ([], [])"
| "sq_run (a # past) = sq_step a (sq_run past)"

section \<open>The representation\<close>

definition sieve_rep :: "sieve \<Rightarrow> sieve_queue \<Rightarrow> bool" where
  "sieve_rep s q \<longleftrightarrow> (\<exists>ps as. sieve_ok s ps as \<and>
     q = (map (info (sv_heap s)) ps, map (info (sv_heap s)) as))"

lemma index_iff:
  assumes "sieve_ok s ps as"
  shows "um_find (sv_index s) k = Some n \<longleftrightarrow> n \<in> set (ps @ as) \<and> fst (info (sv_heap s) n) = k"
  using sieve_okD(3) [OF assms] unfolding indexed_def by blast

lemma index_none:
  assumes "sieve_ok s ps as"
  shows "um_find (sv_index s) k = None \<longleftrightarrow>
    k \<notin> fst ` set (map (info (sv_heap s)) ps @ map (info (sv_heap s)) as)"
proof -
  have "um_find (sv_index s) k = None \<longleftrightarrow> (\<forall>n\<in>set (ps @ as). fst (info (sv_heap s) n) \<noteq> k)"
    using index_iff [OF assms, of k] by (metis not_Some_eq)
  then show ?thesis by (auto simp: image_iff)
qed

lemma sieve_touch_rep:
  assumes rep: "sieve_rep s q"
  shows "\<exists>s'. sieve_touch k s = Some s' \<and> sieve_rep s' (sq_step (Touch k) q)"
proof -
  obtain ps as where ok: "sieve_ok s ps as"
    and q: "q = (map (info (sv_heap s)) ps, map (info (sv_heap s)) as)"
    using rep by (auto simp: sieve_rep_def)
  show ?thesis
  proof (cases "um_find (sv_index s) k")
    case None
    then have "sq_mark k x = x" if "x \<in> set (fst q @ snd q)" for x
      using that index_none [OF ok, of k] by (auto simp: q sq_mark_def)
    then have "sq_step (Touch k) q = q" unfolding q by (auto intro!: map_idI)
    with None rep show ?thesis by (simp add: sieve_touch_def)
  next
    case (Some n)
    from sieve_touch_ok [OF ok Some] obtain s' where s': "sieve_touch k s = Some s'" "sieve_ok s' ps as"
      "info (sv_heap s') n = (k, fst (snd (info (sv_heap s) n)), True)"
      and other: "\<And>m. m \<noteq> n \<Longrightarrow> info (sv_heap s') m = info (sv_heap s) m"
      and keys: "\<And>m. m \<noteq> n \<Longrightarrow> m \<in> set (ps @ as) \<Longrightarrow> fst (info (sv_heap s) m) \<noteq> k" by blast
    have "fst (info (sv_heap s) n) = k" using Some index_iff [OF ok] by blast
    then have "info (sv_heap s') m = sq_mark k (info (sv_heap s) m)" if "m \<in> set (ps @ as)" for m
      using s'(3) other [of m] keys [OF _ that] by (cases "m = n") (simp_all add: sq_mark_def)
    then have "sieve_rep s' (sq_step (Touch k) q)"
      unfolding sieve_rep_def q using s'(2) by (intro exI [of _ ps] exI [of _ as]) simp
    with s'(1) show ?thesis by blast
  qed
qed

lemma sieve_add_rep:
  assumes rep: "sieve_rep s q"
  shows "\<exists>s'. sieve_add k z s = Some s' \<and> sieve_rep s' (sq_step (Add k z) q)"
proof -
  obtain ps as where ok: "sieve_ok s ps as"
    and q: "q = (map (info (sv_heap s)) ps, map (info (sv_heap s)) as)"
    using rep by (auto simp: sieve_rep_def)
  show ?thesis
  proof (cases "um_find (sv_index s) k")
    case None
    then have k: "k \<notin> fst ` set (sq_all q)" using index_none [OF ok] by (simp add: q sq_all_def)
    from sieve_add_new [OF ok None, of z] obtain s' n where s': "sieve_add k z s = Some s'"
      "sieve_ok s' ps (as @ [n])" "info (sv_heap s') n = (k, z, False)" "keeps s s' (ps @ as)" by blast
    then have "sieve_rep s' (sq_step (Add k z) q)"
      unfolding sieve_rep_def using k by (intro exI [of _ ps] exI [of _ "as @ [n]"]) (simp add: q)
    with s'(1) show ?thesis by blast
  next
    case (Some n)
    then have k: "k \<in> fst ` set (sq_all q)" using index_none [OF ok, of k] by (auto simp: q sq_all_def)
    from sieve_add_old [OF ok Some, of z] obtain s' where s': "sieve_add k z s = Some s'" "sieve_ok s' ps as"
      "info (sv_heap s') n = (k, z, snd (snd (info (sv_heap s) n)))"
      and other: "\<And>m. m \<noteq> n \<Longrightarrow> info (sv_heap s') m = info (sv_heap s) m"
      and keys: "\<And>m. m \<noteq> n \<Longrightarrow> m \<in> set (ps @ as) \<Longrightarrow> fst (info (sv_heap s) m) \<noteq> k" by blast
    have "fst (info (sv_heap s) n) = k" using Some index_iff [OF ok] by blast
    then have "info (sv_heap s') m = sq_resize k z (info (sv_heap s) m)" if "m \<in> set (ps @ as)" for m
      using s'(3) other [of m] keys [OF _ that] by (cases "m = n") (simp_all add: sq_resize_def)
    then have "sieve_rep s' (sq_step (Add k z) q)"
      unfolding sieve_rep_def using s'(2) k by (intro exI [of _ ps] exI [of _ as]) (simp add: q)
    with s'(1) show ?thesis by blast
  qed
qed

lemma settle_map: "settle (map f p) (map f a) = map_prod (map f) (map f) (settle p a)"
  by (simp add: settle_def)

lemma sieve_remove_rep:
  assumes rep: "sieve_rep s q"
  shows "\<exists>s'. sieve_remove k s = Some s' \<and> sieve_rep s' (sq_step (Remove k) q)"
proof -
  obtain ps as where ok: "sieve_ok s ps as"
    and q: "q = (map (info (sv_heap s)) ps, map (info (sv_heap s)) as)"
    using rep by (auto simp: sieve_rep_def)
  show ?thesis
  proof (cases "um_find (sv_index s) k")
    case None
    then have "k \<notin> fst ` set (sq_all q)" using index_none [OF ok] by (simp add: q sq_all_def)
    with None rep show ?thesis by (simp add: sieve_remove_def)
  next
    case (Some n)
    then have k: "k \<in> fst ` set (sq_all q)" using index_none [OF ok, of k] by (auto simp: q sq_all_def)
    from sieve_remove_ok [OF ok Some] obtain s' ps' as' where s': "sieve_remove k s = Some s'"
      "sieve_ok s' ps' as'" "(ps', as') = settle (removeAll n ps) (removeAll n as)" "keeps s s' (ps' @ as')" by blast
    let ?f = "info (sv_heap s)"
    have only: "fst (?f m) \<noteq> k \<longleftrightarrow> m \<noteq> n" if "m \<in> set (ps @ as)" for m
      using index_iff [OF ok, of k m] index_iff [OF ok, of k n] Some that by auto
    have flt: "filter (\<lambda>x. fst x \<noteq> k) (map ?f ns) = map ?f (removeAll n ns)" if "set ns \<subseteq> set (ps @ as)" for ns
      using that only by (auto simp: filter_map removeAll_filter_not_eq comp_def intro!: arg_cong [where f = "map ?f"] filter_cong)
    have "sq_step (Remove k) q = map_prod (map ?f) (map ?f) (ps', as')"
      using k flt [of ps] flt [of as] by (simp add: q s'(3) settle_map)
    also have "\<dots> = (map (info (sv_heap s')) ps', map (info (sv_heap s')) as')"
      using s'(4) by simp
    finally have "sieve_rep s' (sq_step (Remove k) q)" using s'(2) by (auto simp: sieve_rep_def)
    with s'(1) show ?thesis by blast
  qed
qed

lemma sq_all_rep: "sieve_ok s ps as \<Longrightarrow> q = (map (info (sv_heap s)) ps, map (info (sv_heap s)) as) \<Longrightarrow>
    sq_all q = [] \<longleftrightarrow> ps @ as = []"
  by (simp add: sq_all_def)

lemma sieve_evict_rep:
  assumes rep: "sieve_rep s q" and ne: "sq_all q \<noteq> []"
  shows "\<exists>s'. sieve_evict s = Some (fst (sq_evict q), s') \<and> sieve_rep s' (snd (sq_evict q))"
proof -
  obtain ps as where ok: "sieve_ok s ps as"
    and q: "q = (map (info (sv_heap s)) ps, map (info (sv_heap s)) as)"
    using rep by (auto simp: sieve_rep_def)
  let ?f = "info (sv_heap s)"
  define V where "V = (\<lambda>n. snd (snd (?f n)))"
  have ne': "ps @ as \<noteq> []" using ne q by (simp add: sq_all_def)
  from sieve_evict_ok [OF ok ne', folded V_def] obtain n s' ps' as' where
    ev: "sieve_evict s = Some (fst (?f n), s')" and ok': "sieve_ok s' ps' as'"
    and split: "(n, ps', as') = (case dropWhile V as of x # ys \<Rightarrow> (x, settle (ps @ takeWhile V as) ys)
        | [] \<Rightarrow> (hd (ps @ takeWhile V as), [], tl (ps @ takeWhile V as)))"
    and inf: "\<And>m. m \<in> set (ps' @ as') \<Longrightarrow> info (sv_heap s') m =
        (if m \<in> set (takeWhile V as) then (fst (?f m), fst (snd (?f m)), False) else ?f m)" by blast
  let ?g = "\<lambda>m. if m \<in> set (takeWhile V as) then sq_clear (?f m) else ?f m"
  have same: "map (info (sv_heap s')) ns = map ?g ns" if "set ns \<subseteq> set (ps' @ as')" for ns
    using inf that by (auto simp: sq_clear_def)
  have d: "distinct (ps @ as)" by (rule sieve_okD(5) [OF ok])
  have tw: "takeWhile sq_marked (map ?f as) = map ?f (takeWhile V as)"
    "dropWhile sq_marked (map ?f as) = map ?f (dropWhile V as)"
    by (simp_all add: takeWhile_map dropWhile_map comp_def sq_marked_def V_def)
  have disj: "m \<notin> set (takeWhile V as)" if "m \<in> set ps" for m
    using d that by (auto dest: set_takeWhileD)
  have passed: "map ?f ps @ map sq_clear (map ?f (takeWhile V as)) = map ?g (ps @ takeWhile V as)"
    using disj by simp
  have fst_g: "fst (?g m) = fst (?f m)" for m by (simp add: sq_clear_def)
  have ev_q: "sq_evict q = (case map ?f (dropWhile V as) of
      x # rest \<Rightarrow> (fst x, settle (map ?g (ps @ takeWhile V as)) rest)
    | [] \<Rightarrow> (fst (hd (map ?g (ps @ takeWhile V as))), ([], tl (map ?g (ps @ takeWhile V as)))))"
    by (simp only: sq_evict_def q fst_conv snd_conv tw passed Let_def)
  have eq: "sq_evict q = (fst (?f n), (map ?g ps', map ?g as'))"
  proof (cases "dropWhile V as")
    case Nil
    have all: "takeWhile V as = as" using takeWhile_dropWhile_id [of V as] Nil by simp
    have "hd (map ?g (ps @ takeWhile V as)) = ?g (hd (ps @ takeWhile V as))"
      by (rule hd_map) (simp only: all ne' not_False_eq_True)
    then have "sq_evict q = (fst (?f (hd (ps @ takeWhile V as))), ([], map ?g (tl (ps @ takeWhile V as))))"
      unfolding ev_q Nil list.map(1) list.case(1) by (simp only: fst_g map_tl)
    with split Nil show ?thesis by simp
  next
    case (Cons x ys)
    have y: "m \<notin> set (takeWhile V as)" if "m \<in> set ys" for m
    proof -
      have "distinct (takeWhile V as @ dropWhile V as)" using d by simp
      with Cons that show ?thesis by (auto simp del: takeWhile_dropWhile_id)
    qed
    have "map ?f ys = map ?g ys" using y by simp
    moreover have sp: "n = x" "settle (ps @ takeWhile V as) ys = (ps', as')" using split Cons by auto
    ultimately have "settle (map ?g (ps @ takeWhile V as)) (map ?f ys) = (map ?g ps', map ?g as')"
      by (simp only: settle_map map_prod_simp)
    then show ?thesis by (simp only: ev_q Cons sp(1) list.map list.case)
  qed
  have "sieve_rep s' (map ?g ps', map ?g as')"
    unfolding sieve_rep_def using ok' same [of ps'] same [of as']
    by (intro exI [of _ ps'] exI [of _ as']) simp
  with ev eq show ?thesis by simp
qed

section \<open>Histories\<close>

lemma sieve_step_rep:
  assumes rep: "sieve_rep s q"
  shows "\<exists>s'. policy_step sieve_policy a s = Some s' \<and> sieve_rep s' (sq_step a q)"
proof (cases a)
  case Evict
  show ?thesis
  proof (cases "sq_all q = []")
    case True
    with rep have "sv_tail s = None"
      by (auto simp: sieve_rep_def sieve_ok_def shape_def sq_all_def first_def)
    with True Evict rep show ?thesis by (simp add: sieve_policy_def sieve_evict_def)
  next
    case False
    from sieve_evict_rep [OF rep False] False Evict show ?thesis by (auto simp: sieve_policy_def)
  qed
qed (use sieve_touch_rep [OF rep] sieve_add_rep [OF rep] sieve_remove_rep [OF rep]
      in \<open>simp_all add: sieve_policy_def del: sq_step.simps\<close>)

lemma sieve_run_rep:
  "\<exists>s. policy_run sieve_policy sieve_init past = Some s \<and> sieve_rep s (sq_run past)"
proof (induction past)
  case Nil
  show ?case using sieve_ok_init by (auto simp: sieve_rep_def)
next
  case (Cons a past)
  then obtain s where "policy_run sieve_policy sieve_init past = Some s" "sieve_rep s (sq_run past)" by blast
  with sieve_step_rep [of s "sq_run past" a] show ?case by simp
qed

lemma map_of_infos:
  assumes ok: "sieve_ok s ps as"
  shows "map_option fst (map_of (map (info (sv_heap s)) (ps @ as)) k) = sieve_resident s k"
proof (cases "um_find (sv_index s) k")
  case None
  then have "map_of (map (info (sv_heap s)) (ps @ as)) k = None"
    using index_none [OF ok, of k] by (auto simp: map_of_eq_None_iff)
  with None show ?thesis by (simp add: sieve_resident_def)
next
  case (Some n)
  let ?f = "info (sv_heap s)"
  have n: "n \<in> set (ps @ as)" "fst (?f n) = k" using Some index_iff [OF ok] by blast+
  have inj: "m = m'" if "m \<in> set (ps @ as)" "m' \<in> set (ps @ as)" "fst (?f m) = fst (?f m')" for m m'
  proof -
    have "um_find (sv_index s) (fst (?f m)) = Some m" "um_find (sv_index s) (fst (?f m')) = Some m'"
      using index_iff [OF ok] that(1,2) by blast+
    then have "Some m = Some m'" unfolding that(3) by (rule trans [OF sym])
    then show ?thesis by (simp only: option.inject)
  qed
  have "distinct (map fst (map ?f (ps @ as)))"
    unfolding map_map distinct_map
    by (intro conjI sieve_okD(5) [OF ok] inj_onI inj) (simp_all only: comp_apply)
  moreover have "(k, snd (?f n)) \<in> set (map ?f (ps @ as))"
    using n by (metis image_eqI image_set prod.collapse)
  ultimately have "map_of (map ?f (ps @ as)) k = Some (snd (?f n))" by (rule map_of_is_SomeI)
  with Some show ?thesis by (simp add: sieve_resident_def)
qed

section \<open>The destructor\<close>

lemma sieve_free_all_ok:
  assumes "dll (sv_heap s) None ns q" and "dom (sv_heap s) = set ns" and "distinct ns"
  shows "\<exists>s'. sieve_free_all (final None ns) s = Some s' \<and> sv_heap s' = Map.empty"
  using assms
proof (induction ns arbitrary: s q rule: rev_induct)
  case Nil
  then show ?case by (simp add: sieve_free_all.simps)
next
  case (snoc n ns)
  from snoc.prems(1) obtain nd where nd: "sv_heap s n = Some nd" "sn_next nd = final None ns"
    by (auto split: option.splits)
  let ?s = "s\<lparr>sv_heap := (sv_heap s)(n := None)\<rparr>"
  have "dll (sv_heap ?s) None ns (Some n)" "dom (sv_heap ?s) = set ns" "distinct ns"
    using snoc.prems by auto
  from snoc.IH [OF this] obtain s' where
    "sieve_free_all (final None ns) ?s = Some s'" "sv_heap s' = Map.empty" by blast
  with nd show ?case
    by (intro exI [of _ s']) (simp add: sieve_free_all.simps [of "Some n"] deref_def free_def)
qed

section \<open>Properties\<close>

text \<open>
  C20: Class \<^verbatim>\<open>SIEVE\<close> implements its queue specification: along every history no null or freed node is
  read or written, the scan of \<^verbatim>\<open>evict\<close> ends, the resident keys and sizes are those of the queue, the byte counter is
  their sum, and \<^verbatim>\<open>evict\<close> returns the key the specification selects.
\<close>

theorem sieve_refines_queue:
  "\<exists>s. policy_run sieve_policy sieve_init past = Some s \<and>
    sieve_resident s = (\<lambda>k. map_option fst (map_of (sq_all (sq_run past)) k)) \<and>
    sv_memory_used s = footprint (sieve_resident s) \<and>
    (sq_all (sq_run past) = [] \<or> (\<exists>s'. sieve_evict s = Some (fst (sq_evict (sq_run past)), s')))"
proof -
  obtain s where s: "policy_run sieve_policy sieve_init past = Some s" "sieve_rep s (sq_run past)"
    using sieve_run_rep by blast
  then obtain ps as where ok: "sieve_ok s ps as" and q: "sq_all (sq_run past) = map (info (sv_heap s)) (ps @ as)"
    by (auto simp: sieve_rep_def sq_all_def)
  have "sieve_resident s = (\<lambda>k. map_option fst (map_of (sq_all (sq_run past)) k))"
    unfolding q by (rule ext) (simp only: map_of_infos [OF ok])
  with s sieve_okD(4) [OF ok] sieve_evict_rep [OF s(2)] show ?thesis by blast
qed

text \<open>
  C31: Class \<^verbatim>\<open>SIEVE\<close> neither leaks nor frees twice: after any history its destructor runs without undefined
  behaviour and leaves no node in the heap.
\<close>

theorem sieve_destructor_frees_all:
  "\<exists>s s'. policy_run sieve_policy sieve_init past = Some s \<and> sieve_destroy s = Some s' \<and>
     sv_heap s' = Map.empty"
proof -
  obtain s where s: "policy_run sieve_policy sieve_init past = Some s" "sieve_rep s (sq_run past)"
    using sieve_run_rep by blast
  then obtain ps as where "shape s (ps @ as)" by (auto simp: sieve_rep_def sieve_ok_def)
  then have "\<exists>s'. sieve_free_all (sv_head s) s = Some s' \<and> sv_heap s' = Map.empty"
    using sieve_free_all_ok [of s "ps @ as" None] unfolding shape_def by metis
  with s(1) show ?thesis by (auto simp: sieve_destroy_def)
qed

text \<open>
  C38: When the hand runs off the young end, \<^verbatim>\<open>SIEVE::evict\<close> takes the oldest key even if that key is marked and
  an unmarked one is listed: in this history \<open>a\<close> was used again after the hand had passed it, \<open>b\<close> was
  not, and \<open>a\<close> is evicted.
\<close>

theorem sieve_evicts_marked_key:
  "\<exists>s s'. policy_run sieve_policy sieve_init
       [Touch ''d'', Touch ''a'', Evict, Touch ''b'', Touch ''a'',
        Add ''d'' 1, Add ''c'' 1, Add ''b'' 1, Add ''a'' 1] = Some s \<and>
     (\<exists>n. um_find (sv_index s) ''a'' = Some n \<and> sq_marked (info (sv_heap s) n)) \<and>
     (\<exists>n. um_find (sv_index s) ''b'' = Some n \<and> \<not> sq_marked (info (sv_heap s) n)) \<and>
     sieve_evict s = Some (''a'', s')"
proof -
  let ?past = "[Touch ''d'', Touch ''a'', Evict, Touch ''b'', Touch ''a'',
        Add ''d'' 1, Add ''c'' 1, Add ''b'' 1, Add ''a'' 1]"
  have run: "sq_run ?past = ([(''a'', 1, True), (''b'', 1, False)], [(''d'', 1, True)])"
    by (simp add: sq_all_def sq_mark_def sq_evict_def sq_marked_def sq_clear_def settle_def)
  obtain s where s: "policy_run sieve_policy sieve_init ?past = Some s" "sieve_rep s (sq_run ?past)"
    using sieve_run_rep by blast
  have "fst (sq_evict (sq_run ?past)) = ''a''"
    unfolding run by (simp add: sq_evict_def sq_marked_def sq_clear_def)
  moreover have "sq_all (sq_run ?past) \<noteq> []" unfolding run by (simp add: sq_all_def)
  ultimately obtain s' where "sieve_evict s = Some (''a'', s')"
    using sieve_evict_rep [OF s(2)] by auto
  moreover obtain ps as where ok: "sieve_ok s ps as"
    and q: "map (info (sv_heap s)) ps = [(''a'', 1, True), (''b'', 1, False)]"
    using s(2) unfolding run sieve_rep_def by auto
  then obtain na nb where "ps = [na, nb]" "info (sv_heap s) na = (''a'', 1, True)"
    "info (sv_heap s) nb = (''b'', 1, False)" by (auto simp: map_eq_Cons_conv)
  then have "um_find (sv_index s) ''a'' = Some na \<and> sq_marked (info (sv_heap s) na)"
    "um_find (sv_index s) ''b'' = Some nb \<and> \<not> sq_marked (info (sv_heap s) nb)"
    using index_iff [OF ok] by (simp_all add: sq_marked_def)
  ultimately show ?thesis using s(1) by blast
qed

end
