(* ===== verification/Base64.thy ===== *)
theory Base64
  imports Prelude
begin

text \<open>
  The Base64 codec of the append-only log (\<^verbatim>\<open>src/src/aof.cpp\<close>, lines 14 to 107): the 24-bit groups
  of the encoder and decoder on 32-bit words, with the source's shifts and masks. The decoder
  accepts exactly the padding the source accepts. The round trip is proved for every byte string.
\<close>

unbundle bit_operations_syntax

section \<open>The codec\<close>

type_synonym u32 = "32 word"

definition kBase64Alphabet :: string where
  "kBase64Alphabet = ''ABCDEFGHIJKLMNOPQRSTUVWXYZabcdefghijklmnopqrstuvwxyz0123456789+/''"

text \<open>\<^verbatim>\<open>static_cast<uint32_t>(static_cast<uint8_t>(c))\<close> and \<^verbatim>\<open>kBase64Alphabet[w & 0x3F]\<close>.\<close>

definition u32_of :: "char \<Rightarrow> u32" where
  "u32_of c = of_char c"

definition sextet :: "u32 \<Rightarrow> char" where
  "sextet w = kBase64Alphabet ! unat (w AND 0x3F)"

fun base64_encode :: "string \<Rightarrow> string" where
  "base64_encode (x # y # z # rest) =
     (let v = (push_bit 16 (u32_of x) OR push_bit 8 (u32_of y)) OR u32_of z
      in sextet (drop_bit 18 v) # sextet (drop_bit 12 v) # sextet (drop_bit 6 v) # sextet v #
         base64_encode rest)"
| "base64_encode [x] =
     (let v = push_bit 16 (u32_of x)
      in [sextet (drop_bit 18 v), sextet (drop_bit 12 v), CHR ''='', CHR ''=''])"
| "base64_encode [x, y] =
     (let v = push_bit 16 (u32_of x) OR push_bit 8 (u32_of y)
      in [sextet (drop_bit 18 v), sextet (drop_bit 12 v), sextet (drop_bit 6 v), CHR ''=''])"
| "base64_encode [] = []"

definition base64_value :: "char \<Rightarrow> int" where
  "base64_value c =
     (if char_le (CHR ''A'') c \<and> char_le c (CHR ''Z'') then of_char c - of_char (CHR ''A'')
      else if char_le (CHR ''a'') c \<and> char_le c (CHR ''z'') then of_char c - of_char (CHR ''a'') + 26
      else if char_le (CHR ''0'') c \<and> char_le c (CHR ''9'') then of_char c - of_char (CHR ''0'') + 52
      else if c = CHR ''+'' then 62
      else if c = CHR ''/'' then 63
      else if c = CHR ''='' then -2
      else -1)"

text \<open>\<^verbatim>\<open>static_cast<char>(w & 0xFF)\<close>\<close>

definition byte_of :: "u32 \<Rightarrow> char" where
  "byte_of w = char_of (unat (w AND 0xFF))"

text \<open>One pass of the decoding loop per group of four; \<open>None\<close> is the return value false.\<close>

fun decode_loop :: "string \<Rightarrow> string option" where
  "decode_loop [] = Some []"
| "decode_loop (i0 # i1 # i2 # i3 # rest) =
     (let a = base64_value i0; b = base64_value i1; c = base64_value i2; d = base64_value i3;
          last = (rest = [])
      in if a < 0 \<or> b < 0 \<or> c = -1 \<or> d = -1 then None
         else if c = -2 \<and> (\<not> last \<or> d \<noteq> -2) then None
         else if c \<noteq> -2 \<and> d = -2 \<and> \<not> last then None
         else
           let v = ((push_bit 18 (word_of_int a) OR push_bit 12 (word_of_int b))
                    OR push_bit 6 (word_of_int (if c < 0 then 0 else c)))
                   OR word_of_int (if d < 0 then 0 else d) :: u32
           in do {
             output \<leftarrow> decode_loop rest;
             Some (byte_of (drop_bit 16 v) #
                   (if c \<ge> 0 then [byte_of (drop_bit 8 v)] else []) @
                   (if d \<ge> 0 then [byte_of v] else []) @ output) })"
| "decode_loop _ = None"

definition base64_decode :: "string \<Rightarrow> string option" where
  "base64_decode input = (if length input mod 4 \<noteq> 0 then None else decode_loop input)"

section \<open>Sextets\<close>

lemma alphabet_value: "map base64_value kBase64Alphabet = map int [0..<64]"
  by (simp add: kBase64Alphabet_def base64_value_def char_le_def upt_rec)

lemma value_sextet: "base64_value (sextet w) = uint (w AND 0x3F)"
proof -
  have lt: "unat (w AND 0x3F) < 64"
    using word_and_le1 [of w 63] by (simp add: word_le_nat_alt)
  have "length kBase64Alphabet = 64" by (simp add: kBase64Alphabet_def)
  with lt have "base64_value (sextet w) = map base64_value kBase64Alphabet ! unat (w AND 0x3F)"
    by (simp add: sextet_def)
  also have "\<dots> = int (unat (w AND 0x3F))" using lt by (simp add: alphabet_value)
  finally show ?thesis by simp
qed

lemma value_sextet_nonneg: "0 \<le> base64_value (sextet w)"
  by (simp add: value_sextet)

lemma value_sextet_ge: "\<not> base64_value (sextet w) < 0" "base64_value (sextet w) \<noteq> -1" "base64_value (sextet w) \<noteq> -2"
  using value_sextet_nonneg [of w] by linarith+

lemma value_pad: "base64_value CHR ''='' = -2"
  by code_simp

lemma word_of_value: "(word_of_int (base64_value (sextet w)) :: u32) = w AND 0x3F"
  by (simp add: value_sextet)

lemma u32_of_nat: "u32_of c = word_of_nat (of_char c)"
  by (simp only: u32_of_def of_nat_of_char)

lemma unat_u32_of: "unat (u32_of c) = of_char c"
proof -
  have "(of_char c :: nat) < 256" by simp
  then have "(of_char c :: nat) < 2 ^ 32" by (rule less_trans) simp
  then have "(of_char c :: nat) mod 2 ^ 32 = of_char c" by (rule mod_less)
  then show ?thesis by (simp only: u32_of_nat unat_of_nat) simp
qed

lemma bit_u32_of: "bit (u32_of c) n \<Longrightarrow> n < 8"
proof -
  assume b: "bit (u32_of c) n"
  have "(of_char c :: nat) < 2 ^ 8" by simp
  then have "take_bit 8 (unat (u32_of c)) = unat (u32_of c)"
    by (simp only: unat_u32_of take_bit_nat_eq_self_iff)
  with b have "bit (take_bit 8 (unat (u32_of c))) n" by (simp add: bit_unsigned_iff bit_imp_le_length)
  then show ?thesis by (simp add: bit_take_bit_iff)
qed

lemma byte_of_u32: "w AND 0xFF = u32_of c \<Longrightarrow> byte_of w = c"
  by (simp add: byte_of_def unat_u32_of)

lemma group3:
  fixes x y z :: char
  defines "v \<equiv> (push_bit 16 (u32_of x) OR push_bit 8 (u32_of y)) OR u32_of z"
  shows "((push_bit 18 (drop_bit 18 v AND 0x3F) OR push_bit 12 (drop_bit 12 v AND 0x3F))
     OR push_bit 6 (drop_bit 6 v AND 0x3F)) OR (v AND 0x3F) = v"
    and "byte_of (drop_bit 16 v) = x" and "byte_of (drop_bit 8 v) = y" and "byte_of v = z"
proof -
  have m: "(0x3F :: u32) = mask 6" "(0xFF :: u32) = mask 8" by (simp_all add: mask_eq_exp_minus_1)
  have v24: "bit v n \<Longrightarrow> n < 24" for n
    by (auto simp: v_def bit_simps dest: bit_u32_of)
  show "((push_bit 18 (drop_bit 18 v AND 0x3F) OR push_bit 12 (drop_bit 12 v AND 0x3F))
     OR push_bit 6 (drop_bit 6 v AND 0x3F)) OR (v AND 0x3F) = v"
    unfolding m
  proof (rule bit_word_eqI)
    fix n
    show "bit (((push_bit 18 (drop_bit 18 v AND mask 6) OR push_bit 12 (drop_bit 12 v AND mask 6))
      OR push_bit 6 (drop_bit 6 v AND mask 6)) OR (v AND mask 6)) n = bit v n"
      using v24 [of n]
      by (cases "n < 6"; cases "n < 12"; cases "n < 18"; cases "n < 24") (auto simp: bit_simps)
  qed
  show "byte_of (drop_bit 16 v) = x"
    by (rule byte_of_u32, unfold m, rule bit_word_eqI)
      (auto simp: v_def bit_simps dest: bit_u32_of)
  show "byte_of (drop_bit 8 v) = y"
    by (rule byte_of_u32, unfold m, rule bit_word_eqI)
      (auto simp: v_def bit_simps dest: bit_u32_of)
  show "byte_of v = z"
    by (rule byte_of_u32, unfold m, rule bit_word_eqI)
      (auto simp: v_def bit_simps dest: bit_u32_of)
qed

section \<open>Round trip\<close>

lemma group2:
  fixes x y :: char
  defines "v \<equiv> push_bit 16 (u32_of x) OR push_bit 8 (u32_of y)"
  shows "(push_bit 18 (drop_bit 18 v AND 0x3F) OR push_bit 12 (drop_bit 12 v AND 0x3F))
     OR push_bit 6 (drop_bit 6 v AND 0x3F) = v"
    and "byte_of (drop_bit 16 v) = x" and "byte_of (drop_bit 8 v) = y"
proof -
  have z: "u32_of (CHR 0x00) = 0" by (simp add: u32_of_def)
  note g = group3 [of x y "CHR 0x00", unfolded z or.right_neutral, folded v_def]
  have "v AND 0x3F = 0"
  proof -
    have m: "(0x3F :: u32) = mask 6" by (simp add: mask_eq_exp_minus_1)
    show ?thesis unfolding m v_def by (rule bit_word_eqI) (auto simp: bit_simps)
  qed
  with g(1) show "(push_bit 18 (drop_bit 18 v AND 0x3F) OR push_bit 12 (drop_bit 12 v AND 0x3F))
     OR push_bit 6 (drop_bit 6 v AND 0x3F) = v" by simp
  show "byte_of (drop_bit 16 v) = x" "byte_of (drop_bit 8 v) = y" by (fact g)+
qed

lemma group1:
  fixes x :: char
  defines "v \<equiv> push_bit 16 (u32_of x)"
  shows "push_bit 18 (drop_bit 18 v AND 0x3F) OR push_bit 12 (drop_bit 12 v AND 0x3F) = v"
    and "byte_of (drop_bit 16 v) = x"
proof -
  have z: "u32_of (CHR 0x00) = 0" by (simp add: u32_of_def)
  note g = group2 [of x "CHR 0x00", unfolded z push_bit_of_0 or.right_neutral, folded v_def]
  have "drop_bit 6 v AND 0x3F = 0"
  proof -
    have m: "(0x3F :: u32) = mask 6" by (simp add: mask_eq_exp_minus_1)
    show ?thesis unfolding m v_def by (rule bit_word_eqI) (auto simp: bit_simps)
  qed
  with g(1) show "push_bit 18 (drop_bit 18 v AND 0x3F) OR push_bit 12 (drop_bit 12 v AND 0x3F) = v"
    by simp
  show "byte_of (drop_bit 16 v) = x" by (fact g)
qed

lemma div3_step: "(5 + n) div 3 = Suc ((2 + n) div 3)" for n :: nat
  by presburger

lemma length_encode: "length (base64_encode s) = 4 * ((length s + 2) div 3)"
  by (induction s rule: base64_encode.induct) (simp_all add: Let_def div3_step)

lemma encode_Nil_iff: "base64_encode s = [] \<longleftrightarrow> s = []"
  by (induction s rule: base64_encode.induct) (simp_all add: Let_def)

lemma decode_loop_encode: "decode_loop (base64_encode s) = Some s"
proof (induction s rule: base64_encode.induct)
  case (1 x y z rest)
  show ?case
    using 1 [OF refl] group3 [of x y z]
    by (simp add: Let_def value_sextet_ge value_sextet_nonneg word_of_value)
next
  case (2 x)
  show ?case
    using group1 [of x]
    by (simp add: Let_def value_sextet_ge value_sextet_nonneg word_of_value value_pad)
next
  case (3 x y)
  show ?case
    using group2 [of x y]
    by (simp add: Let_def value_sextet_ge value_sextet_nonneg word_of_value value_pad)
qed simp

text \<open>The characters the encoder writes.\<close>

lemma sextet_in_alphabet: "sextet w \<in> set kBase64Alphabet"
proof -
  have "unat (w AND 0x3F) < 64"
    using word_and_le1 [of w 63] by (simp add: word_le_nat_alt)
  moreover have "length kBase64Alphabet = 64" by (simp add: kBase64Alphabet_def)
  ultimately show ?thesis by (simp add: sextet_def)
qed

lemma set_encode: "set (base64_encode s) \<subseteq> insert CHR ''='' (set kBase64Alphabet)"
  by (induction s rule: base64_encode.induct) (auto simp: Let_def sextet_in_alphabet)

section \<open>Properties\<close>

text \<open>
  C27: The Base64 codec of the log loses nothing: decoding what the encoder writes gives back the
  original bytes, for every byte string (keys and values are binary-safe).
\<close>

theorem base64_roundtrip: "base64_decode (base64_encode s) = Some s"
  by (simp add: base64_decode_def length_encode decode_loop_encode)

text \<open>
  What the encoder writes is plain text a JSON string can hold: it is exactly
  \<open>4 * ceiling (n / 3)\<close> characters, the length the source reserves, and every character is from the
  Base64 alphabet or the padding sign, so it holds no quote, no backslash, no control character and
  no byte above 127.
\<close>

theorem base64_encode_is_plain_text:
  "length (base64_encode s) = ((length s + 2) div 3) * 4 \<and>
   base64_encode s = filter (\<lambda>c. 32 < (of_char c :: nat) \<and> (of_char c :: nat) < 127 \<and>
     c \<noteq> CHR 0x22 \<and> c \<noteq> CHR 0x5C) (base64_encode s)"
proof -
  have "\<forall>c\<in>insert CHR ''='' (set kBase64Alphabet). 32 < (of_char c :: nat) \<and> (of_char c :: nat) < 127 \<and>
     c \<noteq> CHR 0x22 \<and> c \<noteq> CHR 0x5C"
    by (simp add: kBase64Alphabet_def)
  then have "\<forall>c\<in>set (base64_encode s). 32 < (of_char c :: nat) \<and> (of_char c :: nat) < 127 \<and>
     c \<noteq> CHR 0x22 \<and> c \<noteq> CHR 0x5C"
    using set_encode [of s] by blast
  then show ?thesis by (simp add: length_encode filter_id_conv)
qed

end
