(* ===== verification/Aof.thy ===== *)
theory Aof
  imports Base64 Storage
begin

text \<open>
  \<^verbatim>\<open>class AOFLogger\<close> (\<^verbatim>\<open>src/src/aof.h\<close>, \<^verbatim>\<open>aof.cpp\<close>): the append-only log. The file is its bytes; \<^verbatim>\<open>append_line\<close>
  adds a line, \<^verbatim>\<open>replay\<close> reads the file line by line and repeats each command on a storage. The vendored
  JSON library is represented by its values (\<open>json\<close>), the accessors the code uses on them, and two
  parameters: \<open>dump\<close> (\<open>None\<close>: it throws) and \<open>parse\<close> (\<open>None\<close>: it throws). What the log needs of
  the two is the named hypothesis \<open>json_documented\<close>, on objects of plain ASCII strings and integers only.
\<close>

section \<open>JSON values\<close>

datatype json =
    JNull
  | JBool bool
  | JInt int
  | JFloat rat
  | JString string
  | JArray "json list"
  | JObject "(string \<times> json) list"

text \<open>\<^verbatim>\<open>contains\<close> and the subscript: only objects have members.\<close>

definition json_find :: "json \<Rightarrow> string \<Rightarrow> json option" where
  "json_find j k = (case j of JObject m \<Rightarrow> map_of m k | _ \<Rightarrow> None)"

text \<open>\<^verbatim>\<open>get_ref<const string&>()\<close>; \<open>None\<close>: a type error is thrown.\<close>

definition get_string :: "json \<Rightarrow> string option" where
  "get_string j = (case j of JString s \<Rightarrow> Some s | _ \<Rightarrow> None)"

text \<open>\<^verbatim>\<open>get<int>()\<close>: any number or boolean, narrowed to 32 bits.\<close>

definition get_int :: "json \<Rightarrow> int option" where
  "get_int j = (case j of
     JInt i \<Rightarrow> Some (signed_take_bit 31 i)
   | JFloat r \<Rightarrow> Some (signed_take_bit 31 (if r < 0 then \<lceil>r\<rceil> else \<lfloor>r\<rfloor>))
   | JBool b \<Rightarrow> Some (if b then 1 else 0)
   | _ \<Rightarrow> None)"

text \<open>\<^verbatim>\<open>value(key, default)\<close>: throws unless called on an object.\<close>

definition json_value :: "(json \<Rightarrow> 'a option) \<Rightarrow> json \<Rightarrow> string \<Rightarrow> 'a \<Rightarrow> 'a option" where
  "json_value get j k dflt = (case j of
     JObject m \<Rightarrow> (case map_of m k of None \<Rightarrow> Some dflt | Some v \<Rightarrow> get v)
   | _ \<Rightarrow> None)"

section \<open>Writing the log\<close>

definition newline :: char where "newline = CHR 0x0A"

definition append_line :: "string \<Rightarrow> string \<Rightarrow> string" where
  "append_line line file = file @ line @ [newline]"

definition set_entry :: "string \<Rightarrow> string \<Rightarrow> int \<Rightarrow> json" where
  "set_entry key value ttl = JObject
     [(''cmd'', JString ''SET''), (''key_b64'', JString (base64_encode key)),
      (''ttl'', JInt ttl), (''value_b64'', JString (base64_encode value))]"

definition del_entry :: "string \<Rightarrow> json" where
  "del_entry key = JObject [(''cmd'', JString ''DEL''), (''key_b64'', JString (base64_encode key))]"

definition log_set ::
  "(json \<Rightarrow> string option) \<Rightarrow> string \<Rightarrow> string \<Rightarrow> int \<Rightarrow> string \<Rightarrow> string option" where
  "log_set dump key value ttl file = do {
     line \<leftarrow> dump (set_entry key value ttl);
     Some (append_line line file) }"

definition log_del :: "(json \<Rightarrow> string option) \<Rightarrow> string \<Rightarrow> string \<Rightarrow> string option" where
  "log_del dump key file = do {
     line \<leftarrow> dump (del_entry key);
     Some (append_line line file) }"

section \<open>Replaying the log\<close>

text \<open>The outer \<open>None\<close> is an exception, the inner one the return value false.\<close>

definition decode_field :: "json \<Rightarrow> string \<Rightarrow> string \<Rightarrow> string option option" where
  "decode_field j encoded legacy = (case json_find j encoded of
     Some v \<Rightarrow> do { text \<leftarrow> get_string v; Some (base64_decode text) }
   | None \<Rightarrow> (case json_find j legacy of
       Some v \<Rightarrow> do { text \<leftarrow> get_string v; Some (Some text) }
     | None \<Rightarrow> Some None))"

text \<open>\<^verbatim>\<open>getline\<close> until the end of the file; a last line needs no newline.\<close>

function file_lines :: "string \<Rightarrow> string list" where
  "file_lines [] = []"
| "file_lines (c # s) =
     (let line = takeWhile (\<lambda>x. x \<noteq> newline) (c # s); rest = dropWhile (\<lambda>x. x \<noteq> newline) (c # s)
      in line # file_lines (drop 1 rest))"
  by pat_completeness auto
termination
proof (relation "measure length")
  fix c s x xa
  assume "xa = dropWhile (\<lambda>x. x \<noteq> newline) (c # s)"
  then show "(drop 1 xa, c # s) \<in> measure length"
    using length_dropWhile_le [of "\<lambda>x. x \<noteq> newline" "c # s"] by (cases xa) auto
qed simp

declare file_lines.simps(2) [simp del]

text \<open>
  The body of the loop, with the exceptions of the JSON library caught: the storage is left alone. The
  result is \<open>None\<close> only for undefined behaviour inside the storage.
\<close>

datatype replayed = Skip | Replay_set string string int | Replay_del string

definition read_entry :: "(string \<Rightarrow> json option) \<Rightarrow> string \<Rightarrow> replayed option" where
  "read_entry parse line = do {
     j \<leftarrow> parse line;
     cmd \<leftarrow> json_value get_string j ''cmd'' [];
     if cmd = ''SET'' then do {
       k \<leftarrow> decode_field j ''key_b64'' ''key'';
       case k of None \<Rightarrow> Some Skip | Some key \<Rightarrow> do {
         v \<leftarrow> decode_field j ''value_b64'' ''value'';
         case v of None \<Rightarrow> Some Skip | Some value \<Rightarrow> do {
           ttl \<leftarrow> json_value get_int j ''ttl'' 0;
           Some (Replay_set key value ttl) } } }
     else if cmd = ''DEL'' then do {
       k \<leftarrow> decode_field j ''key_b64'' ''key'';
       case k of None \<Rightarrow> Some Skip | Some key \<Rightarrow> Some (Replay_del key) }
     else Some Skip }"

definition replay_line ::
  "'p runtime \<Rightarrow> (string \<Rightarrow> json option) \<Rightarrow> (string \<Rightarrow> size_t) \<Rightarrow> time \<Rightarrow> string \<Rightarrow>
     'p storage \<Rightarrow> 'p storage option" where
  "replay_line rt parse cap now line st =
     (if line = [] then Some st
      else (case read_entry parse line of
         None \<Rightarrow> Some st
       | Some Skip \<Rightarrow> Some st
       | Some (Replay_set key value ttl) \<Rightarrow> map_option snd (storage_set rt key value (cap value) ttl now st)
       | Some (Replay_del key) \<Rightarrow> map_option snd (storage_del rt key st)))"

text \<open>\<open>clock i\<close> is the time at which the \<open>i\<close>-th line is replayed.\<close>

fun replay_lines ::
  "'p runtime \<Rightarrow> (string \<Rightarrow> json option) \<Rightarrow> (string \<Rightarrow> size_t) \<Rightarrow> (nat \<Rightarrow> time) \<Rightarrow> string list \<Rightarrow>
     'p storage \<Rightarrow> 'p storage option" where
  "replay_lines rt parse cap clock [] st = Some st"
| "replay_lines rt parse cap clock (line # lines) st = do {
     st \<leftarrow> replay_line rt parse cap (clock 0) line st;
     replay_lines rt parse cap (\<lambda>i. clock (Suc i)) lines st }"

definition replay ::
  "'p runtime \<Rightarrow> (string \<Rightarrow> json option) \<Rightarrow> (string \<Rightarrow> size_t) \<Rightarrow> (nat \<Rightarrow> time) \<Rightarrow> string \<Rightarrow>
     'p storage \<Rightarrow> 'p storage option" where
  "replay rt parse cap clock file st = replay_lines rt parse cap clock (file_lines file) st"

section \<open>What the log needs of the JSON library\<close>

definition plain :: "string \<Rightarrow> bool" where
  "plain s \<longleftrightarrow> list_all (\<lambda>c. 32 < (of_char c :: nat) \<and> (of_char c :: nat) < 127 \<and>
     c \<noteq> CHR 0x22 \<and> c \<noteq> CHR 0x5C) s"

definition plain_object :: "json \<Rightarrow> bool" where
  "plain_object j \<longleftrightarrow> (case j of
     JObject m \<Rightarrow> list_all (\<lambda>(k, v). plain k \<and> (case v of JString s \<Rightarrow> plain s | JInt _ \<Rightarrow> True | _ \<Rightarrow> False)) m
   | _ \<Rightarrow> False)"

text \<open>
  \<^verbatim>\<open>dump()\<close> of an object of plain ASCII strings and integers returns one line, and \<^verbatim>\<open>parse\<close> reads it back.
\<close>

definition json_documented :: "(json \<Rightarrow> string option) \<Rightarrow> (string \<Rightarrow> json option) \<Rightarrow> json list \<Rightarrow> bool" where
  "json_documented dump parse js \<longleftrightarrow> (\<forall>j\<in>set js. plain_object j \<longrightarrow>
     (\<exists>line. dump j = Some line \<and> line \<noteq> [] \<and> newline \<notin> set line \<and> parse line = Some j))"

lemma plain_encode: "plain (base64_encode s)"
proof -
  let ?p = "\<lambda>c. 32 < (of_char c :: nat) \<and> (of_char c :: nat) < 127 \<and> c \<noteq> CHR 0x22 \<and> c \<noteq> CHR 0x5C"
  have "\<forall>c\<in>insert CHR ''='' (set kBase64Alphabet). ?p c" by (simp add: kBase64Alphabet_def)
  then show ?thesis using set_encode [of s] unfolding plain_def list_all_iff by blast
qed

lemma plain_entries: "plain_object (set_entry k v ttl)" "plain_object (del_entry k)"
  by (simp_all add: plain_object_def set_entry_def del_entry_def plain_encode) (simp_all add: plain_def)

lemma decode_encode: "base64_decode (base64_encode s) = Some s"
  by (simp add: base64_decode_def length_encode decode_loop_encode)

lemma read_set_entry:
  assumes "parse line = Some (set_entry k v ttl)" and "- (2 ^ 31) \<le> ttl" "ttl < 2 ^ 31"
  shows "read_entry parse line = Some (Replay_set k v ttl)"
proof -
  have "signed_take_bit 31 ttl = ttl" using assms(2,3) by (simp add: signed_take_bit_int_eq_self)
  with assms(1) show ?thesis
    by (simp add: read_entry_def set_entry_def json_value_def get_string_def get_int_def
        decode_field_def json_find_def decode_encode)
qed

lemma read_del_entry:
  "parse line = Some (del_entry k) \<Longrightarrow> read_entry parse line = Some (Replay_del k)"
  by (simp add: read_entry_def del_entry_def json_value_def get_string_def
      decode_field_def json_find_def decode_encode)

section \<open>Lines of a file\<close>

lemma file_lines_append_line:
  "newline \<notin> set line \<Longrightarrow> file_lines (line @ newline # rest) = line # file_lines rest"
proof -
  assume n: "newline \<notin> set line"
  have "takeWhile (\<lambda>x. x \<noteq> newline) (line @ newline # rest) = line"
    "dropWhile (\<lambda>x. x \<noteq> newline) (line @ newline # rest) = newline # rest"
    using n by (auto simp: takeWhile_append dropWhile_append)
  then show ?thesis by (cases line) (auto simp: file_lines.simps(2) Let_def)
qed

lemma file_lines_last: "newline \<notin> set t \<Longrightarrow> t \<noteq> [] \<Longrightarrow> file_lines t = [t]"
proof -
  assume n: "newline \<notin> set t" and ne: "t \<noteq> []"
  have "takeWhile (\<lambda>x. x \<noteq> newline) t = t" "dropWhile (\<lambda>x. x \<noteq> newline) t = []"
    using n by (auto simp: takeWhile_eq_all_conv)
  with ne show ?thesis by (cases t) (auto simp: file_lines.simps(2) Let_def)
qed

definition file_of :: "string list \<Rightarrow> string" where
  "file_of ls = concat (map (\<lambda>l. l @ [newline]) ls)"

lemma file_lines_file_of:
  "\<forall>l\<in>set ls. newline \<notin> set l \<Longrightarrow> file_lines (file_of ls @ rest) = ls @ file_lines rest"
  by (induction ls) (simp_all add: file_of_def file_lines_append_line)

lemma replay_lines_append:
  "replay_lines rt parse cap clock (ls @ ms) st = Option.bind (replay_lines rt parse cap clock ls st)
     (replay_lines rt parse cap (\<lambda>i. clock (length ls + i)) ms)"
proof (induction ls arbitrary: clock st)
  case (Cons l ls)
  then show ?case by (cases "replay_line rt parse cap (clock 0) l st") (simp_all add: comp_def)
qed simp

section \<open>Logs and what they stand for\<close>

datatype log_entry = LogSet string string int | LogDel string

fun entry_json :: "log_entry \<Rightarrow> json" where
  "entry_json (LogSet k v ttl) = set_entry k v ttl"
| "entry_json (LogDel k) = del_entry k"

fun log_one :: "(json \<Rightarrow> string option) \<Rightarrow> log_entry \<Rightarrow> string \<Rightarrow> string option" where
  "log_one dump (LogSet k v ttl) file = log_set dump k v ttl file"
| "log_one dump (LogDel k) file = log_del dump k file"

fun log_all :: "(json \<Rightarrow> string option) \<Rightarrow> log_entry list \<Rightarrow> string \<Rightarrow> string option" where
  "log_all dump [] file = Some file"
| "log_all dump (e # es) file = do { file \<leftarrow> log_one dump e file; log_all dump es file }"

fun apply_entry :: "'p runtime \<Rightarrow> (string \<Rightarrow> size_t) \<Rightarrow> time \<Rightarrow> log_entry \<Rightarrow> 'p storage \<Rightarrow> 'p storage option" where
  "apply_entry rt cap now (LogSet k v ttl) st = map_option snd (storage_set rt k v (cap v) ttl now st)"
| "apply_entry rt cap now (LogDel k) st = map_option snd (storage_del rt k st)"

fun apply_entries ::
  "'p runtime \<Rightarrow> (string \<Rightarrow> size_t) \<Rightarrow> (nat \<Rightarrow> time) \<Rightarrow> log_entry list \<Rightarrow> 'p storage \<Rightarrow> 'p storage option" where
  "apply_entries rt cap clock [] st = Some st"
| "apply_entries rt cap clock (e # es) st = do {
     st \<leftarrow> apply_entry rt cap (clock 0) e st;
     apply_entries rt cap (\<lambda>i. clock (Suc i)) es st }"

text \<open>The parameter \<^verbatim>\<open>ttl\<close> of \<^verbatim>\<open>log_set\<close> is a 32-bit \<^verbatim>\<open>int\<close>.\<close>

fun int_ttl :: "log_entry \<Rightarrow> bool" where
  "int_ttl (LogSet k v ttl) = (- (2 ^ 31) \<le> ttl \<and> ttl < 2 ^ 31)"
| "int_ttl (LogDel k) = True"

lemma entry_line:
  assumes "json_documented dump parse (map entry_json es)" and "e \<in> set es"
  shows "\<exists>line. dump (entry_json e) = Some line \<and> line \<noteq> [] \<and> newline \<notin> set line \<and>
    parse line = Some (entry_json e)"
  using assms plain_entries unfolding json_documented_def by (cases e) auto

lemma log_one_line: "dump (entry_json e) = Some line \<Longrightarrow> log_one dump e file = Some (append_line line file)"
  by (cases e) (simp_all add: log_set_def log_del_def)

lemma replay_entry_line:
  assumes "parse line = Some (entry_json e)" and "line \<noteq> []" and "int_ttl e"
  shows "replay_line rt parse cap now line st = apply_entry rt cap now e st"
  using assms by (cases e) (simp_all add: replay_line_def read_set_entry read_del_entry)

lemma log_all_file:
  assumes "json_documented dump parse (map entry_json es)" and "list_all int_ttl es"
  shows "\<exists>ls. (\<forall>file. log_all dump es file = Some (file @ file_of ls)) \<and>
    (\<forall>l\<in>set ls. newline \<notin> set l) \<and>
    (\<forall>clock st. replay_lines rt parse cap clock ls st = apply_entries rt cap clock es st)"
  using assms
proof (induction es)
  case Nil
  show ?case by (rule exI [of _ "[]"]) (simp add: file_of_def)
next
  case (Cons e es)
  from entry_line [OF Cons.prems(1), of e] obtain line where
    line: "dump (entry_json e) = Some line" "line \<noteq> []" "newline \<notin> set line" "parse line = Some (entry_json e)"
    by auto
  have "json_documented dump parse (map entry_json es)"
    using Cons.prems(1) by (simp add: json_documented_def)
  with Cons obtain ls where ls: "\<And>file. log_all dump es file = Some (file @ file_of ls)"
    "\<forall>l\<in>set ls. newline \<notin> set l"
    "\<And>clock st. replay_lines rt parse cap clock ls st = apply_entries rt cap clock es st" by auto
  have e: "replay_line rt parse cap now line st = apply_entry rt cap now e st" for now st
    using replay_entry_line [of parse line e, OF line(4,2)] Cons.prems(2) by simp
  have eq: "replay_lines rt parse cap clock ls = apply_entries rt cap clock es" for clock
    using ls(3) by (intro ext)
  show ?case
    by (rule exI [of _ "line # ls"])
      (use ls(1,2) eq line log_one_line [of dump e line, OF line(1)] e in
        \<open>simp add: file_of_def append_line_def\<close>)
qed

lemma replay_log:
  assumes "json_documented dump parse (map entry_json es)" and "list_all int_ttl es"
  shows "\<exists>file. log_all dump es [] = Some file \<and>
    replay rt parse cap clock file st = apply_entries rt cap clock es st"
proof -
  from log_all_file [OF assms, of rt cap] obtain ls where ls:
    "\<And>file. log_all dump es file = Some (file @ file_of ls)" "\<forall>l\<in>set ls. newline \<notin> set l"
    "\<And>clock st. replay_lines rt parse cap clock ls st = apply_entries rt cap clock es st" by blast
  have "file_lines (file_of ls) = ls" using file_lines_file_of [OF ls(2), of "[]"] by simp
  with ls show ?thesis by (simp add: replay_def)
qed

section \<open>Properties\<close>

text \<open>
  The log round trip: writing any sequence of SET and DEL commands, with any binary keys and values,
  never throws, and replaying the file on any storage does exactly what the commands did, in order.
\<close>

theorem aof_replay_repeats_commands:
  assumes "json_documented dump parse (map entry_json es)" and "list_all int_ttl es"
  shows "\<exists>file. log_all dump es [] = Some file \<and>
    replay rt parse cap clock file st = apply_entries rt cap clock es st"
  by (rule replay_log [OF assms])

text \<open>Sample parameters for the witnesses below: a log of two commands.\<close>

definition sample_runtime :: "lru runtime" where
  "sample_runtime = \<lparr>rt_policy = lru_policy, rt_grow = (\<lambda>b n. b)\<rparr>"

definition sample_storage :: "lru storage" where
  "sample_storage = storage_init lru_init 1 1000 100"

definition sample_dump :: "json \<Rightarrow> string option" where
  "sample_dump j = Some (if j = set_entry ''k'' [CHR 0xFF] 5 then ''{S}'' else ''{D}'')"

definition sample_parse :: "string \<Rightarrow> json option" where
  "sample_parse l = (if l = ''{S}'' then Some (set_entry ''k'' [CHR 0xFF] 5)
     else if l = ''{D}'' then Some (del_entry ''k'') else None)"

lemma sample_documented:
  "json_documented sample_dump sample_parse (map entry_json [LogSet ''k'' [CHR 0xFF] 5, LogDel ''k''])"
  by (simp add: json_documented_def sample_dump_def sample_parse_def newline_def set_entry_def del_entry_def)

lemma aof_replay_repeats_commands_witness:
  "\<exists>file. log_all sample_dump [LogSet ''k'' [CHR 0xFF] 5, LogDel ''k''] [] = Some file \<and>
     replay sample_runtime sample_parse size_of (\<lambda>_. 0) file sample_storage =
       apply_entries sample_runtime size_of (\<lambda>_. 0) [LogSet ''k'' [CHR 0xFF] 5, LogDel ''k''] sample_storage"
  by (rule aof_replay_repeats_commands [OF sample_documented]) simp

text \<open>
  A torn last line is harmless on the next start: when a crash left a fragment that the JSON library
  does not accept after complete lines, replay does what the complete lines say.
\<close>

theorem aof_torn_tail_ignored:
  assumes "json_documented dump parse (map entry_json es)" and "list_all int_ttl es"
    and "newline \<notin> set torn" and "parse torn = None"
  shows "\<exists>file. log_all dump es [] = Some file \<and>
    replay rt parse cap clock (file @ torn) st = apply_entries rt cap clock es st"
proof -
  from log_all_file [OF assms(1,2), of rt cap] obtain ls where ls:
    "\<And>file. log_all dump es file = Some (file @ file_of ls)" "\<forall>l\<in>set ls. newline \<notin> set l"
    "\<And>clock st. replay_lines rt parse cap clock ls st = apply_entries rt cap clock es st" by blast
  have "file_lines (file_of ls @ torn) = ls @ file_lines torn" by (rule file_lines_file_of [OF ls(2)])
  moreover have "replay_lines rt parse cap c (file_lines torn) s = Some s" for c s
    using assms(3,4) by (cases "torn = []") (simp_all add: file_lines_last replay_line_def read_entry_def)
  ultimately show ?thesis
    using ls by (cases "apply_entries rt cap clock es st") (simp_all add: replay_def replay_lines_append)
qed

lemma aof_torn_tail_ignored_witness:
  "\<exists>file. log_all sample_dump [LogSet ''k'' [CHR 0xFF] 5, LogDel ''k''] [] = Some file \<and>
     replay sample_runtime sample_parse size_of (\<lambda>_. 0) (file @ ''{S'') sample_storage =
       apply_entries sample_runtime size_of (\<lambda>_. 0) [LogSet ''k'' [CHR 0xFF] 5, LogDel ''k''] sample_storage"
  by (rule aof_torn_tail_ignored [OF sample_documented]) (simp_all add: newline_def sample_parse_def)

text \<open>
  C35: The write after a crash is lost: the log is reopened for appending right behind the torn fragment, so
  the first command logged after the restart ends up on the fragment's line, and if the two together
  are no JSON text the next replay skips it.
\<close>

theorem aof_write_after_torn_tail_lost:
  assumes "json_documented dump parse (map entry_json (es @ [e]))" and "list_all int_ttl es"
    and "newline \<notin> set torn"
    and "\<And>line. dump (entry_json e) = Some line \<Longrightarrow> parse (torn @ line) = None"
  shows "\<exists>file file'. log_all dump es [] = Some file \<and> log_one dump e (file @ torn) = Some file' \<and>
    replay rt parse cap clock file' st = apply_entries rt cap clock es st"
proof -
  have "json_documented dump parse (map entry_json es)" using assms(1) by (simp add: json_documented_def)
  from log_all_file [OF this assms(2), of rt cap] obtain ls where ls:
    "\<And>file. log_all dump es file = Some (file @ file_of ls)" "\<forall>l\<in>set ls. newline \<notin> set l"
    "\<And>clock st. replay_lines rt parse cap clock ls st = apply_entries rt cap clock es st" by blast
  from entry_line [OF assms(1), of e] obtain line where
    line: "dump (entry_json e) = Some line" "newline \<notin> set line" by auto
  have one: "log_one dump e (file_of ls @ torn) = Some (file_of ls @ (torn @ line) @ [newline])"
    using log_one_line [of dump e line, OF line(1)] by (simp add: append_line_def)
  have "file_lines ((torn @ line) @ [newline]) = [torn @ line]"
    using file_lines_append_line [of "torn @ line" "[]"] assms(3) line(2) by simp
  then have "file_lines (file_of ls @ (torn @ line) @ [newline]) = ls @ [torn @ line]"
    using file_lines_file_of [OF ls(2), of "(torn @ line) @ [newline]"] by simp
  moreover have "replay_line rt parse cap c (torn @ line) s = Some s" for c s
    using assms(4) [OF line(1)] by (simp add: replay_line_def read_entry_def)
  ultimately have "replay rt parse cap clock (file_of ls @ (torn @ line) @ [newline]) st =
    apply_entries rt cap clock es st"
    using ls(3) by (cases "apply_entries rt cap clock es st") (simp_all add: replay_def replay_lines_append)
  with one ls(1) show ?thesis by auto
qed

lemma aof_write_after_torn_tail_lost_witness:
  "\<exists>file file'. log_all sample_dump [LogSet ''k'' [CHR 0xFF] 5] [] = Some file \<and>
     log_one sample_dump (LogDel ''k'') (file @ ''{S'') = Some file' \<and>
     replay sample_runtime sample_parse size_of (\<lambda>_. 0) file' sample_storage =
       apply_entries sample_runtime size_of (\<lambda>_. 0) [LogSet ''k'' [CHR 0xFF] 5] sample_storage"
proof (rule aof_write_after_torn_tail_lost)
  show "json_documented sample_dump sample_parse
    (map entry_json ([LogSet ''k'' [CHR 0xFF] 5] @ [LogDel ''k'']))"
    using sample_documented by simp
qed (auto simp: newline_def sample_parse_def sample_dump_def set_entry_def del_entry_def)

end
