(* ===== verification/Protocol.thy ===== *)
theory Protocol
  imports Stdlib Decimal
begin

text \<open>
  The incremental RESP2 parser (\<^verbatim>\<open>src/src/protocol.h\<close>, \<^verbatim>\<open>protocol.cpp\<close>). \<^verbatim>\<open>Parser::consume\<close> is a loop over
  a switch on the parser's state: \<open>consume_step\<close> is one turn of the loop, \<open>consume\<close> the loop. The
  byte range \<^verbatim>\<open>(data, len)\<close> is the list of its bytes. The parameter \<open>alloc\<close> says whether
  \<^verbatim>\<open>resize\<close> gets the memory it asks for; undefined behaviour (a \<^verbatim>\<open>memcpy\<close> past the argument's end,
  \<^verbatim>\<open>back()\<close> of an empty vector) is \<open>None\<close>.
\<close>

section \<open>Commands\<close>

datatype command_type = SET | GET | DEL | METRICS | PING | SELECT | UNKNOWN

record command =
  cmd_type :: command_type
  verb :: string
  cmd_args :: "string list"

definition command_default :: command where
  "command_default = \<lparr>cmd_type = UNKNOWN, verb = [], cmd_args = []\<rparr>"

section \<open>Header lines and numbers\<close>

datatype line_status = LNeedMore | LOk | LBad

fun read_line :: "string \<Rightarrow> string \<Rightarrow> line_status \<times> string \<times> string" where
  "read_line [] out = (LNeedMore, [], out)"
| "read_line (c # data) out =
     (if c = CHR 0x0A then
        (LOk, data, if out \<noteq> [] \<and> last out = CHR 0x0D then butlast out else out)
      else let out = out @ [c]
           in if length out > 32 then (LBad, data, out) else read_line data out)"

text \<open>The loop of \<^verbatim>\<open>parse_uint\<close> over \<^verbatim>\<open>unsigned long long\<close>; the result is cast to a signed \<^verbatim>\<open>long\<close>.\<close>

fun parse_digits :: "string \<Rightarrow> 64 word \<Rightarrow> 64 word option" where
  "parse_digits [] v = Some v"
| "parse_digits (c # text) v =
     (if \<not> is_digit c then None
      else parse_digits text (v * 10 + (of_char c - of_char (CHR ''0''))))"

definition parse_uint :: "string \<Rightarrow> int option" where
  "parse_uint text =
     (if text = [] \<or> length text > 18 then None
      else map_option sint (parse_digits text 0))"

section \<open>Classification\<close>

text \<open>\<^verbatim>\<open>toupper\<close> in the default C locale, the only one the program runs in.\<close>

definition to_upper :: "char \<Rightarrow> char" where
  "to_upper c = (if char_le (CHR ''a'') c \<and> char_le c (CHR ''z'')
                 then char_of (of_char c - 32 :: nat) else c)"

definition command_of_verb :: "string \<Rightarrow> command_type" where
  "command_of_verb upper =
     (if upper = ''SET'' then SET
      else if upper = ''GET'' then GET
      else if upper = ''DEL'' then DEL
      else if upper = ''METRICS'' then METRICS
      else if upper = ''PING'' then PING
      else if upper = ''SELECT'' then SELECT
      else UNKNOWN)"

fun classify :: "string list \<Rightarrow> command" where
  "classify [] = command_default"
| "classify (v # args) =
     \<lparr>cmd_type = command_of_verb (map to_upper v), verb = v, cmd_args = args\<rparr>"

section \<open>The parser\<close>

datatype parser_state = ArrayLen | BulkLen | Payload | Trailer | TrailerLf | PReady | Failed

datatype status = NeedMore | Ready | Error

record parser =
  max_bulk_len :: size_t
  p_state :: parser_state
  header :: string
  error :: string
  argc :: int
  arg_index :: int
  bulk_len :: size_t
  bulk_read :: size_t
  p_args :: "string list"

definition kMaxArgs :: int where "kMaxArgs = 1024"

definition parser_init :: "size_t \<Rightarrow> parser" where
  "parser_init m = \<lparr>max_bulk_len = m, p_state = ArrayLen, header = [], error = [],
     argc = 0, arg_index = 0, bulk_len = 0, bulk_read = 0, p_args = []\<rparr>"

definition fail :: "string \<Rightarrow> parser \<Rightarrow> parser" where
  "fail message p = p\<lparr>p_state := Failed, error := message\<rparr>"

text \<open>\<^verbatim>\<open>memcpy(buffer.data() + offset, src, src.size())\<close>\<close>

definition memcpy :: "string \<Rightarrow> nat \<Rightarrow> string \<Rightarrow> string option" where
  "memcpy buf offset src =
     (if offset + length src \<le> length buf
      then Some (take offset buf @ src @ drop (offset + length src) buf) else None)"

text \<open>\<open>Inl\<close>: the loop continues with the rest of the input; \<open>Inr\<close>: \<^verbatim>\<open>consume\<close> returns.\<close>

type_synonym outcome = "status \<times> parser \<times> string \<times> command"

definition next_arg :: "parser \<Rightarrow> parser" where
  "next_arg p = (let i = arg_index p + 1
     in p\<lparr>arg_index := i, p_state := if i < argc p then BulkLen else PReady\<rparr>)"

definition array_header :: "parser \<Rightarrow> string \<Rightarrow> command \<Rightarrow> (parser \<times> string) + outcome" where
  "array_header p data out = (case read_line data (header p) of
     (LNeedMore, data, h) \<Rightarrow> Inr (NeedMore, p\<lparr>header := h\<rparr>, data, out)
   | (LBad, data, h) \<Rightarrow> Inr (Error, fail ''invalid array header'' (p\<lparr>header := h\<rparr>), data, out)
   | (LOk, data, h) \<Rightarrow>
       let p = p\<lparr>header := []\<rparr>
       in (case (if h = [] \<or> h ! 0 \<noteq> CHR ''*'' then None else parse_uint (tl h)) of
             None \<Rightarrow> Inr (Error, fail ''invalid array length'' p, data, out)
           | Some count \<Rightarrow>
               if count > kMaxArgs then Inr (Error, fail ''too many arguments'' p, data, out)
               else let p = p\<lparr>argc := count, arg_index := 0, p_args := []\<rparr>
                    in Inl (p\<lparr>p_state := if count = 0 then PReady else BulkLen\<rparr>, data)))"

definition bulk_header ::
  "(size_t \<Rightarrow> bool) \<Rightarrow> parser \<Rightarrow> string \<Rightarrow> command \<Rightarrow> (parser \<times> string) + outcome" where
  "bulk_header alloc p data out = (case read_line data (header p) of
     (LNeedMore, data, h) \<Rightarrow> Inr (NeedMore, p\<lparr>header := h\<rparr>, data, out)
   | (LBad, data, h) \<Rightarrow> Inr (Error, fail ''invalid bulk header'' (p\<lparr>header := h\<rparr>), data, out)
   | (LOk, data, h) \<Rightarrow>
       let p = p\<lparr>header := []\<rparr>
       in (case (if h = [] \<or> h ! 0 \<noteq> CHR ''$'' then None else parse_uint (tl h)) of
             None \<Rightarrow> Inr (Error, fail ''invalid bulk length'' p, data, out)
           | Some declared \<Rightarrow>
               let n = word_of_int declared :: size_t
               in if n > max_bulk_len p
                  then Inr (Error, fail ''bulk length exceeds max-value-size'' p, data, out)
                  else if \<not> alloc n
                  then Inr (Error, fail ''out of memory'' (p\<lparr>p_args := p_args p @ [[]]\<rparr>), data, out)
                  else let p = p\<lparr>p_args := p_args p @ [replicate (unat n) (CHR 0x00)]\<rparr>
                       in Inl (p\<lparr>bulk_len := n, bulk_read := 0,
                                 p_state := if n = 0 then Trailer else Payload\<rparr>, data)))"

definition payload_bytes ::
  "parser \<Rightarrow> string \<Rightarrow> command \<Rightarrow> ((parser \<times> string) + outcome) option" where
  "payload_bytes p data out =
     (let need = bulk_len p - bulk_read p;
          n = min (unat need) (length data)
      in do {
        (p, data) \<leftarrow>
          (if n > 0 then do {
             buf \<leftarrow> (if p_args p = [] then None else Some (last (p_args p)));
             buf \<leftarrow> memcpy buf (unat (bulk_read p)) (take n data);
             Some (p\<lparr>p_args := butlast (p_args p) @ [buf], bulk_read := bulk_read p + of_nat n\<rparr>,
                   drop n data) }
           else Some (p, data));
        Some (if bulk_read p < bulk_len p then Inr (NeedMore, p, data, out)
              else Inl (p\<lparr>p_state := Trailer\<rparr>, data)) })"

fun trailer :: "parser \<Rightarrow> string \<Rightarrow> command \<Rightarrow> (parser \<times> string) + outcome" where
  "trailer p [] out = Inr (NeedMore, p, [], out)"
| "trailer p (c # data) out =
     (if c = CHR 0x0D then Inl (p\<lparr>p_state := TrailerLf\<rparr>, data)
      else if c = CHR 0x0A then Inl (next_arg p, data)
      else Inr (Error, fail ''expected CRLF after bulk payload'' p, data, out))"

fun trailer_lf :: "parser \<Rightarrow> string \<Rightarrow> command \<Rightarrow> (parser \<times> string) + outcome" where
  "trailer_lf p [] out = Inr (NeedMore, p, [], out)"
| "trailer_lf p (c # data) out =
     (if c \<noteq> CHR 0x0A then Inr (Error, fail ''expected LF after CR'' p, data, out)
      else Inl (next_arg p, data))"

definition consume_step ::
  "(size_t \<Rightarrow> bool) \<Rightarrow> parser \<Rightarrow> string \<Rightarrow> command \<Rightarrow> ((parser \<times> string) + outcome) option" where
  "consume_step alloc p data out = (case p_state p of
     PReady \<Rightarrow>
       Some (Inr (Ready, p\<lparr>p_args := [], p_state := ArrayLen\<rparr>, data, classify (p_args p)))
   | Failed \<Rightarrow> Some (Inr (Error, p, data, out))
   | ArrayLen \<Rightarrow> Some (array_header p data out)
   | BulkLen \<Rightarrow> Some (bulk_header alloc p data out)
   | Payload \<Rightarrow> payload_bytes p data out
   | Trailer \<Rightarrow> Some (trailer p data out)
   | TrailerLf \<Rightarrow> Some (trailer_lf p data out))"

section \<open>The loop ends\<close>

lemma read_line_shorter: "read_line data out = (LOk, rest, h) \<Longrightarrow> length rest < length data"
  by (induction data out rule: read_line.induct) (force simp: Let_def split: if_splits)+

lemma array_header_shorter: "array_header p data out = Inl (p', rest) \<Longrightarrow> length rest < length data"
  by (auto simp: array_header_def Let_def
      split: prod.splits line_status.splits option.splits if_splits dest!: read_line_shorter)

lemma bulk_header_shorter: "bulk_header alloc p data out = Inl (p', rest) \<Longrightarrow> length rest < length data"
  by (auto simp: bulk_header_def Let_def
      split: prod.splits line_status.splits option.splits if_splits dest!: read_line_shorter)

lemma payload_shorter:
  "payload_bytes p data out = Some (Inl (p', rest)) \<Longrightarrow> length rest \<le> length data \<and> p_state p' = Trailer"
  by (auto simp: payload_bytes_def Let_def bind_Some_iff split: if_splits)

lemma trailer_shorter: "trailer p data out = Inl (p', rest) \<Longrightarrow> length rest < length data"
  by (cases data) (auto split: if_splits)

lemma trailer_lf_shorter: "trailer_lf p data out = Inl (p', rest) \<Longrightarrow> length rest < length data"
  by (cases data) (auto split: if_splits)

lemma consume_step_progress:
  assumes "consume_step alloc p data out = Some (Inl (p', rest))"
  shows "length rest < length data \<or>
    length rest = length data \<and> p_state p = Payload \<and> p_state p' \<noteq> Payload"
  using assms
  by (auto simp: consume_step_def split: parser_state.splits
      dest: array_header_shorter bulk_header_shorter payload_shorter trailer_shorter trailer_lf_shorter)

text \<open>
  Every turn consumes a byte, except the one that leaves the payload state: the loop returns for
  every input.
\<close>

function consume :: "(size_t \<Rightarrow> bool) \<Rightarrow> parser \<Rightarrow> string \<Rightarrow> command \<Rightarrow> outcome option" where
  "consume alloc p data out = (case consume_step alloc p data out of
     None \<Rightarrow> None
   | Some (Inl (p', rest)) \<Rightarrow> consume alloc p' rest out
   | Some (Inr r) \<Rightarrow> Some r)"
  by pat_completeness auto
termination
  by (relation "measures [\<lambda>(_, _, data, _). length data,
                          \<lambda>(_, p, _, _). if p_state p = Payload then 1 else 0]")
    (auto dest: consume_step_progress)

declare consume.simps [simp del]

end
