(* ===== verification/ParserInv.thy ===== *)
theory ParserInv
  imports Protocol
begin

text \<open>
  The invariant of the RESP2 parser and what one turn of its loop does: no undefined behaviour, the
  bounds on everything the parser keeps between calls, and how a turn on a prefix of the input
  relates to a turn on all of it.
\<close>

section \<open>Numbers in headers\<close>

lemma digit_word: "is_digit c \<Longrightarrow> (of_char c - of_char (CHR ''0'') :: 64 word) = of_nat (digit_val c)"
proof -
  assume "is_digit c"
  then have "48 \<le> (of_char c :: nat)" by (simp add: is_digit_nat)
  then have "(of_nat (digit_val c) :: 64 word) = of_nat (of_char c) - 48"
    by (simp add: digit_val_def)
  moreover have "(of_char c :: 64 word) = of_nat (of_char c)" by (simp only: of_nat_of_char)
  ultimately show ?thesis by (simp only:) simp
qed

lemma parse_digits_nat:
  "parse_digits t (of_nat n) =
     (if list_all is_digit t
      then Some (of_nat (foldl (\<lambda>v c. v * 10 + digit_val c) n t)) else None)"
proof (induction t arbitrary: n)
  case (Cons c t)
  show ?case
  proof (cases "is_digit c")
    case True
    have "(of_nat n * 10 + of_nat (digit_val c) :: 64 word) = of_nat (n * 10 + digit_val c)" by simp
    with True Cons.IH [of "n * 10 + digit_val c"] show ?thesis
      by (simp only: parse_digits.simps digit_word list.pred_inject foldl_Cons if_False simp_thms)
  qed simp
qed simp

lemma parse_uint_eq:
  "parse_uint t =
     (if t \<noteq> [] \<and> length t \<le> 18 \<and> list_all is_digit t then Some (int (dec_value t)) else None)"
proof (cases "t \<noteq> [] \<and> length t \<le> 18 \<and> list_all is_digit t")
  case True
  then have "dec_value t < 10 ^ length t" by (simp add: dec_value_bound)
  also have "\<dots> \<le> (10::nat) ^ 18" using True by (intro power_increasing) auto
  finally have small: "dec_value t < 10 ^ 18" .
  have "sint (of_nat (dec_value t) :: 64 word) = int (dec_value t)"
    using small by (simp add: signed_of_nat signed_take_bit_int_eq_self)
  with True parse_digits_nat [of t 0] show ?thesis
    by (simp add: parse_uint_def dec_value_def)
next
  case False
  with parse_digits_nat [of t 0] show ?thesis by (auto simp: parse_uint_def)
qed

lemma parse_uint_bounds: "parse_uint t = Some v \<Longrightarrow> 0 \<le> v \<and> v < 10 ^ 18"
proof -
  assume a: "parse_uint t = Some v"
  then have t: "length t \<le> 18" "list_all is_digit t" "v = int (dec_value t)"
    by (auto simp: parse_uint_eq split: if_splits)
  then have "dec_value t < 10 ^ length t" by (simp add: dec_value_bound)
  also have "\<dots> \<le> (10::nat) ^ 18" using t by (intro power_increasing) auto
  finally show ?thesis using t(3) by simp
qed

section \<open>The invariant\<close>

definition parser_inv :: "parser \<Rightarrow> bool" where
  "parser_inv p \<longleftrightarrow>
     0 \<le> argc p \<and> argc p \<le> kMaxArgs \<and> int (length (p_args p)) \<le> kMaxArgs \<and>
     (\<forall>a\<in>set (p_args p). length a \<le> unat (max_bulk_len p)) \<and>
     length (header p) \<le> (if p_state p = Failed then 33 else 32) \<and>
     (case p_state p of
        ArrayLen \<Rightarrow> p_args p = []
      | BulkLen \<Rightarrow> int (length (p_args p)) = arg_index p \<and> arg_index p < argc p
      | Payload \<Rightarrow> int (length (p_args p)) = arg_index p + 1 \<and> 0 \<le> arg_index p \<and> arg_index p < argc p \<and>
          length (last (p_args p)) = unat (bulk_len p) \<and> bulk_read p < bulk_len p
      | Trailer \<Rightarrow> int (length (p_args p)) = arg_index p + 1 \<and> arg_index p < argc p
      | TrailerLf \<Rightarrow> int (length (p_args p)) = arg_index p + 1 \<and> arg_index p < argc p
      | PReady \<Rightarrow> int (length (p_args p)) = argc p
      | Failed \<Rightarrow> True)"

fun result_parser :: "(parser \<times> string) + outcome \<Rightarrow> parser" where
  "result_parser (Inl (p, data)) = p"
| "result_parser (Inr (st, p, data, out)) = p"

lemma parser_inv_init: "parser_inv (parser_init m)"
  by (simp add: parser_inv_def parser_init_def kMaxArgs_def)

lemma read_line_header:
  "read_line data out = (s, rest, h) \<Longrightarrow> length out \<le> 32 \<Longrightarrow> length h \<le> (if s = LBad then 33 else 32)"
proof (induction data out rule: read_line.induct)
  case (2 c data out)
  show ?case
  proof (cases "c = CHR 0x0A")
    case True
    with 2 show ?thesis by (auto split: if_splits)
  next
    case False
    show ?thesis
    proof (cases "length (out @ [c]) > 32")
      case True
      with False 2 show ?thesis by auto
    next
      case small: False
      from False small "2.prems"(1) have "read_line data (out @ [c]) = (s, rest, h)" by simp
      with "2.IH" [OF False refl small] small show ?thesis by simp
    qed
  qed
qed auto

lemma array_header_inv:
  assumes "parser_inv p" and "p_state p = ArrayLen"
  shows "parser_inv (result_parser (array_header p data out))"
proof -
  obtain s rest h where rl: "read_line data (header p) = (s, rest, h)" by (metis prod_cases3)
  with assms have h: "length h \<le> (if s = LBad then 33 else 32)"
    using read_line_header [of data "header p"] by (auto simp: parser_inv_def)
  show ?thesis
  proof (cases s)
    case LOk
    show ?thesis
    proof (cases "if h = [] \<or> h ! 0 \<noteq> CHR ''*'' then None else parse_uint (tl h)")
      case None
      with rl LOk assms show ?thesis by (simp add: array_header_def parser_inv_def fail_def)
    next
      case (Some v)
      then have "0 \<le> v" using parse_uint_bounds by (auto split: if_splits)
      with rl LOk assms Some show ?thesis
        by (auto simp: array_header_def parser_inv_def fail_def Let_def)
    qed
  qed (use rl h assms in \<open>auto simp: array_header_def parser_inv_def fail_def\<close>)
qed

lemma bulk_header_inv:
  assumes "parser_inv p" and "p_state p = BulkLen"
  shows "parser_inv (result_parser (bulk_header alloc p data out))"
proof -
  obtain s rest h where rl: "read_line data (header p) = (s, rest, h)" by (metis prod_cases3)
  with assms have h: "length h \<le> (if s = LBad then 33 else 32)"
    using read_line_header [of data "header p"] by (auto simp: parser_inv_def)
  show ?thesis
  proof (cases s)
    case LOk
    show ?thesis
    proof (cases "if h = [] \<or> h ! 0 \<noteq> CHR ''$'' then None else parse_uint (tl h)")
      case None
      with rl LOk assms show ?thesis by (simp add: bulk_header_def parser_inv_def fail_def)
    next
      case (Some v)
      define n where "n = (word_of_int v :: size_t)"
      have "bulk_header alloc p data out =
        (if n > max_bulk_len p
         then Inr (Error, fail ''bulk length exceeds max-value-size'' (p\<lparr>header := []\<rparr>), rest, out)
         else if \<not> alloc n
         then Inr (Error, fail ''out of memory'' (p\<lparr>header := [], p_args := p_args p @ [[]]\<rparr>), rest, out)
         else Inl (p\<lparr>header := [], p_args := p_args p @ [replicate (unat n) (CHR 0x00)],
                     bulk_len := n, bulk_read := 0,
                     p_state := if n = 0 then Trailer else Payload\<rparr>, rest))"
        using rl LOk Some by (simp add: bulk_header_def Let_def n_def)
      with assms show ?thesis
        by (auto simp: parser_inv_def fail_def word_le_nat_alt not_less word_gt_0)
    qed
  qed (use rl h assms in \<open>auto simp: bulk_header_def parser_inv_def fail_def\<close>)
qed

text \<open>What the payload state does, with the bounds of its copy discharged.\<close>

lemma payload_eq:
  fixes data :: string and p :: parser
  assumes inv: "parser_inv p" and st: "p_state p = Payload"
  defines "b \<equiv> last (p_args p)" and "r \<equiv> unat (bulk_read p)"
    and "need \<equiv> unat (bulk_len p) - unat (bulk_read p)"
  defines "n \<equiv> min need (length data)"
  defines "p' \<equiv> p\<lparr>p_args := butlast (p_args p) @ [take r b @ take n data @ drop (r + n) b],
                   bulk_read := bulk_read p + of_nat n\<rparr>"
  shows "payload_bytes p data out =
    Some (if length data < need then Inr (NeedMore, p', [], out)
          else Inl (p'\<lparr>p_state := Trailer\<rparr>, drop n data))"
    and "unat (bulk_read p') = r + n"
proof -
  have ne: "p_args p \<noteq> []" and len: "length b = unat (bulk_len p)" and lt: "bulk_read p < bulk_len p"
    using inv st by (auto simp: parser_inv_def b_def)
  have need: "unat (bulk_len p - bulk_read p) = need"
    using lt by (simp add: need_def unat_sub order_less_imp_le)
  have n: "n \<le> need" by (simp add: n_def)
  have rn: "r + n \<le> unat (bulk_len p)" using n lt by (simp add: r_def need_def word_less_nat_alt)
  moreover have "unat (bulk_len p) < 2 ^ LENGTH(64)" by (rule unsigned_less)
  ultimately have small: "r + n < 2 ^ 64" by simp
  have "bulk_read p + of_nat n = of_nat (r + n)" by (simp add: r_def)
  then have sum: "unat (bulk_read p + of_nat n) = r + n" using small by (simp only: unat_of_nat) simp
  then show rd: "unat (bulk_read p') = r + n" by (simp add: p'_def)
  have fin: "bulk_read p' < bulk_len p \<longleftrightarrow> length data < need"
    using rd rn lt n by (auto simp: word_less_nat_alt n_def need_def r_def)
  have copy: "memcpy b r (take n data) = Some (take r b @ take n data @ drop (r + n) b)"
    using rn len by (simp add: memcpy_def n_def)
  have step: "(if n > 0 then do {
             buf \<leftarrow> (if p_args p = [] then None else Some (last (p_args p)));
             buf \<leftarrow> memcpy buf (unat (bulk_read p)) (take n data);
             Some (p\<lparr>p_args := butlast (p_args p) @ [buf], bulk_read := bulk_read p + of_nat n\<rparr>,
                   drop n data) }
           else Some (p, data)) = Some (p', drop n data)"
  proof (cases "n > 0")
    case True
    with ne copy show ?thesis by (simp add: b_def r_def p'_def)
  next
    case False
    have "butlast (p_args p) @ [b] = p_args p" using ne by (simp add: b_def)
    with False show ?thesis by (simp add: p'_def)
  qed
  show "payload_bytes p data out =
    Some (if length data < need then Inr (NeedMore, p', [], out)
          else Inl (p'\<lparr>p_state := Trailer\<rparr>, drop n data))"
    unfolding payload_bytes_def Let_def need n_def [symmetric] step
    using fin by (simp add: p'_def n_def)
qed

lemma payload_inv:
  assumes inv: "parser_inv p" and st: "p_state p = Payload"
  shows "\<exists>r. payload_bytes p data out = Some r \<and> parser_inv (result_parser r)"
proof -
  define b where "b = last (p_args p)"
  define need where "need = unat (bulk_len p) - unat (bulk_read p)"
  define n where "n = min need (length data)"
  define buf where "buf = take (unat (bulk_read p)) b @ take n data @ drop (unat (bulk_read p) + n) b"
  define p' where "p' = p\<lparr>p_args := butlast (p_args p) @ [buf], bulk_read := bulk_read p + of_nat n\<rparr>"
  note eq = payload_eq [OF inv st, of data, folded b_def need_def n_def buf_def p'_def]
  have ne: "p_args p \<noteq> []" and len: "length b = unat (bulk_len p)" and lt: "bulk_read p < bulk_len p"
    using inv st by (auto simp: parser_inv_def b_def)
  have "b \<in> set (p_args p)" using ne by (simp add: b_def)
  then have bnd: "length b \<le> unat (max_bulk_len p)" using inv by (simp add: parser_inv_def)
  have rn: "unat (bulk_read p) + n \<le> length b"
    using lt by (simp add: n_def need_def len word_less_nat_alt)
  have buf: "length buf = length b" using rn by (auto simp: buf_def n_def)
  have all: "\<forall>a\<in>set (butlast (p_args p) @ [buf]). length a \<le> unat (max_bulk_len p)"
    using inv bnd buf by (auto simp: parser_inv_def dest: in_set_butlastD)
  have cnt: "length (butlast (p_args p) @ [buf]) = length (p_args p)" using ne by simp
  have "parser_inv (p'\<lparr>p_state := Trailer\<rparr>)"
    using inv st all cnt by (simp add: parser_inv_def p'_def)
  moreover have "length data < need \<Longrightarrow> parser_inv p'"
    using inv st all cnt buf len eq(2) lt
    by (simp add: parser_inv_def p'_def word_less_nat_alt n_def need_def)
  ultimately show ?thesis by (simp add: eq(1) p'_def buf_def)
qed

lemma next_arg_inv:
  "parser_inv p \<Longrightarrow> p_state p = Trailer \<or> p_state p = TrailerLf \<Longrightarrow> parser_inv (next_arg p)"
  by (auto simp: parser_inv_def next_arg_def Let_def)

lemma trailer_inv:
  "parser_inv p \<Longrightarrow> p_state p = Trailer \<Longrightarrow> parser_inv (result_parser (trailer p data out))"
  by (cases data) (auto simp: next_arg_inv, auto simp: parser_inv_def fail_def)

lemma trailer_lf_inv:
  "parser_inv p \<Longrightarrow> p_state p = TrailerLf \<Longrightarrow> parser_inv (result_parser (trailer_lf p data out))"
  by (cases data) (auto simp: next_arg_inv, auto simp: parser_inv_def fail_def)

lemma consume_step_inv:
  assumes inv: "parser_inv p"
  shows "\<exists>r. consume_step alloc p data out = Some r \<and> parser_inv (result_parser r)"
proof (cases "p_state p")
  case PReady
  with inv show ?thesis by (simp add: consume_step_def parser_inv_def kMaxArgs_def)
qed (use inv array_header_inv [OF inv] bulk_header_inv [OF inv] payload_inv [OF inv]
      trailer_inv [OF inv] trailer_lf_inv [OF inv] in \<open>simp_all add: consume_step_def\<close>)

lemma consume_inv:
  "parser_inv p \<Longrightarrow> \<exists>st p' rest c. consume alloc p data out = Some (st, p', rest, c) \<and> parser_inv p'"
proof (induction alloc p data out rule: consume.induct)
  case (1 alloc p data out)
  from consume_step_inv [OF 1(2)] obtain r where
    r: "consume_step alloc p data out = Some r" "parser_inv (result_parser r)" by blast
  show ?case
  proof (cases r)
    case (Inl a)
    then obtain p' rest where a: "r = Inl (p', rest)" by (cases a) simp
    with r have "parser_inv p'" by simp
    with 1(1) [OF r(1) a refl] r(1) a show ?thesis by (simp add: consume.simps [of alloc p])
  next
    case (Inr a)
    with r show ?thesis by (cases a) (simp add: consume.simps [of alloc p])
  qed
qed

section \<open>The configured limit never changes\<close>

lemma next_arg_max [simp]: "max_bulk_len (next_arg p) = max_bulk_len p"
  by (simp add: next_arg_def Let_def)

lemma consume_step_max:
  assumes inv: "parser_inv p" and step: "consume_step alloc p data out = Some r"
  shows "max_bulk_len (result_parser r) = max_bulk_len p"
proof (cases "p_state p")
  case ArrayLen
  with step show ?thesis
    by (auto simp: consume_step_def array_header_def fail_def Let_def
        split: prod.splits line_status.splits option.splits if_splits)
next
  case BulkLen
  with step show ?thesis
    by (auto simp: consume_step_def bulk_header_def fail_def Let_def
        split: prod.splits line_status.splits option.splits if_splits)
next
  case Payload
  with step show ?thesis
    using payload_eq(1) [OF inv Payload, of data] by (auto simp: consume_step_def split: if_splits)
next
  case Trailer
  with step show ?thesis
    by (cases data) (auto simp: consume_step_def fail_def split: if_splits)
next
  case TrailerLf
  with step show ?thesis
    by (cases data) (auto simp: consume_step_def fail_def split: if_splits)
qed (use step in \<open>auto simp: consume_step_def\<close>)

section \<open>A turn on a prefix of the input\<close>

lemma read_line_more:
  "read_line xs h = (LNeedMore, rest, h') \<Longrightarrow> rest = [] \<and> read_line (xs @ ys) h = read_line ys h'"
  by (induction xs h rule: read_line.induct) (auto simp: Let_def split: if_splits)

lemma read_line_done:
  "read_line xs h = (s, rest, h') \<Longrightarrow> s \<noteq> LNeedMore \<Longrightarrow> read_line (xs @ ys) h = (s, rest @ ys, h')"
  by (induction xs h rule: read_line.induct) (auto simp: Let_def split: if_splits)

fun extend :: "string \<Rightarrow> (parser \<times> string) + outcome \<Rightarrow> (parser \<times> string) + outcome" where
  "extend ys (Inl (p, data)) = Inl (p, data @ ys)"
| "extend ys (Inr (st, p, data, out)) = Inr (st, p, data @ ys, out)"

fun wants_more :: "(parser \<times> string) + outcome \<Rightarrow> bool" where
  "wants_more (Inl r) = False"
| "wants_more (Inr (st, r)) = (st = NeedMore)"

lemma array_header_append:
  shows "\<not> wants_more (array_header p xs out) \<Longrightarrow>
      array_header p (xs @ ys) out = extend ys (array_header p xs out)"
    and "array_header p xs out = Inr (NeedMore, p', rest, c) \<Longrightarrow>
      rest = [] \<and> c = out \<and> p_state p' = p_state p \<and> array_header p (xs @ ys) out = array_header p' ys out"
proof -
  obtain s rest' h where rl: "read_line xs (header p) = (s, rest', h)" by (metis prod_cases3)
  note more = read_line_more [of xs "header p" rest' h ys] and done' = read_line_done [OF rl, of ys]
  show "\<not> wants_more (array_header p xs out) \<Longrightarrow>
      array_header p (xs @ ys) out = extend ys (array_header p xs out)"
    using rl done' by (cases s) (simp_all add: array_header_def Let_def split: option.split)
  show "array_header p xs out = Inr (NeedMore, p', rest, c) \<Longrightarrow>
      rest = [] \<and> c = out \<and> p_state p' = p_state p \<and> array_header p (xs @ ys) out = array_header p' ys out"
    using rl more
    by (cases s; cases "read_line ys h"; cases "fst (read_line ys h)")
      (auto simp: array_header_def Let_def split: option.splits if_splits)
qed

lemma bulk_header_append:
  shows "\<not> wants_more (bulk_header alloc p xs out) \<Longrightarrow>
      bulk_header alloc p (xs @ ys) out = extend ys (bulk_header alloc p xs out)"
    and "bulk_header alloc p xs out = Inr (NeedMore, p', rest, c) \<Longrightarrow>
      rest = [] \<and> c = out \<and> p_state p' = p_state p \<and>
      bulk_header alloc p (xs @ ys) out = bulk_header alloc p' ys out"
proof -
  obtain s rest' h where rl: "read_line xs (header p) = (s, rest', h)" by (metis prod_cases3)
  note more = read_line_more [of xs "header p" rest' h ys] and done' = read_line_done [OF rl, of ys]
  show "\<not> wants_more (bulk_header alloc p xs out) \<Longrightarrow>
      bulk_header alloc p (xs @ ys) out = extend ys (bulk_header alloc p xs out)"
    using rl done' by (cases s) (simp_all add: bulk_header_def Let_def split: option.split)
  show "bulk_header alloc p xs out = Inr (NeedMore, p', rest, c) \<Longrightarrow>
      rest = [] \<and> c = out \<and> p_state p' = p_state p \<and>
      bulk_header alloc p (xs @ ys) out = bulk_header alloc p' ys out"
    using rl more
    by (cases s; cases "read_line ys h"; cases "fst (read_line ys h)")
      (auto simp: bulk_header_def Let_def split: option.splits if_splits)
qed

lemma payload_append:
  assumes inv: "parser_inv p" and st: "p_state p = Payload"
    and r: "payload_bytes p xs out = Some r"
  shows "\<not> wants_more r \<Longrightarrow> payload_bytes p (xs @ ys) out = Some (extend ys r)"
    and "r = Inr (NeedMore, p', rest, c) \<Longrightarrow>
      rest = [] \<and> c = out \<and> p_state p' = p_state p \<and>
      payload_bytes p (xs @ ys) out = payload_bytes p' ys out"
proof -
  define need where "need = unat (bulk_len p) - unat (bulk_read p)"
  note eq = payload_eq [OF inv st, of xs, folded need_def] payload_eq [OF inv st, of "xs @ ys", folded need_def]
  show "\<not> wants_more r \<Longrightarrow> payload_bytes p (xs @ ys) out = Some (extend ys r)"
    using r eq(1,3) by (auto split: if_splits)
  assume m: "r = Inr (NeedMore, p', rest, c)"
  with r eq(1) [of out] have short: "length xs < need" and rest: "rest = []" "c = out"
    and p': "p' = p\<lparr>p_args := butlast (p_args p) @
        [take (unat (bulk_read p)) (last (p_args p)) @ xs @
         drop (unat (bulk_read p) + length xs) (last (p_args p))],
      bulk_read := bulk_read p + of_nat (length xs)\<rparr>"
    by (auto split: if_splits)
  have inv': "parser_inv p'" using payload_inv [OF inv st, of xs out] r m by simp
  have st': "p_state p' = Payload" using st p' by simp
  have rd: "unat (bulk_read p') = unat (bulk_read p) + length xs"
    using eq(2) short by (simp add: p')
  have need': "unat (bulk_len p') - unat (bulk_read p') = need - length xs"
    using rd by (simp add: p' need_def)
  have len: "unat (bulk_read p) \<le> length (last (p_args p))"
    using inv st by (simp add: parser_inv_def word_less_nat_alt)
  have mn: "min need (length xs + length ys) = length xs + min (need - length xs) (length ys)"
    using short by simp
  have "payload_bytes p' ys out = payload_bytes p (xs @ ys) out"
    unfolding eq(3) payload_eq(1) [OF inv' st', of ys, unfolded need'] rd
    using short len by (auto simp: p' mn algebra_simps)
  with rest st st' show "rest = [] \<and> c = out \<and> p_state p' = p_state p \<and>
      payload_bytes p (xs @ ys) out = payload_bytes p' ys out" by simp
qed

lemma trailer_append:
  shows "\<not> wants_more (trailer p xs out) \<Longrightarrow> trailer p (xs @ ys) out = extend ys (trailer p xs out)"
    and "trailer p xs out = Inr (NeedMore, p', rest, c) \<Longrightarrow> xs = [] \<and> rest = [] \<and> p' = p \<and> c = out"
  by (cases xs; simp split: if_splits)+

lemma trailer_lf_append:
  shows "\<not> wants_more (trailer_lf p xs out) \<Longrightarrow> trailer_lf p (xs @ ys) out = extend ys (trailer_lf p xs out)"
    and "trailer_lf p xs out = Inr (NeedMore, p', rest, c) \<Longrightarrow> xs = [] \<and> rest = [] \<and> p' = p \<and> c = out"
  by (cases xs; simp split: if_splits)+

text \<open>
  A turn that does not run out of input does the same with more input behind it; a turn that does has
  read everything, and the next one goes on as if the input had come in one piece.
\<close>

lemma consume_step_append:
  assumes inv: "parser_inv p" and r: "consume_step alloc p xs out = Some r"
  shows "\<not> wants_more r \<Longrightarrow> consume_step alloc p (xs @ ys) out = Some (extend ys r)"
    and "r = Inr (NeedMore, p', rest, c) \<Longrightarrow> rest = [] \<and> c = out \<and>
      consume_step alloc p (xs @ ys) out = consume_step alloc p' ys out"
proof -
  show "\<not> wants_more r \<Longrightarrow> consume_step alloc p (xs @ ys) out = Some (extend ys r)"
    using r payload_append(1) [OF inv, of xs out r ys]
    by (auto simp: consume_step_def array_header_append(1) bulk_header_append(1)
        trailer_append(1) trailer_lf_append(1) split: parser_state.splits)
  assume m: "r = Inr (NeedMore, p', rest, c)"
  show "rest = [] \<and> c = out \<and> consume_step alloc p (xs @ ys) out = consume_step alloc p' ys out"
    using r m payload_append(2) [OF inv, of xs out r p' rest c ys]
      array_header_append(2) [of p xs out p' rest c ys] bulk_header_append(2) [of alloc p xs out p' rest c ys]
      trailer_append(2) [of p xs out p' rest c] trailer_lf_append(2) [of p xs out p' rest c]
    by (cases "p_state p") (auto simp: consume_step_def)
qed

section \<open>A whole call on a prefix of the input\<close>

lemma consume_append:
  assumes "parser_inv p" and "consume alloc p xs out = Some (st, p', rest, c)"
  shows "if st = NeedMore
    then rest = [] \<and> c = out \<and> consume alloc p (xs @ ys) out = consume alloc p' ys out
    else consume alloc p (xs @ ys) out = Some (st, p', rest @ ys, c)"
  using assms
proof (induction alloc p xs out rule: consume.induct)
  case (1 alloc p xs out)
  from consume_step_inv [OF 1(2), of alloc xs out] obtain r where
    r: "consume_step alloc p xs out = Some r" "parser_inv (result_parser r)" by blast
  note app = consume_step_append [OF 1(2) r(1), where ys = ys]
  show ?case
  proof (cases r)
    case (Inl a)
    then obtain q d where a: "r = Inl (q, d)" by (cases a) simp
    with r 1(3) have q: "parser_inv q" "consume alloc q d out = Some (st, p', rest, c)"
      by (simp_all add: consume.simps [of alloc p])
    have "consume alloc p (xs @ ys) out = consume alloc q (d @ ys) out"
      using app(1) a by (simp add: consume.simps [of alloc p])
    with 1(1) [OF r(1) a refl q] show ?thesis by simp
  next
    case (Inr a)
    with r 1(3) have a: "r = Inr (st, p', rest, c)" by (simp add: consume.simps [of alloc p])
    show ?thesis
    proof (cases "st = NeedMore")
      case True
      with app(2) a have "rest = [] \<and> c = out \<and>
        consume_step alloc p (xs @ ys) out = consume_step alloc p' ys out" by simp
      with True show ?thesis by (simp add: consume.simps [of alloc p] consume.simps [of alloc p'])
    next
      case False
      with app(1) a show ?thesis by (simp add: consume.simps [of alloc p])
    qed
  qed
qed

end
