(* ===== verification/Resp.thy ===== *)
theory Resp
  imports ParserInv
begin

text \<open>
  What the RESP2 parser means: the frames a client writes, the loop in which the server calls
  \<^verbatim>\<open>consume\<close> on each chunk it receives, and the properties of the parser over whole streams:
  independence of how the stream is cut into chunks, the round trip of pipelined frames, the bounds
  on memory, and the errors.
\<close>

section \<open>Frames\<close>

definition crlf :: string where
  "crlf = [CHR 0x0D, CHR 0x0A]"

definition bulk :: "string \<Rightarrow> string" where
  "bulk a = ''$'' @ to_string (length a) @ crlf @ a @ crlf"

definition frame :: "string list \<Rightarrow> string" where
  "frame args = ''*'' @ to_string (length args) @ crlf @ concat (map bulk args)"

text \<open>The frames the parser's limits admit.\<close>

definition bulk_ok :: "(size_t \<Rightarrow> bool) \<Rightarrow> size_t \<Rightarrow> string \<Rightarrow> bool" where
  "bulk_ok alloc m a \<longleftrightarrow> length a \<le> unat m \<and> length a < 10 ^ 18 \<and> alloc (size_of a)"

definition frame_ok :: "(size_t \<Rightarrow> bool) \<Rightarrow> size_t \<Rightarrow> string list \<Rightarrow> bool" where
  "frame_ok alloc m args \<longleftrightarrow> length args \<le> 1024 \<and> list_all (bulk_ok alloc m) args"

section \<open>The server's parsing loop\<close>

lemma consume_Inl:
  "consume_step alloc p data out = Some (Inl (p', rest)) \<Longrightarrow>
     consume alloc p data out = consume alloc p' rest out"
  by (simp add: consume.simps [of alloc p])

lemma consume_Inr: "consume_step alloc p data out = Some (Inr r) \<Longrightarrow> consume alloc p data out = Some r"
  by (simp add: consume.simps [of alloc p])

text \<open>A call that returns a command has read some input, unless it started with one ready.\<close>

lemma consume_ready:
  "consume alloc p data out = Some (Ready, p', rest, c) \<Longrightarrow>
     p_state p' = ArrayLen \<and> (if p_state p = PReady then rest = data else length rest < length data)"
proof (induction alloc p data out rule: consume.induct)
  case (1 alloc p data out)
  from 1(2) obtain r where r: "consume_step alloc p data out = Some r"
    by (cases "consume_step alloc p data out") (simp_all add: consume.simps [of alloc p])
  show ?case
  proof (cases r)
    case (Inl a)
    then obtain q d where a: "r = Inl (q, d)" by (cases a) simp
    with r 1(2) have q: "consume alloc q d out = Some (Ready, p', rest, c)"
      by (simp add: consume_Inl)
    have p: "p_state p \<noteq> PReady" using r a by (auto simp: consume_step_def)
    from consume_step_progress [of alloc p data out q d] r a
    have "length d < length data \<or> length d = length data \<and> p_state p = Payload" by auto
    moreover have "p_state p = Payload \<Longrightarrow> p_state q \<noteq> PReady"
      using r a payload_shorter [of p data out q d] by (auto simp: consume_step_def)
    ultimately show ?thesis using 1(1) [OF r a refl q] p by (auto split: if_splits)
  next
    case (Inr b)
    with r 1(2) have "consume_step alloc p data out = Some (Inr (Ready, p', rest, c))"
      by (simp add: consume_Inr)
    then show ?thesis
      by (cases data) (auto simp: consume_step_def array_header_def bulk_header_def payload_bytes_def
          bind_Some_iff Let_def
          split: parser_state.splits prod.splits line_status.splits option.splits if_splits)
  qed
qed

function pump :: "(size_t \<Rightarrow> bool) \<Rightarrow> parser \<Rightarrow> string \<Rightarrow> (command list \<times> status \<times> parser) option" where
  "pump alloc p data =
     (if data = [] then Some ([], NeedMore, p)
      else (case consume alloc p data command_default of
         None \<Rightarrow> None
       | Some (st, p', rest, c) \<Rightarrow>
           if st = Ready then do {
             (cs, st', q) \<leftarrow> pump alloc p' rest;
             Some (c # cs, st', q) }
           else Some ([], st, p')))"
  by pat_completeness auto
termination
proof (relation "measures [\<lambda>(_, _, data). length data, \<lambda>(_, p, _). if p_state p = PReady then 1 else 0]")
  fix alloc :: "size_t \<Rightarrow> bool" and p :: parser and data :: string and a1 a2 st b p' d rest c
  assume "consume alloc p data command_default = Some a2" "(st, b) = a2" "(p', d) = b" "(rest, c) = d" "st = Ready"
  then show "((alloc, p', rest), alloc, p, data)
    \<in> measures [\<lambda>(_, _, data). length data, \<lambda>(_, p, _). if p_state p = PReady then 1 else 0]"
    using consume_ready [of alloc p data command_default p' rest c] by (auto split: if_splits)
qed simp

declare pump.simps [simp del]

text \<open>One \<^verbatim>\<open>recv\<close> after another; after an error the server reads no further.\<close>

fun feed :: "(size_t \<Rightarrow> bool) \<Rightarrow> parser \<Rightarrow> string list \<Rightarrow> (command list \<times> status \<times> parser) option" where
  "feed alloc p [] = Some ([], NeedMore, p)"
| "feed alloc p (chunk # chunks) = do {
     (cs, st, q) \<leftarrow> pump alloc p chunk;
     if st = Error then Some (cs, st, q)
     else do {
       (cs', st', q') \<leftarrow> feed alloc q chunks;
       Some (cs @ cs', st', q') } }"

section \<open>Chunks\<close>

lemma pump_step:
  assumes "data \<noteq> []" and "consume alloc p data command_default = Some (st, p', rest, c)"
  shows "pump alloc p data =
    (if st = Ready then map_option (\<lambda>(cs, st', q). (c # cs, st', q)) (pump alloc p' rest)
     else Some ([], st, p'))"
  using assms by (cases "pump alloc p' rest") (auto simp: pump.simps [of alloc p])

lemma pump_Nil [simp]: "pump alloc p [] = Some ([], NeedMore, p)"
  by (simp add: pump.simps)

lemma pump_total:
  "parser_inv p \<Longrightarrow> \<exists>cs st q. pump alloc p data = Some (cs, st, q) \<and> parser_inv q \<and> st \<noteq> Ready"
proof (induction alloc p data rule: pump.induct)
  case (1 alloc p data)
  show ?case
  proof (cases "data = []")
    case False
    from consume_inv [OF 1(2), of alloc data command_default] obtain st p' rest c where
      c: "consume alloc p data command_default = Some (st, p', rest, c)" and inv: "parser_inv p'" by blast
    show ?thesis
    proof (cases "st = Ready")
      case True
      with 1(1) [OF False c refl refl refl True inv] show ?thesis
        by (auto simp: pump_step [OF False c])
    qed (use inv in \<open>simp add: pump_step [OF False c]\<close>)
  qed (use 1 in simp)
qed

lemma pump_append:
  assumes "parser_inv p" and "pump alloc p xs = Some (cs, st, q)"
  shows "pump alloc p (xs @ ys) =
    (if st = Error then Some (cs, st, q)
     else map_option (\<lambda>(cs', st', q'). (cs @ cs', st', q')) (pump alloc q ys))"
  using assms
proof (induction alloc p xs arbitrary: cs st q rule: pump.induct)
  case (1 alloc p xs)
  show ?case
  proof (cases "xs = []")
    case True
    with 1(3) show ?thesis by (auto simp: option.map_ident_strong case_prod_unfold)
  next
    case False
    from consume_inv [OF 1(2), of alloc xs command_default] obtain s p' rest c where
      c: "consume alloc p xs command_default = Some (s, p', rest, c)" and inv: "parser_inv p'" by blast
    note app = consume_append [OF 1(2) c, of ys]
    have ne: "xs @ ys \<noteq> []" using False by simp
    show ?thesis
    proof (cases s)
      case Ready
      with app have c': "consume alloc p (xs @ ys) command_default = Some (Ready, p', rest @ ys, c)" by simp
      from 1(3) Ready pump_step [OF False c] obtain cs1 where
        "pump alloc p' rest = Some (cs1, st, q)" and cs: "cs = c # cs1"
        by (cases "pump alloc p' rest") auto
      from 1(1) [OF False c refl refl refl Ready inv this(1)] show ?thesis
        by (cases "pump alloc q ys") (auto simp: pump_step [OF ne c'] cs)
    next
      case NeedMore
      with 1(3) pump_step [OF False c] have r: "cs = []" "st = NeedMore" "q = p'" by auto
      show ?thesis
      proof (cases "ys = []")
        case True
        with 1(3) r show ?thesis by simp
      next
        case ys: False
        from app NeedMore have eq: "consume alloc p (xs @ ys) command_default = consume alloc p' ys command_default"
          by simp
        from consume_inv [OF inv, of alloc ys command_default] obtain s2 p2 rest2 c2 where
          c2: "consume alloc p' ys command_default = Some (s2, p2, rest2, c2)" by blast
        have "pump alloc p (xs @ ys) = pump alloc p' ys"
          using pump_step [OF ne] pump_step [OF ys c2] c2 eq by simp
        with r show ?thesis by (simp add: option.map_ident_strong case_prod_unfold)
      qed
    next
      case Error
      with 1(3) pump_step [OF False c] have r: "cs = []" "st = Error" "q = p'" by auto
      from app Error have "consume alloc p (xs @ ys) command_default = Some (Error, p', rest @ ys, c)" by simp
      with r show ?thesis by (simp add: pump_step [OF ne])
    qed
  qed
qed

lemma feed_concat: "parser_inv p \<Longrightarrow> feed alloc p chunks = pump alloc p (concat chunks)"
proof (induction chunks arbitrary: p)
  case (Cons chunk chunks)
  from pump_total [OF Cons.prems] obtain cs st q where
    q: "pump alloc p chunk = Some (cs, st, q)" "parser_inv q" by blast
  with Cons.IH [OF q(2)] pump_append [OF Cons.prems q(1), of "concat chunks"] show ?case
    by (cases "pump alloc q (concat chunks)") auto
qed simp

section \<open>Frames are read back\<close>

lemma read_line_crlf:
  "CHR 0x0A \<notin> set l \<Longrightarrow> length h + length l < 32 \<Longrightarrow>
     read_line (l @ crlf @ rest) h = (LOk, rest, h @ l)"
  by (induction l arbitrary: h) (auto simp: crlf_def)

lemma to_string_no_newline: "CHR 0x0A \<notin> set (to_string n)"
  by (rule digits_no_byte [OF to_string_digits]) (simp add: is_digit_nat)

lemma read_number_line:
  assumes "n < 10 ^ 18" and "c \<noteq> CHR 0x0A"
  shows "read_line (c # to_string n @ crlf @ rest) [] = (LOk, rest, c # to_string n)"
    and "parse_uint (to_string n) = Some (int n)"
proof -
  have len: "length (to_string n) \<le> 18" using assms(1) by (simp add: length_to_string)
  with assms(2) to_string_no_newline [of n] show
    "read_line (c # to_string n @ crlf @ rest) [] = (LOk, rest, c # to_string n)"
    using read_line_crlf [of "c # to_string n" "[]" rest] by simp
  from len show "parse_uint (to_string n) = Some (int n)"
    by (simp add: parse_uint_eq to_string_digits)
qed

lemma consume_array_header:
  assumes st: "p_state p = ArrayLen" and h: "header p = []" and n: "n \<le> 1024"
  shows "consume alloc p (''*'' @ to_string n @ crlf @ rest) out =
    consume alloc (p\<lparr>argc := int n, arg_index := 0, p_args := [],
                     p_state := if n = 0 then PReady else BulkLen\<rparr>) rest out"
proof -
  have n': "n < 10 ^ 18" by (rule le_less_trans [OF n]) simp
  have p: "p\<lparr>header := []\<rparr> = p" using h by simp
  have "array_header p (''*'' @ to_string n @ crlf @ rest) out =
    Inl (p\<lparr>argc := int n, arg_index := 0, p_args := [],
           p_state := if n = 0 then PReady else BulkLen\<rparr>, rest)"
    using read_number_line(1) [OF n', of "CHR ''*''" rest] read_number_line(2) [OF n', of "CHR ''*''"] h n p
    by (simp add: array_header_def Let_def kMaxArgs_def)
  with st show ?thesis by (simp add: consume_step_def consume_Inl)
qed

definition with_arg :: "parser \<Rightarrow> string \<Rightarrow> parser" where
  "with_arg p a = next_arg (p\<lparr>p_args := p_args p @ [a], bulk_len := size_of a, bulk_read := size_of a\<rparr>)"

lemma consume_trailer:
  assumes "p_state p = Trailer"
  shows "consume alloc p (crlf @ rest) out = consume alloc (next_arg p) rest out"
proof -
  have "next_arg (p\<lparr>p_state := TrailerLf\<rparr>) = next_arg p" by (simp add: next_arg_def Let_def)
  then have "consume alloc (p\<lparr>p_state := TrailerLf\<rparr>) (CHR 0x0A # rest) out = consume alloc (next_arg p) rest out"
    by (simp add: consume_Inl consume_step_def)
  moreover have "consume alloc p (crlf @ rest) out = consume alloc (p\<lparr>p_state := TrailerLf\<rparr>) (CHR 0x0A # rest) out"
    using assms by (simp add: crlf_def consume_Inl consume_step_def)
  ultimately show ?thesis by simp
qed

lemma consume_bulk:
  assumes inv: "parser_inv p" and st: "p_state p = BulkLen" and h: "header p = []"
    and ok: "bulk_ok alloc (max_bulk_len p) a"
  shows "consume alloc p (bulk a @ rest) out = consume alloc (with_arg p a) rest out"
proof -
  let ?n = "size_of a"
  have len: "length a < 10 ^ 18" "length a \<le> unat (max_bulk_len p)" "alloc ?n"
    using ok by (simp_all add: bulk_ok_def)
  have un: "unat ?n = length a" using len(1) by (simp add: unat_size_of)
  have le: "\<not> ?n > max_bulk_len p" using len un by (simp add: word_less_nat_alt)
  have wi: "(of_nat (length a) :: size_t) = ?n" by (simp add: size_of_def)
  have p: "p\<lparr>header := []\<rparr> = p" using h by simp
  define p1 where "p1 = p\<lparr>p_args := p_args p @ [replicate (length a) (CHR 0x00)], bulk_len := ?n,
    bulk_read := 0, p_state := if ?n = 0 then Trailer else Payload\<rparr>"
  have hd: "bulk_header alloc p (bulk a @ rest) out = Inl (p1, a @ crlf @ rest)"
    using read_number_line(1) [OF len(1), of "CHR ''$''" "a @ crlf @ rest"]
      read_number_line(2) [OF len(1), of "CHR ''$''"] h le len(3)
    unfolding bulk_def by (simp add: bulk_header_def Let_def wi un p p1_def)
  then have 1: "consume alloc p (bulk a @ rest) out = consume alloc p1 (a @ crlf @ rest) out"
    using st by (simp add: consume_Inl consume_step_def)
  define p2 where "p2 = p1\<lparr>p_args := p_args p @ [a], bulk_read := ?n, p_state := Trailer\<rparr>"
  have 2: "consume alloc p1 (a @ crlf @ rest) out = consume alloc p2 (crlf @ rest) out"
  proof (cases "a = []")
    case True
    then have "p2 = p1" by (simp add: p1_def p2_def)
    with True show ?thesis by simp
  next
    case False
    with un have "?n \<noteq> 0" by auto
    then have st1: "p_state p1 = Payload" by (simp add: p1_def)
    have inv1: "parser_inv p1" using bulk_header_inv [OF inv st, of alloc "bulk a @ rest" out] hd by simp
    have "payload_bytes p1 (a @ crlf @ rest) out = Some (Inl (p2, crlf @ rest))"
      using payload_eq(1) [OF inv1 st1, of "a @ crlf @ rest"] un
      by (simp add: p1_def p2_def size_of_def)
    with st1 show ?thesis by (simp add: consume_Inl consume_step_def)
  qed
  have "next_arg p2 = with_arg p a"
    by (simp add: p2_def p1_def with_arg_def next_arg_def Let_def)
  with 1 2 consume_trailer [of p2] show ?thesis by (simp add: p2_def)
qed

lemma with_arg_inv:
  assumes "parser_inv p" and "p_state p = BulkLen" and "bulk_ok alloc (max_bulk_len p) a"
  shows "parser_inv (with_arg p a)"
  using assms by (auto simp: parser_inv_def with_arg_def next_arg_def Let_def bulk_ok_def)

lemma consume_bulks:
  assumes "parser_inv p" and "p_state p = BulkLen" and "header p = []"
    and "list_all (bulk_ok alloc (max_bulk_len p)) args" and "args \<noteq> []"
    and "argc p = arg_index p + int (length args)"
  shows "\<exists>q. consume alloc p (concat (map bulk args) @ rest) out =
      Some (Ready, q, rest, classify (p_args p @ args)) \<and>
    parser_inv q \<and> p_state q = ArrayLen \<and> header q = [] \<and> max_bulk_len q = max_bulk_len p"
  using assms
proof (induction args arbitrary: p)
  case (Cons a args)
  from Cons.prems have a: "bulk_ok alloc (max_bulk_len p) a" by simp
  let ?q = "with_arg p a"
  have q: "parser_inv ?q" using with_arg_inv [OF Cons.prems(1,2) a] .
  have sel: "header ?q = []" "p_args ?q = p_args p @ [a]" "max_bulk_len ?q = max_bulk_len p"
    "argc ?q = argc p" "arg_index ?q = arg_index p + 1"
    "p_state ?q = (if arg_index p + 1 < argc p then BulkLen else PReady)"
    using Cons.prems(3) by (simp_all add: with_arg_def next_arg_def Let_def)
  have step: "consume alloc p (concat (map bulk (a # args)) @ rest) out =
    consume alloc ?q (concat (map bulk args) @ rest) out"
    using consume_bulk [OF Cons.prems(1-3) a, of "concat (map bulk args) @ rest" out] by simp
  show ?case
  proof (cases "args = []")
    case True
    with sel Cons.prems(6) have "p_state ?q = PReady" by simp
    then have "consume alloc ?q rest out =
      Some (Ready, ?q\<lparr>p_args := [], p_state := ArrayLen\<rparr>, rest, classify (p_args ?q))"
      by (simp add: consume_Inr consume_step_def)
    moreover have "parser_inv (?q\<lparr>p_args := [], p_state := ArrayLen\<rparr>)"
      using q \<open>p_state ?q = PReady\<close> by (simp add: parser_inv_def kMaxArgs_def)
    ultimately show ?thesis using True step sel by simp
  next
    case False
    with sel Cons.prems(6) have "p_state ?q = BulkLen" by simp
    with Cons.IH [of ?q] q sel False Cons.prems show ?thesis by (simp only: step) simp
  qed
qed simp

lemma consume_frame:
  assumes inv: "parser_inv p" and st: "p_state p = ArrayLen" and h: "header p = []"
    and ok: "frame_ok alloc (max_bulk_len p) args"
  shows "\<exists>q. consume alloc p (frame args @ rest) out = Some (Ready, q, rest, classify args) \<and>
    parser_inv q \<and> p_state q = ArrayLen \<and> header q = [] \<and> max_bulk_len q = max_bulk_len p"
proof -
  have n: "length args \<le> 1024" using ok by (simp add: frame_ok_def)
  define q where "q = p\<lparr>argc := int (length args), arg_index := 0, p_args := [],
    p_state := if length args = 0 then PReady else BulkLen\<rparr>"
  have eq: "consume alloc p (frame args @ rest) out = consume alloc q (concat (map bulk args) @ rest) out"
    using consume_array_header [OF st h n] by (simp add: frame_def q_def)
  have q: "parser_inv q" using inv st n by (auto simp: parser_inv_def q_def kMaxArgs_def)
  show ?thesis
  proof (cases "args = []")
    case True
    then have "consume alloc q rest out = Some (Ready, q\<lparr>p_args := [], p_state := ArrayLen\<rparr>, rest, classify [])"
      by (simp add: q_def consume_Inr consume_step_def)
    moreover have "parser_inv (q\<lparr>p_args := [], p_state := ArrayLen\<rparr>)"
      using q True by (simp add: parser_inv_def q_def kMaxArgs_def)
    ultimately show ?thesis using eq True h by (simp add: q_def)
  next
    case False
    have "\<exists>q'. consume alloc q (concat (map bulk args) @ rest) out =
        Some (Ready, q', rest, classify (p_args q @ args)) \<and>
      parser_inv q' \<and> p_state q' = ArrayLen \<and> header q' = [] \<and> max_bulk_len q' = max_bulk_len q"
      by (rule consume_bulks) (use q False h ok in \<open>simp_all add: q_def frame_ok_def\<close>)
    then show ?thesis by (simp add: eq) (simp add: q_def)
  qed
qed

lemma frame_not_Nil: "frame args @ rest \<noteq> []"
  by (simp add: frame_def)

lemma pump_frames:
  assumes "parser_inv p" and "p_state p = ArrayLen" and "header p = []"
    and "list_all (frame_ok alloc (max_bulk_len p)) cmds"
  shows "\<exists>q. pump alloc p (concat (map frame cmds)) = Some (map classify cmds, NeedMore, q) \<and>
    parser_inv q \<and> p_state q = ArrayLen \<and> header q = []"
  using assms
proof (induction cmds arbitrary: p)
  case (Cons args cmds)
  from Cons.prems have ok: "frame_ok alloc (max_bulk_len p) args" by simp
  from consume_frame [OF Cons.prems(1-3) ok, of "concat (map frame cmds)" command_default]
  obtain q where q: "consume alloc p (frame args @ concat (map frame cmds)) command_default =
      Some (Ready, q, concat (map frame cmds), classify args)"
    "parser_inv q" "p_state q = ArrayLen" "header q = []" "max_bulk_len q = max_bulk_len p" by blast
  have "list_all (frame_ok alloc (max_bulk_len q)) cmds" using Cons.prems q(5) by simp
  from Cons.IH [OF q(2-4) this] pump_step [OF frame_not_Nil q(1)] show ?case by auto
qed simp

section \<open>What a parsed command can hold\<close>

definition within_limits :: "size_t \<Rightarrow> command \<Rightarrow> bool" where
  "within_limits m c \<longleftrightarrow> length (cmd_args c) \<le> 1023 \<and> length (verb c) \<le> unat m \<and>
     list_all (\<lambda>a. length a \<le> unat m) (cmd_args c)"

lemma within_limits_classify:
  "length args \<le> 1024 \<Longrightarrow> \<forall>a\<in>set args. length a \<le> unat m \<Longrightarrow> within_limits m (classify args)"
  by (cases args) (auto simp: within_limits_def command_default_def list_all_iff)

lemma consume_limits:
  assumes "parser_inv p" and "consume alloc p data out = Some (st, p', rest, c)"
  shows "max_bulk_len p' = max_bulk_len p \<and> (st = Ready \<longrightarrow> within_limits (max_bulk_len p) c)"
  using assms
proof (induction alloc p data out rule: consume.induct)
  case (1 alloc p data out)
  from consume_step_inv [OF 1(2), of alloc data out] obtain r where
    r: "consume_step alloc p data out = Some r" "parser_inv (result_parser r)" by blast
  note mx = consume_step_max [OF 1(2) r(1)]
  show ?case
  proof (cases r)
    case (Inl a)
    then obtain q d where a: "r = Inl (q, d)" by (cases a) simp
    with r 1(3) have q: "parser_inv q" "consume alloc q d out = Some (st, p', rest, c)"
      by (simp_all add: consume_Inl)
    from 1(1) [OF r(1) a refl q] mx a show ?thesis by simp
  next
    case (Inr a)
    with r 1(3) have a: "r = Inr (st, p', rest, c)" by (simp add: consume_Inr)
    have "st = Ready \<Longrightarrow> p_state p = PReady \<and> c = classify (p_args p)"
      using r(1) a
      by (cases data) (auto simp: consume_step_def array_header_def bulk_header_def payload_bytes_def
          bind_Some_iff Let_def
          split: parser_state.splits prod.splits line_status.splits option.splits if_splits)
    moreover have "p_state p = PReady \<Longrightarrow> within_limits (max_bulk_len p) (classify (p_args p))"
      using 1(2) by (intro within_limits_classify) (simp_all add: parser_inv_def kMaxArgs_def)
    ultimately show ?thesis using mx a by simp
  qed
qed

lemma pump_limits:
  assumes "parser_inv p" and "pump alloc p data = Some (cs, st, q)"
  shows "max_bulk_len q = max_bulk_len p \<and> list_all (within_limits (max_bulk_len p)) cs"
  using assms
proof (induction alloc p data arbitrary: cs st q rule: pump.induct)
  case (1 alloc p data)
  show ?case
  proof (cases "data = []")
    case False
    from consume_inv [OF 1(2), of alloc data command_default] obtain s p' rest c where
      c: "consume alloc p data command_default = Some (s, p', rest, c)" and inv: "parser_inv p'" by blast
    note lim = consume_limits [OF 1(2) c]
    show ?thesis
    proof (cases "s = Ready")
      case True
      from 1(3) pump_step [OF False c] True obtain cs1 where
        cs1: "pump alloc p' rest = Some (cs1, st, q)" and cs: "cs = c # cs1"
        by (cases "pump alloc p' rest") auto
      from 1(1) [OF False c refl refl refl True inv cs1] lim True cs show ?thesis by simp
    next
      case s: False
      with 1(3) pump_step [OF False c] lim show ?thesis by simp
    qed
  qed (use 1(3) in simp)
qed

lemma consume_step_state:
  "consume_step alloc p data out = Some (Inr (st, p', rest, c)) \<Longrightarrow>
     p_state p' = (case st of NeedMore \<Rightarrow> p_state p | Ready \<Rightarrow> ArrayLen | Error \<Rightarrow> Failed) \<and>
     (st = NeedMore \<longrightarrow> p_state p \<noteq> PReady)"
  by (cases data) (auto simp: consume_step_def array_header_def bulk_header_def payload_bytes_def
      bind_Some_iff Let_def fail_def
      split: parser_state.splits prod.splits line_status.splits option.splits if_splits)

lemma consume_state:
  "consume alloc p data out = Some (st, p', rest, c) \<Longrightarrow>
     p_state p' \<noteq> PReady \<and> (st = Error \<longleftrightarrow> p_state p' = Failed)"
proof (induction alloc p data out rule: consume.induct)
  case (1 alloc p data out)
  from 1(2) obtain r where r: "consume_step alloc p data out = Some r"
    by (cases "consume_step alloc p data out") (simp_all add: consume.simps [of alloc p])
  show ?case
  proof (cases r)
    case (Inl a)
    then obtain q d where a: "r = Inl (q, d)" by (cases a) simp
    with r 1(2) have "consume alloc q d out = Some (st, p', rest, c)" by (simp add: consume_Inl)
    from 1(1) [OF r a refl this] show ?thesis .
  next
    case (Inr b)
    with r 1(2) have b: "consume_step alloc p data out = Some (Inr (st, p', rest, c))"
      by (simp add: consume_Inr)
    from consume_step_state [OF b] b show ?thesis by (cases st) (auto simp: consume_step_def)
  qed
qed

lemma pump_state:
  assumes "pump alloc p data = Some (cs, st, q)" and "p_state p \<noteq> PReady" and "p_state p \<noteq> Failed"
  shows "p_state q \<noteq> PReady \<and> (st = Error \<longleftrightarrow> p_state q = Failed)"
  using assms
proof (induction alloc p data arbitrary: cs st q rule: pump.induct)
  case (1 alloc p data)
  show ?case
  proof (cases "data = []")
    case False
    from 1(2) False obtain s p' rest c where
      c: "consume alloc p data command_default = Some (s, p', rest, c)"
      by (cases "consume alloc p data command_default") (auto simp: pump.simps [of alloc p])
    note state = consume_state [OF c]
    show ?thesis
    proof (cases "s = Ready")
      case True
      from 1(2) pump_step [OF False c] True obtain cs1 where
        cs1: "pump alloc p' rest = Some (cs1, st, q)"
        by (cases "pump alloc p' rest") auto
      from 1(1) [OF False c refl refl refl True cs1] state True show ?thesis by simp
    next
      case s: False
      with 1(2) pump_step [OF False c] state show ?thesis by auto
    qed
  qed (use 1 in simp)
qed

lemma failed_stays:
  "p_state p = Failed \<Longrightarrow> consume alloc p data out = Some (Error, p, data, out)"
  by (simp add: consume_Inr consume_step_def)

lemma feed_init:
  "\<exists>cs st p. feed alloc (parser_init m) chunks = Some (cs, st, p) \<and> parser_inv p \<and> st \<noteq> Ready \<and>
     max_bulk_len p = m \<and> list_all (within_limits m) cs \<and> p_state p \<noteq> PReady \<and>
     (st = Error \<longleftrightarrow> p_state p = Failed)"
proof -
  from pump_total [OF parser_inv_init [of m], of alloc "concat chunks"] obtain cs st p where
    p: "pump alloc (parser_init m) (concat chunks) = Some (cs, st, p)" "parser_inv p" "st \<noteq> Ready" by blast
  with pump_limits [OF parser_inv_init p(1)] pump_state [OF p(1)] feed_concat [OF parser_inv_init [of m], of alloc chunks]
  show ?thesis by (auto simp: parser_init_def)
qed

lemma consume_oversized:
  assumes st: "p_state p = BulkLen" and h: "header p = []"
    and n: "unat (max_bulk_len p) < n" "n < 10 ^ 18"
  shows "consume alloc p (''$'' @ to_string n @ crlf @ rest) out =
    Some (Error, fail ''bulk length exceeds max-value-size'' p, rest, out)"
proof -
  have "unat (of_nat n :: size_t) = n" using n(2) by (simp add: unat_of_nat)
  then have gt: "max_bulk_len p < of_nat n" using n(1) by (simp add: word_less_nat_alt)
  have p: "p\<lparr>header := []\<rparr> = p" using h by simp
  have "bulk_header alloc p (''$'' @ to_string n @ crlf @ rest) out =
    Inr (Error, fail ''bulk length exceeds max-value-size'' p, rest, out)"
    using read_number_line(1) [OF n(2), of "CHR ''$''" rest]
      read_number_line(2) [OF n(2), of "CHR ''$''"] h gt
    by (simp add: bulk_header_def Let_def p)
  with st show ?thesis by (simp add: consume_Inr consume_step_def)
qed

section \<open>Properties\<close>

text \<open>
  C5: How TCP cuts the stream does not matter: whatever the chunks the server receives, the parser
  yields the same commands, the same final status and ends in the same state as if the whole stream had
  arrived at once.
\<close>

theorem parser_chunking_irrelevant:
  "feed alloc (parser_init m) chunks = pump alloc (parser_init m) (concat chunks)"
  by (rule feed_concat) (rule parser_inv_init)

text \<open>
  C6: Pipelined frames are read back: when the stream is the concatenation of RESP frames within the
  limits (at most 1024 arguments, each of a length below 10^18 that fits the configured maximum and that
  can be allocated), cut into chunks anywhere, the parser yields exactly the commands of those frames, in order,
  and is ready for the next frame.
\<close>

theorem parser_reads_pipelined_frames:
  assumes "list_all (frame_ok alloc m) cmds" and "concat chunks = concat (map frame cmds)"
  shows "\<exists>p. feed alloc (parser_init m) chunks = Some (map classify cmds, NeedMore, p) \<and>
    p_state p = ArrayLen \<and> header p = []"
proof -
  have p: "p_state (parser_init m) = ArrayLen" "header (parser_init m) = []" "max_bulk_len (parser_init m) = m"
    by (simp_all add: parser_init_def)
  from pump_frames [OF parser_inv_init p(1,2)] assms show ?thesis
    by (auto simp: p(3) feed_concat [OF parser_inv_init])
qed

theorem parser_reads_pipelined_frames_witness:
  "\<exists>p. feed (\<lambda>_. True) (parser_init 16)
      [[CHR ''*'', CHR ''1''], crlf, ''$4'', crlf @ ''pi'', ''ng'' @ crlf @ ''*0'', crlf @ ''*2'' @ crlf @ ''$3'' @ crlf @ ''GET'' @
        crlf @ ''$1'', crlf @ ''k'', crlf] =
    Some ([\<lparr>cmd_type = PING, verb = ''ping'', cmd_args = []\<rparr>, command_default,
           \<lparr>cmd_type = GET, verb = ''GET'', cmd_args = [''k'']\<rparr>], NeedMore, p) \<and>
    p_state p = ArrayLen \<and> header p = []"
proof -
  have "map classify [[''ping''], [], [''GET'', ''k'']] =
    [\<lparr>cmd_type = PING, verb = ''ping'', cmd_args = []\<rparr>, command_default,
           \<lparr>cmd_type = GET, verb = ''GET'', cmd_args = [''k'']\<rparr>]"
    by code_simp
  moreover have "list_all (frame_ok (\<lambda>_. True) 16) [[''ping''], [], [''GET'', ''k'']]"
    by (simp add: frame_ok_def bulk_ok_def)
  moreover have "concat [[CHR ''*'', CHR ''1''], crlf, ''$4'', crlf @ ''pi'', ''ng'' @ crlf @ ''*0'', crlf @ ''*2'' @ crlf @ ''$3'' @ crlf @ ''GET'' @
        crlf @ ''$1'', crlf @ ''k'', crlf] = concat (map frame [[''ping''], [], [''GET'', ''k'']])"
    by code_simp
  ultimately show ?thesis by (metis parser_reads_pipelined_frames)
qed

text \<open>
  C21: On every stream, in every chunking, the parser is free of undefined behaviour (no copy past the end
  of the argument being filled), returns for every chunk, and keeps what it holds bounded: at most 33
  header bytes, at most 1024 arguments, none longer than the configured maximum; the same limits hold for
  every command it yields.
\<close>

theorem parser_safe_and_bounded:
  "\<exists>cs st p. feed alloc (parser_init m) chunks = Some (cs, st, p) \<and>
     length (header p) \<le> 33 \<and> length (p_args p) \<le> 1024 \<and>
     list_all (\<lambda>a. length a \<le> unat m) (p_args p) \<and> list_all (within_limits m) cs"
proof -
  obtain cs st p where p: "feed alloc (parser_init m) chunks = Some (cs, st, p)" "parser_inv p"
    "max_bulk_len p = m" "list_all (within_limits m) cs"
    using feed_init [of alloc m chunks] by blast
  have "length (header p) \<le> 33" using p(2) by (auto simp: parser_inv_def split: if_splits)
  with p show ?thesis by (auto simp: parser_inv_def kMaxArgs_def list_all_iff)
qed

text \<open>
  C30: The contract of one call of \<^verbatim>\<open>consume\<close> on a parser in use: it always returns; when it asks for more it has
  read all of its input; when it returns a command it has read at least one byte (so the server's loop
  ends); an error leaves the parser failed, and only then.
\<close>

theorem consume_contract:
  assumes "feed alloc (parser_init m) chunks = Some (cs, st, p)"
  shows "\<exists>st' p' rest c. consume alloc p data out = Some (st', p', rest, c) \<and>
    (case st' of NeedMore \<Rightarrow> rest = [] | Ready \<Rightarrow> length rest < length data | Error \<Rightarrow> True) \<and>
    (st' = Error \<longleftrightarrow> p_state p' = Failed)"
proof -
  from feed_init [of alloc m chunks] assms have p: "parser_inv p" "p_state p \<noteq> PReady" by auto
  from consume_inv [OF p(1), of alloc data out] obtain st' p' rest c where
    c: "consume alloc p data out = Some (st', p', rest, c)" by blast
  from consume_append [OF p(1) c, of "[]"] consume_ready [of alloc p data out p' rest c]
    consume_state [OF c] c p(2) show ?thesis by (cases st') auto
qed

theorem consume_contract_witness:
  "\<exists>st' p' rest c. consume (\<lambda>_. True) (parser_init 5) ''*0'' command_default = Some (st', p', rest, c) \<and>
    (case st' of NeedMore \<Rightarrow> rest = [] | Ready \<Rightarrow> length rest < length ''*0'' | Error \<Rightarrow> True) \<and>
    (st' = Error \<longleftrightarrow> p_state p' = Failed)"
  by (rule consume_contract [of _ 5 "[]" "[]" NeedMore]) simp

text \<open>
  A declared length above the limit is refused before any memory is taken for it: the parser fails
  with the documented message and holds no argument.
\<close>

theorem parser_rejects_oversized:
  assumes "unat m < n" and "n < 10 ^ 18" and "0 < k" and "k \<le> 1024"
  shows "\<exists>p. pump alloc (parser_init m) (''*'' @ to_string k @ crlf @ ''$'' @ to_string n @ crlf @ rest) =
      Some ([], Error, p) \<and>
    error p = ''bulk length exceeds max-value-size'' \<and> p_args p = []"
proof -
  define q where "q = (parser_init m)\<lparr>argc := int k, arg_index := 0, p_args := [],
    p_state := if k = 0 then PReady else BulkLen\<rparr>"
  have q: "p_state q = BulkLen" "header q = []" "max_bulk_len q = m" "p_args q = []"
    using assms(3) by (simp_all add: q_def parser_init_def)
  have p: "p_state (parser_init m) = ArrayLen" "header (parser_init m) = []" by (simp_all add: parser_init_def)
  have "consume alloc (parser_init m) (''*'' @ to_string k @ crlf @ ''$'' @ to_string n @ crlf @ rest) command_default =
      Some (Error, fail ''bulk length exceeds max-value-size'' q, rest, command_default)"
    using consume_array_header [OF p assms(4)] consume_oversized [OF q(1,2)] assms(1,2)
    by (simp only: q_def [symmetric] q(3))
  from pump_step [OF _ this] q(4) show ?thesis by (simp add: fail_def)
qed

theorem parser_rejects_oversized_witness:
  "\<exists>p. pump (\<lambda>_. True) (parser_init 10) (''*'' @ to_string 3 @ crlf @ ''$'' @ to_string 11 @ crlf @ ''x'') =
      Some ([], Error, p) \<and>
    error p = ''bulk length exceeds max-value-size'' \<and> p_args p = []"
  by (rule parser_rejects_oversized) simp_all

text \<open>
  After an error the parser reads nothing more: every later call returns the error, the same state
  and the input untouched.
\<close>

theorem parser_error_is_final:
  assumes "feed alloc (parser_init m) chunks = Some (cs, Error, p)"
  shows "consume alloc p data out = Some (Error, p, data, out)"
  using feed_init [of alloc m chunks] assms by (auto intro: failed_stays)

theorem parser_error_is_final_witness:
  "\<exists>p. feed (\<lambda>_. True) (parser_init 10) [[CHR 0x0A]] = Some ([], Error, p) \<and>
     consume (\<lambda>_. True) p ''*1'' command_default = Some (Error, p, ''*1'', command_default)"
proof -
  let ?p = "fail ''invalid array length'' (parser_init 10)"
  have c: "consume (\<lambda>_. True) (parser_init 10) [CHR 0x0A] command_default = Some (Error, ?p, [], command_default)"
    by (rule consume_Inr) (simp add: consume_step_def array_header_def parser_init_def)
  then have "feed (\<lambda>_. True) (parser_init 10) [[CHR 0x0A]] = Some ([], Error, ?p)"
    by (simp add: pump_step [OF _ c])
  with parser_error_is_final [OF this, of "''*1''" command_default] show ?thesis by blast
qed

text \<open>
  \<^verbatim>\<open>parse_uint\<close> reads exactly the texts of one to eighteen decimal digits and returns their value, which
  fits a signed 64-bit \<^verbatim>\<open>long\<close>: the arithmetic on \<^verbatim>\<open>unsigned long long\<close> never wraps.
\<close>

theorem parse_uint_exact:
  "parse_uint t =
     (if t \<noteq> [] \<and> length t \<le> 18 \<and> list_all is_digit t then Some (int (dec_value t)) else None) \<and>
   (parse_uint (to_string n) = Some (int n) \<longleftrightarrow> n < 10 ^ 18)"
proof -
  have "parse_uint (to_string n) = Some (int n) \<longleftrightarrow> length (to_string n) \<le> 18"
    by (simp add: parse_uint_eq to_string_digits)
  also have "\<dots> \<longleftrightarrow> n < 10 ^ 18"
  proof
    assume "length (to_string n) \<le> 18"
    then have "(10::nat) ^ length (to_string n) \<le> 10 ^ 18" by (intro power_increasing) simp_all
    with dec_value_bound [OF to_string_digits, of n] show "n < 10 ^ 18" by simp
  qed (simp add: length_to_string)
  finally show ?thesis by (simp add: parse_uint_eq)
qed

end
