(* ===== verification/Command.thy ===== *)
theory Command
  imports Aof StorageLru Resp
begin

text \<open>
  Command execution: \<^verbatim>\<open>Server::execute_command\<close> (\<^verbatim>\<open>src/src/server.cpp\<close>, lines 27 to 54 and 291 to 403) on the
  storage and the log, with the option parser of SET. A reply is a head, an optional shared blob and a
  tail; \<open>reply_bytes\<close> is what \<^verbatim>\<open>queue_response\<close> makes of it on the wire.
\<close>

section \<open>Numbers and case\<close>

definition is_sign :: "char \<Rightarrow> bool" where
  "is_sign c \<longleftrightarrow> c = CHR ''-'' \<or> c = CHR ''+''"

text \<open>\<^verbatim>\<open>stoi\<close> on a text that is an optional sign and digits; out of range throws.\<close>

definition stoi :: "string \<Rightarrow> int option" where
  "stoi text =
     (let v = (if text \<noteq> [] \<and> hd text = CHR ''-'' then - int (dec_value (tl text))
               else if text \<noteq> [] \<and> hd text = CHR ''+'' then int (dec_value (tl text))
               else int (dec_value text))
      in if - (2 ^ 31) \<le> v \<and> v < 2 ^ 31 then Some v else None)"

definition parse_int :: "string \<Rightarrow> int option" where
  "parse_int text =
     (if text = [] then None
      else let digits = (if is_sign (hd text) then tl text else text)
           in if digits = [] then None
              else if \<not> list_all is_digit digits then None
              else stoi text)"

definition to_lower :: "char \<Rightarrow> char" where
  "to_lower c = (if char_le (CHR ''A'') c \<and> char_le c (CHR ''Z'')
                 then char_of (of_char c + 32 :: nat) else c)"

definition lowercase :: "string \<Rightarrow> string" where
  "lowercase text = map to_lower text"

section \<open>Replies\<close>

record response =
  r_head :: string
  r_blob :: blob
  r_tail :: string

definition line_reply :: "string \<Rightarrow> response" where
  "line_reply s = \<lparr>r_head = s, r_blob = None, r_tail = []\<rparr>"

definition blob_reply :: "string \<Rightarrow> response" where
  "blob_reply b = \<lparr>r_head = ''$'' @ to_string (length b) @ crlf, r_blob = Some b, r_tail = crlf\<rparr>"

text \<open>
  \<^verbatim>\<open>queue_response\<close> terminates a head without a blob unless it already ends in CRLF.
\<close>

definition ends_crlf :: "string \<Rightarrow> bool" where
  "ends_crlf s \<longleftrightarrow> 2 \<le> length s \<and> drop (length s - 2) s = crlf"

definition finish_head :: "response \<Rightarrow> response" where
  "finish_head r = (if r_blob r = None \<and> \<not> ends_crlf (r_head r)
     then r\<lparr>r_head := r_head r @ crlf\<rparr> else r)"

definition blob_bytes :: "blob \<Rightarrow> string" where
  "blob_bytes b = (case b of None \<Rightarrow> [] | Some s \<Rightarrow> s)"

definition reply_bytes :: "response \<Rightarrow> string" where
  "reply_bytes r = r_head (finish_head r) @ blob_bytes (r_blob r) @ r_tail r"

section \<open>The options of SET\<close>

text \<open>The loop over the arguments from index \<open>k\<close>: \<open>Inl\<close> is an error reply, \<open>Inr\<close> the time to live.\<close>

fun set_options :: "nat \<Rightarrow> string list \<Rightarrow> int \<Rightarrow> bool \<Rightarrow> string + int" where
  "set_options k [] ttl saw_expiry = Inr ttl"
| "set_options k (arg # rest) ttl saw_expiry =
     (let opt = lowercase arg
      in if opt = ''ex'' \<or> opt = ''px'' then
           (case rest of
              [] \<Rightarrow> Inl ''-ERR syntax error''
            | text # rest' \<Rightarrow> (case parse_int text of
                None \<Rightarrow> Inl ''-ERR invalid expire value''
              | Some amount \<Rightarrow>
                  if amount \<le> 0 then Inl ''-ERR invalid expire value''
                  else set_options (k + 2) rest'
                    (if opt = ''px'' then amount div 1000 + (if amount mod 1000 \<noteq> 0 then 1 else 0)
                     else amount) True))
         else (case (if k = 2 \<and> \<not> saw_expiry then parse_int arg else None) of
             Some legacy \<Rightarrow> set_options (k + 1) rest legacy saw_expiry
           | None \<Rightarrow> Inl (''-ERR unsupported SET option: '' @ arg)))"

section \<open>Executing a command\<close>

text \<open>
  What a command reads from outside: the clock, the capacity \<^verbatim>\<open>std::string\<close> gives a value, whether memory for a
  shared pointer runs out, the JSON printer for log lines and for the metrics object.
\<close>

record env =
  e_now :: time
  e_cap :: "string \<Rightarrow> size_t"
  e_oom :: bool
  e_dump :: "json \<Rightarrow> string option"
  e_metrics :: "metrics \<Rightarrow> string"

text \<open>The storage and the log the server works on; no log under \<^verbatim>\<open>--no-aof\<close>.\<close>

record core =
  c_store :: "lru storage"
  c_log :: "string option"

text \<open>\<^verbatim>\<open>if (aof_ != nullptr) aof_->log_set(...)\<close>, and the same for \<^verbatim>\<open>log_del\<close>.\<close>

definition aof_set :: "env \<Rightarrow> string \<Rightarrow> string \<Rightarrow> int \<Rightarrow> core \<Rightarrow> core option" where
  "aof_set env key value ttl c = (case c_log c of
     None \<Rightarrow> Some c
   | Some file \<Rightarrow> do {
       file \<leftarrow> log_set (e_dump env) key value ttl file;
       Some (c\<lparr>c_log := Some file\<rparr>) })"

definition aof_del :: "env \<Rightarrow> string \<Rightarrow> core \<Rightarrow> core option" where
  "aof_del env key c = (case c_log c of
     None \<Rightarrow> Some c
   | Some file \<Rightarrow> do {
       file \<leftarrow> log_del (e_dump env) key file;
       Some (c\<lparr>c_log := Some file\<rparr>) })"

text \<open>
  SET. The log line is written before the storage is asked for memory. The result of \<^verbatim>\<open>storage_->set\<close> is
  ignored. \<open>None\<close>: undefined behaviour, or an exception the event loop does not catch.
\<close>

definition execute_set ::
  "lru runtime \<Rightarrow> size_t \<Rightarrow> env \<Rightarrow> string list \<Rightarrow> core \<Rightarrow> (response \<times> core) option" where
  "execute_set rt max_value env args c =
     (if length args < 2 then Some (line_reply ''-ERR wrong number of arguments for SET'', c)
      else let key = args ! 0; value = args ! 1 in
        if size_of key > kMaxKeySize then Some (line_reply ''-ERR key too large'', c)
        else if size_of value > max_value
        then Some (line_reply ''-ERR value too large (max-value-size)'', c)
        else (case set_options 2 (drop 2 args) 0 False of
           Inl err \<Rightarrow> Some (line_reply err, c)
         | Inr ttl \<Rightarrow>
             if \<not> can_store (c_store c) key value (e_cap env value)
             then Some (line_reply ''-ERR value too large for memory limit'', c)
             else do {
               c \<leftarrow> aof_set env key value ttl c;
               if e_oom env then Some (line_reply ''-ERR out of memory'', c)
               else do {
                 (_, st) \<leftarrow> storage_set rt key value (e_cap env value) ttl (e_now env) (c_store c);
                 Some (line_reply ''+OK'', c\<lparr>c_store := st\<rparr>) } }))"

definition execute_get ::
  "lru runtime \<Rightarrow> env \<Rightarrow> string list \<Rightarrow> core \<Rightarrow> (response \<times> core) option" where
  "execute_get rt env args c =
     (if args = [] then Some (line_reply ''-ERR wrong number of arguments for GET'', c)
      else do {
        (b, st) \<leftarrow> storage_get rt (args ! 0) (e_now env) (c_store c);
        let c = c\<lparr>c_store := st\<rparr>;
        Some (case b of None \<Rightarrow> line_reply ''$-1'' | Some s \<Rightarrow> blob_reply s, c) })"

definition execute_del ::
  "lru runtime \<Rightarrow> env \<Rightarrow> string list \<Rightarrow> core \<Rightarrow> (response \<times> core) option" where
  "execute_del rt env args c =
     (if args = [] then Some (line_reply ''-ERR wrong number of arguments for DEL'', c)
      else do {
        (removed, st) \<leftarrow> storage_del rt (args ! 0) (c_store c);
        let c = c\<lparr>c_store := st\<rparr>;
        c \<leftarrow> (if removed then aof_del env (args ! 0) c else Some c);
        Some (line_reply (if removed then '':1'' else '':0''), c) })"

definition execute_ping :: "env \<Rightarrow> string list \<Rightarrow> core \<Rightarrow> (response \<times> core) option" where
  "execute_ping env args c =
     Some (if args = [] then line_reply ''+PONG''
           else if e_oom env then line_reply ''-ERR out of memory''
           else blob_reply (args ! 0), c)"

definition execute_command ::
  "lru runtime \<Rightarrow> size_t \<Rightarrow> env \<Rightarrow> command \<Rightarrow> core \<Rightarrow> (response \<times> core) option" where
  "execute_command rt max_value env cmd c = (case cmd_type cmd of
     PING \<Rightarrow> execute_ping env (cmd_args cmd) c
   | SELECT \<Rightarrow> Some (line_reply ''+OK'', c)
   | SET \<Rightarrow> execute_set rt max_value env (cmd_args cmd) c
   | GET \<Rightarrow> execute_get rt env (cmd_args cmd) c
   | DEL \<Rightarrow> execute_del rt env (cmd_args cmd) c
   | METRICS \<Rightarrow>
       let json = e_metrics env (storage_metrics rt (c_store c))
       in Some (line_reply (''$'' @ to_string (length json) @ crlf @ json @ crlf), c)
   | UNKNOWN \<Rightarrow>
       Some (line_reply (if verb cmd = [] then []
               else ''-ERR unknown command '' @ [CHR 0x27] @ verb cmd @ [CHR 0x27]), c))"

end
