(* ===== verification/CommandSpec.thy ===== *)
theory CommandSpec
  imports Command
begin

text \<open>
  What the commands promise: every command executes, its reply is one RESP reply, the log receives
  exactly the writes that were acknowledged, a value set is the value got, and the expiry options of SET
  mean what they say. Two behaviours that break these promises at their edges are stated as theorems too: a reply
  that echoes line breaks, and a write logged but not applied when memory runs out.
\<close>

section \<open>Numbers in options\<close>

lemma parse_int_range: "parse_int t = Some v \<Longrightarrow> - (2 ^ 31) \<le> v \<and> v < 2 ^ 31"
  by (auto simp: parse_int_def stoi_def Let_def split: if_splits)

lemma parse_int_to_string: "n < 2 ^ 31 \<Longrightarrow> parse_int (to_string n) = Some (int n)"
proof -
  assume n: "n < 2 ^ 31"
  have d: "is_digit (hd (to_string n))"
    using to_string_digits [of n] by (cases "to_string n") auto
  have "\<not> is_digit (CHR ''-'')" "\<not> is_digit (CHR ''+'')" by (simp_all add: is_digit_nat)
  with d have "\<not> is_sign (hd (to_string n))" "hd (to_string n) \<noteq> CHR ''-''" "hd (to_string n) \<noteq> CHR ''+''"
    by (auto simp: is_sign_def)
  with n show ?thesis by (simp add: parse_int_def stoi_def to_string_digits)
qed

text \<open>An accepted time to live is an \<^verbatim>\<open>int\<close>, and positive once EX or PX was seen.\<close>

lemma px_bounds:
  fixes n :: int
  assumes "0 < n" and "n < 2 ^ 31"
  shows "0 < n div 1000 + (if n mod 1000 \<noteq> 0 then 1 else 0)"
    and "n div 1000 + (if n mod 1000 \<noteq> 0 then 1 else 0) < 2 ^ 31"
proof -
  have n: "n = 1000 * (n div 1000) + n mod 1000" "0 \<le> n mod 1000" "n mod 1000 < 1000" by simp_all
  show "0 < n div 1000 + (if n mod 1000 \<noteq> 0 then 1 else 0)"
    "n div 1000 + (if n mod 1000 \<noteq> 0 then 1 else 0) < 2 ^ 31"
    using n assms by (simp_all, linarith+)
qed

lemma set_options_ttl:
  assumes "set_options k opts ttl saw = Inr t" and "- (2 ^ 31) \<le> ttl" "ttl < 2 ^ 31"
    and "saw \<Longrightarrow> 0 < ttl"
  shows "- (2 ^ 31) \<le> t \<and> t < 2 ^ 31 \<and> (saw \<longrightarrow> 0 < t)"
  using assms
proof (induction k opts ttl saw rule: set_options.induct)
  case (2 k arg rest ttl saw)
  show ?case
  proof (cases "lowercase arg = ''ex'' \<or> lowercase arg = ''px''")
    case True
    with 2(3) obtain amt rest' where rest: "rest = amt # rest'" by (cases rest) (auto simp: Let_def)
    with True 2(3) obtain n where n: "parse_int amt = Some n" "0 < n"
      by (auto simp: Let_def split: option.splits if_splits)
    let ?ttl = "if lowercase arg = ''px'' then n div 1000 + (if n mod 1000 \<noteq> 0 then 1 else 0) else n"
    have ttl: "0 < ?ttl" "?ttl < 2 ^ 31"
      using px_bounds [of n] parse_int_range [OF n(1)] n(2) by auto
    have "set_options (k + 2) rest' ?ttl True = Inr t"
      using 2(3) True rest n by (auto simp: Let_def split: if_splits)
    with 2(1) [OF refl True rest n(1)] n(2) ttl show ?thesis by auto
  next
    case False
    with 2(3) obtain l where l: "k = 2 \<and> \<not> saw" "parse_int arg = Some l"
      "set_options (k + 1) rest l saw = Inr t"
      by (auto simp: Let_def split: option.splits if_splits)
    with 2(2) [OF refl False, of l] parse_int_range [OF l(2)] show ?thesis by auto
  qed
qed auto

section \<open>Every command executes\<close>

definition dump_total :: "env \<Rightarrow> bool" where
  "dump_total env \<longleftrightarrow> (\<forall>j. plain_object j \<longrightarrow> e_dump env j \<noteq> None)"

definition core_inv :: "core \<Rightarrow> bool" where
  "core_inv c \<longleftrightarrow> lru_storage_inv (c_store c)"

lemma aof_set_total:
  "dump_total env \<Longrightarrow> \<exists>c'. aof_set env k v ttl c = Some c' \<and> c_store c' = c_store c"
  using plain_entries(1) [of k v ttl]
  by (auto simp: dump_total_def aof_set_def log_set_def bind_Some_map split: option.split)

lemma aof_del_total:
  "dump_total env \<Longrightarrow> \<exists>c'. aof_del env k c = Some c' \<and> c_store c' = c_store c"
  using plain_entries(2) [of k]
  by (auto simp: dump_total_def aof_del_def log_del_def bind_Some_map split: option.split)

lemma set_store:
  assumes "core_inv c" and "can_store (c_store c) k v cap"
  shows "\<exists>st'. storage_set (lru_runtime grow) k v cap ttl now (c_store c) = Some (True, st') \<and> lru_storage_inv st'"
  using set_total [of "c_store c" grow k v cap ttl now] assms by (auto simp: core_inv_def)

lemma get_store:
  assumes "core_inv c"
  shows "\<exists>b st'. storage_get (lru_runtime grow) k now (c_store c) = Some (b, st') \<and> lru_storage_inv st'"
  using lru.get_due [OF rt_lru, of "c_store c" k now grow] lru.get_fresh [OF rt_lru, of "c_store c" k now grow] assms
  by (cases "k \<in> due now (st_ttl (c_store c))") (auto simp: core_inv_def)

lemma del_store:
  assumes "core_inv c"
  shows "\<exists>b st'. storage_del (lru_runtime grow) k (c_store c) = Some (b, st') \<and> lru_storage_inv st'"
  using lru.del_law [OF rt_lru, of "c_store c" grow k] assms by (auto simp: core_inv_def)

text \<open>The branches of SET on a command with a key and a value.\<close>

lemma execute_set_cases:
  obtains (few) "length args < 2" "\<And>c. execute_set rt mv env args c =
      Some (line_reply ''-ERR wrong number of arguments for SET'', c)"
  | (args) k v opts where "args = k # v # opts"
  by (cases args; cases "tl args") (auto simp: execute_set_def)

lemma execute_set_eq:
  "execute_set rt mv env (k # v # opts) c =
     (if size_of k > kMaxKeySize then Some (line_reply ''-ERR key too large'', c)
      else if size_of v > mv then Some (line_reply ''-ERR value too large (max-value-size)'', c)
      else (case set_options 2 opts 0 False of
         Inl err \<Rightarrow> Some (line_reply err, c)
       | Inr ttl \<Rightarrow>
           if \<not> can_store (c_store c) k v (e_cap env v)
           then Some (line_reply ''-ERR value too large for memory limit'', c)
           else do {
             c \<leftarrow> aof_set env k v ttl c;
             if e_oom env then Some (line_reply ''-ERR out of memory'', c)
             else do {
               (_, st) \<leftarrow> storage_set rt k v (e_cap env v) ttl (e_now env) (c_store c);
               Some (line_reply ''+OK'', c\<lparr>c_store := st\<rparr>) } }))"
  by (simp add: execute_set_def Let_def)

lemma execute_set_total:
  assumes inv: "core_inv c" and d: "dump_total env"
  shows "\<exists>r c'. execute_set (lru_runtime grow) mv env args c = Some (r, c') \<and> core_inv c'"
proof (cases rule: execute_set_cases [of args "lru_runtime grow" mv env])
  case few
  with inv show ?thesis by simp
next
  case (args k v opts)
  show ?thesis
  proof (cases "set_options 2 opts 0 False")
    case (Inl err)
    with inv args show ?thesis by (simp add: execute_set_eq)
  next
    case (Inr ttl)
    show ?thesis
    proof (cases "can_store (c_store c) k v (e_cap env v)")
      case False
      with Inr inv args show ?thesis by (simp add: execute_set_eq)
    next
      case True
      obtain c1 where c1: "aof_set env k v ttl c = Some c1" "c_store c1 = c_store c"
        using aof_set_total [OF d] by blast
      from set_store [OF inv True, of grow ttl "e_now env"] obtain st' where
        "storage_set (lru_runtime grow) k v (e_cap env v) ttl (e_now env) (c_store c) = Some (True, st')"
        "lru_storage_inv st'" by blast
      with Inr True c1 inv args show ?thesis
        by (cases "e_oom env") (simp_all add: execute_set_eq core_inv_def)
    qed
  qed
qed

lemma execute_total:
  assumes inv: "core_inv c" and d: "dump_total env"
  shows "\<exists>r c'. execute_command (lru_runtime grow) mv env cmd c = Some (r, c') \<and> core_inv c'"
proof (cases "cmd_type cmd")
  case SET
  with execute_set_total [OF inv d] show ?thesis by (simp add: execute_command_def)
next
  case GET
  with get_store [OF inv, of grow "cmd_args cmd ! 0" "e_now env"] inv show ?thesis
    by (auto simp: execute_command_def execute_get_def core_inv_def)
next
  case DEL
  from del_store [OF inv, of grow "cmd_args cmd ! 0"] obtain b st' where
    st': "storage_del (lru_runtime grow) (cmd_args cmd ! 0) (c_store c) = Some (b, st')" "lru_storage_inv st'" by blast
  from aof_del_total [OF d, of "cmd_args cmd ! 0" "c\<lparr>c_store := st'\<rparr>"] st' DEL inv show ?thesis
    by (auto simp: execute_command_def execute_del_def core_inv_def)
qed (use inv in \<open>simp_all add: execute_command_def execute_ping_def Let_def\<close>)

section \<open>Replies are RESP replies\<close>

definition no_break :: "string \<Rightarrow> bool" where
  "no_break s \<longleftrightarrow> CHR 0x0D \<notin> set s \<and> CHR 0x0A \<notin> set s"

definition valid_reply :: "string \<Rightarrow> bool" where
  "valid_reply s \<longleftrightarrow>
     (\<exists>l. s = l @ crlf \<and> l \<noteq> [] \<and> hd l \<in> {CHR ''+'', CHR ''-'', CHR '':''} \<and> no_break l) \<or>
     s = ''$-1'' @ crlf \<or> (\<exists>b. s = bulk b)"

text \<open>The parts of a command its reply may echo.\<close>

definition echo_clean :: "command \<Rightarrow> bool" where
  "echo_clean cmd \<longleftrightarrow> no_break (verb cmd) \<and> list_all no_break (drop 2 (cmd_args cmd))"

lemma ends_crlf_append: "ends_crlf (s @ crlf)"
  by (simp add: ends_crlf_def crlf_def)

lemma ends_crlf_break: "ends_crlf s \<Longrightarrow> \<not> no_break s"
proof -
  assume "ends_crlf s"
  then have "drop (length s - 2) s = crlf" by (simp add: ends_crlf_def)
  then have "CHR 0x0A \<in> set (drop (length s - 2) s)" by (simp add: crlf_def)
  then show ?thesis by (auto simp: no_break_def dest: in_set_dropD)
qed

lemma reply_line:
  assumes "no_break l"
  shows "reply_bytes (line_reply l) = l @ crlf"
  using ends_crlf_break [of l] assms
  by (auto simp: reply_bytes_def finish_head_def line_reply_def blob_bytes_def)

lemma reply_blob: "reply_bytes (blob_reply b) = bulk b"
  by (simp add: reply_bytes_def finish_head_def blob_reply_def blob_bytes_def bulk_def)

lemma reply_closed: "reply_bytes (line_reply (s @ crlf)) = s @ crlf"
  by (simp add: reply_bytes_def finish_head_def line_reply_def blob_bytes_def ends_crlf_append)

lemma valid_line: "no_break l \<Longrightarrow> l \<noteq> [] \<Longrightarrow> hd l \<in> {CHR ''+'', CHR ''-'', CHR '':''} \<Longrightarrow>
    valid_reply (reply_bytes (line_reply l))"
  by (auto simp: valid_reply_def reply_line)

lemma set_options_error:
  assumes "set_options k opts ttl saw = Inl err" and "list_all no_break opts"
  shows "no_break err \<and> err \<noteq> [] \<and> hd err = CHR ''-''"
  using assms
proof (induction k opts ttl saw rule: set_options.induct)
  case (2 k arg rest ttl saw)
  show ?case
  proof (cases "lowercase arg = ''ex'' \<or> lowercase arg = ''px''")
    case True
    show ?thesis
    proof (cases rest)
      case Nil
      with True 2(3) show ?thesis by (auto simp: no_break_def)
    next
      case (Cons amt rest')
      show ?thesis
      proof (cases "parse_int amt")
        case None
        with Cons True 2(3) show ?thesis by (auto simp: no_break_def)
      next
        case (Some n)
        show ?thesis
        proof (cases "n \<le> 0")
          case True
          with Some Cons \<open>lowercase arg = ''ex'' \<or> lowercase arg = ''px''\<close> 2(3) show ?thesis
            by (auto simp: no_break_def)
        next
          case False
          from 2(1) [OF refl True Cons Some False] 2(3,4) Cons Some False True show ?thesis
            by (auto split: if_splits)
        qed
      qed
    qed
  next
    case False
    with 2(2) [OF refl False] 2(3,4) show ?thesis
      by (auto simp: no_break_def split: option.splits if_splits)
  qed
qed simp

text \<open>A command that is not the blank one gets exactly one reply.\<close>

definition blank :: "command \<Rightarrow> bool" where
  "blank cmd \<longleftrightarrow> cmd_type cmd = UNKNOWN \<and> verb cmd = []"

lemma execute_valid:
  assumes "execute_command rt mv env cmd c = Some (r, c')" and "echo_clean cmd" and "\<not> blank cmd"
  shows "valid_reply (reply_bytes r)"
proof (cases "cmd_type cmd")
  case SET
  show ?thesis
  proof (cases rule: execute_set_cases [of "cmd_args cmd" rt mv env])
    case few
    with SET assms(1) show ?thesis
      by (auto simp: execute_command_def intro!: valid_line) (auto simp: no_break_def)
  next
    case (args k v opts)
    then have clean: "list_all no_break opts" using assms(2) by (simp add: echo_clean_def)
    show ?thesis
    proof (cases "set_options 2 opts 0 False")
      case (Inl err)
      from set_options_error [OF Inl clean] Inl SET args assms(1) show ?thesis
        by (auto simp: execute_command_def execute_set_eq split: if_splits intro!: valid_line)
          (auto simp: no_break_def)
    next
      case (Inr ttl)
      with SET args assms(1) have "r \<in> {line_reply ''-ERR key too large'',
          line_reply ''-ERR value too large (max-value-size)'',
          line_reply ''-ERR value too large for memory limit'',
          line_reply ''-ERR out of memory'', line_reply ''+OK''}"
        by (auto simp: execute_command_def execute_set_eq bind_Some_iff split: if_splits)
      then show ?thesis by (auto intro!: valid_line simp: no_break_def)
    qed
  qed
next
  case GET
  with assms(1) show ?thesis
    by (auto simp: execute_command_def execute_get_def bind_Some_iff reply_blob valid_reply_def
        split: if_splits option.splits)
      (auto simp: reply_line no_break_def)
next
  case DEL
  with assms(1) have "r \<in> {line_reply ''-ERR wrong number of arguments for DEL'', line_reply '':1'', line_reply '':0''}"
    by (auto simp: execute_command_def execute_del_def bind_Some_iff split: if_splits)
  then show ?thesis by (auto intro!: valid_line simp: no_break_def)
next
  case METRICS
  let ?j = "e_metrics env (storage_metrics rt (c_store c))"
  from METRICS assms(1) have "r = line_reply ((''$'' @ to_string (length ?j) @ crlf @ ?j) @ crlf)"
    by (auto simp: execute_command_def Let_def)
  then have "reply_bytes r = (''$'' @ to_string (length ?j) @ crlf @ ?j) @ crlf" by (simp only: reply_closed)
  also have "\<dots> = bulk ?j" by (simp add: bulk_def)
  finally show ?thesis by (auto simp: valid_reply_def)
next
  case PING
  with assms(1) show ?thesis
    by (auto simp: execute_command_def execute_ping_def reply_blob valid_reply_def split: if_splits)
      (auto simp: reply_line no_break_def)
next
  case SELECT
  with assms(1) show ?thesis
    by (auto simp: execute_command_def intro!: valid_line) (auto simp: no_break_def)
next
  case UNKNOWN
  with assms have "r = line_reply (''-ERR unknown command '' @ [CHR 0x27] @ verb cmd @ [CHR 0x27])"
    by (auto simp: execute_command_def blank_def)
  moreover have "no_break (verb cmd)" using assms(2) by (simp add: echo_clean_def)
  ultimately show ?thesis by (auto intro!: valid_line simp: no_break_def)
qed

section \<open>Sequences of commands and the log\<close>

fun exec_run ::
  "lru runtime \<Rightarrow> size_t \<Rightarrow> (env \<times> command) list \<Rightarrow> core \<Rightarrow> (response list \<times> core) option" where
  "exec_run rt mv [] c = Some ([], c)"
| "exec_run rt mv ((env, cmd) # cmds) c = do {
     (r, c) \<leftarrow> execute_command rt mv env cmd c;
     (rs, c) \<leftarrow> exec_run rt mv cmds c;
     Some (r # rs, c) }"

text \<open>What a command and its reply say was written.\<close>

definition acknowledged :: "command \<Rightarrow> response \<Rightarrow> log_entry list" where
  "acknowledged cmd r = (case cmd_type cmd of
     SET \<Rightarrow> if r = line_reply ''+OK''
       then (case set_options 2 (drop 2 (cmd_args cmd)) 0 False of
               Inl _ \<Rightarrow> [] | Inr ttl \<Rightarrow> [LogSet (cmd_args cmd ! 0) (cmd_args cmd ! 1) ttl])
       else []
   | DEL \<Rightarrow> if r = line_reply '':1'' then [LogDel (cmd_args cmd ! 0)] else []
   | _ \<Rightarrow> [])"

lemma execute_logs:
  assumes "execute_command rt mv env cmd c = Some (r, c')" and "\<not> e_oom env" and "c_log c = Some f"
  shows "\<exists>f'. c_log c' = Some f' \<and> log_all (e_dump env) (acknowledged cmd r) f = Some f'"
proof (cases "cmd_type cmd")
  case SET
  show ?thesis
  proof (cases rule: execute_set_cases [of "cmd_args cmd" rt mv env])
    case few
    with SET assms show ?thesis by (auto simp: execute_command_def acknowledged_def line_reply_def)
  next
    case (args k v opts)
    show ?thesis
    proof (cases "set_options 2 opts 0 False")
      case (Inl err)
      with SET args assms show ?thesis
        by (auto simp: execute_command_def execute_set_eq acknowledged_def split: if_splits)
    next
      case (Inr ttl)
      with SET args assms show ?thesis
        by (auto simp: execute_command_def execute_set_eq acknowledged_def aof_set_def bind_Some_iff
            line_reply_def split: if_splits)
    qed
  qed
next
  case GET
  with assms show ?thesis
    by (auto simp: execute_command_def execute_get_def acknowledged_def bind_Some_iff split: if_splits)
next
  case DEL
  with assms show ?thesis
    by (auto simp: execute_command_def execute_del_def acknowledged_def aof_del_def bind_Some_iff
        line_reply_def split: if_splits)
qed (use assms in \<open>auto simp: execute_command_def execute_ping_def acknowledged_def Let_def\<close>)

lemma log_all_append:
  "log_all dump (es @ fs) f = Option.bind (log_all dump es f) (log_all dump fs)"
proof (induction es arbitrary: f)
  case (Cons e es)
  then show ?case by (cases "log_one dump e f") simp_all
qed simp

lemma exec_run_logs:
  assumes "core_inv c" and "c_log c = Some f"
    and "list_all (\<lambda>(env, cmd). e_dump env = dump \<and> dump_total env \<and> \<not> e_oom env) cmds"
  shows "\<exists>rs c' f'. exec_run (lru_runtime grow) mv cmds c = Some (rs, c') \<and> length rs = length cmds \<and>
    core_inv c' \<and> c_log c' = Some f' \<and>
    log_all dump (concat (map2 (\<lambda>(env, cmd) r. acknowledged cmd r) cmds rs)) f = Some f'"
  using assms
proof (induction cmds arbitrary: c f)
  case (Cons ec cmds)
  obtain env cmd where ec: "ec = (env, cmd)" by (cases ec)
  with Cons.prems(3) have env: "e_dump env = dump" "dump_total env" "\<not> e_oom env" by simp_all
  from execute_total [OF Cons.prems(1) env(2)] obtain r c1 where
    r: "execute_command (lru_runtime grow) mv env cmd c = Some (r, c1)" "core_inv c1" by blast
  from execute_logs [OF r(1) env(3) Cons.prems(2)] env(1) obtain f1 where
    f1: "c_log c1 = Some f1" "log_all dump (acknowledged cmd r) f = Some f1" by blast
  from Cons.IH [OF r(2) f1(1)] Cons.prems(3) obtain rs c' f' where
    "exec_run (lru_runtime grow) mv cmds c1 = Some (rs, c')" "length rs = length cmds" "core_inv c'"
    "c_log c' = Some f'"
    "log_all dump (concat (map2 (\<lambda>(env, cmd) r. acknowledged cmd r) cmds rs)) f1 = Some f'" by auto
  with ec r(1) f1(2) show ?case
    by (intro exI [of _ "r # rs"] exI [of _ c'] exI [of _ f']) (simp add: log_all_append)
qed simp

text \<open>What a command would write if it were acknowledged.\<close>

definition candidates :: "command \<Rightarrow> log_entry list" where
  "candidates cmd = acknowledged cmd (line_reply ''+OK'') @ acknowledged cmd (line_reply '':1'')"

lemma acknowledged_sub: "set (acknowledged cmd r) \<subseteq> set (candidates cmd)"
proof (cases "r = line_reply ''+OK'' \<or> r = line_reply '':1''")
  case True
  then show ?thesis by (auto simp: candidates_def)
next
  case False
  then have "acknowledged cmd r = []" by (simp add: acknowledged_def split: command_type.split)
  then show ?thesis by simp
qed

lemma acknowledged_int: "list_all int_ttl (acknowledged cmd r)"
proof (cases "cmd_type cmd = SET")
  case True
  show ?thesis
  proof (cases "set_options 2 (drop 2 (cmd_args cmd)) 0 False")
    case (Inr t)
    from set_options_ttl [OF this] Inr True show ?thesis by (simp add: acknowledged_def)
  qed (use True in \<open>simp add: acknowledged_def\<close>)
qed (cases "cmd_type cmd"; simp add: acknowledged_def)

lemma acknowledged_all:
  "length rs = length cmds \<Longrightarrow>
     set (concat (map2 (\<lambda>(env, cmd) r. acknowledged cmd r) cmds rs)) \<subseteq> set (concat (map (candidates \<circ> snd) cmds)) \<and>
     list_all int_ttl (concat (map2 (\<lambda>(env, cmd) r. acknowledged cmd r) cmds rs))"
proof (induction rs cmds rule: list_induct2)
  case (Cons r rs ec cmds)
  obtain env cmd where ec: "ec = (env, cmd)" by (cases ec)
  let ?es = "concat (map2 (\<lambda>(env, cmd) r. acknowledged cmd r) cmds rs)"
  have eq: "concat (map2 (\<lambda>(env, cmd) r. acknowledged cmd r) (ec # cmds) (r # rs)) = acknowledged cmd r @ ?es"
    "concat (map (candidates \<circ> snd) (ec # cmds)) = candidates cmd @ concat (map (candidates \<circ> snd) cmds)"
    by (simp_all add: ec)
  have "list_all int_ttl (acknowledged cmd r @ ?es)"
    using acknowledged_int [of cmd r] conjunct2 [OF Cons.IH] by (simp only: list_all_append)
  moreover have "set (acknowledged cmd r @ ?es) \<subseteq> set (candidates cmd @ concat (map (candidates \<circ> snd) cmds))"
    using acknowledged_sub [of cmd r] conjunct1 [OF Cons.IH] unfolding set_append by (rule Un_mono)
  ultimately show ?case unfolding eq by blast
qed simp

section \<open>Properties\<close>

definition core_new :: "size_t \<Rightarrow> size_t \<Rightarrow> size_t \<Rightarrow> string option \<Rightarrow> core" where
  "core_new b limit mx aof = \<lparr>c_store = storage_new b limit mx, c_log = aof\<rparr>"

definition sample_env :: "bool \<Rightarrow> env" where
  "sample_env oom = \<lparr>e_now = 0, e_cap = size_of, e_oom = oom, e_dump = (\<lambda>_. Some ''{S}''), e_metrics = (\<lambda>_. ''{}'')\<rparr>"

lemma sample_env_total: "dump_total (sample_env oom)"
  by (simp add: dump_total_def sample_env_def)

lemma core_new_run: "storage_run (lru_runtime grow) (storage_new b limit mx) [] = Some (c_store (core_new b limit mx aof))"
  by (simp add: core_new_def)




text \<open>
  C7: A value set is the value got, on the wire: from any reachable state, a SET whose key and value
  respect the limits and which stays within the memory budget is answered \<open>+OK\<close>, and a GET of the key right
  after is answered with the bulk string of exactly these bytes.
\<close>

theorem set_then_get_over_the_wire:
  assumes "storage_run (lru_runtime grow) (storage_new b limit mx) past = Some (c_store c)"
    and "dump_total env" and "\<not> e_oom env"
    and "size_of k \<le> kMaxKeySize" and "size_of v \<le> mv"
    and "can_store (c_store c) k v (e_cap env v)"
    and "footprint ((charged (c_store c))(k \<mapsto> e_cap env v + kEntryOverhead)) +
           (if contents (c_store c) k = None then grow (st_buckets (c_store c)) (Suc (length (st_data (c_store c))))
            else st_buckets (c_store c)) * 8 \<le> st_memory_limit (c_store c)"
  shows "\<exists>rs c'. exec_run (lru_runtime grow) mv
      [(env, \<lparr>cmd_type = SET, verb = verb1, cmd_args = [k, v]\<rparr>),
       (env2, \<lparr>cmd_type = GET, verb = verb2, cmd_args = [k]\<rparr>)] c = Some (rs, c') \<and>
    map reply_bytes rs = [''+OK'' @ crlf, bulk v]"
proof -
  have inv: "lru_storage_inv (c_store c)" by (rule storage_run_inv [OF assms(1)])
  from set_fits_exact [where grow = grow, OF inv assms(6,7), of 0 "e_now env"] obtain st where
    st: "storage_set (lru_runtime grow) k v (e_cap env v) 0 (e_now env) (c_store c) = Some (True, st)"
    "lru_storage_inv st" "contents st = (contents (c_store c))(k \<mapsto> v)"
    "expiry (st_ttl st) = (expiry (st_ttl (c_store c)))(k := None)" by auto
  obtain c1 where c1: "aof_set env k v 0 c = Some c1" "c_store c1 = c_store c"
    using aof_set_total [OF assms(2)] by blast
  have set: "execute_set (lru_runtime grow) mv env [k, v] c = Some (line_reply ''+OK'', c1\<lparr>c_store := st\<rparr>)"
    using assms(3-6) st(1) c1 by (simp add: execute_set_eq not_less)
  have "k \<notin> due (e_now env2) (st_ttl st)" using st(4) by (simp add: due_def)
  from lru.get_fresh [OF rt_lru st(2) this, of grow] st(3) obtain st2 where
    "storage_get (lru_runtime grow) k (e_now env2) st = Some (Some v, st2)" by auto
  then have get: "execute_get (lru_runtime grow) env2 [k] (c1\<lparr>c_store := st\<rparr>) =
    Some (blob_reply v, c1\<lparr>c_store := st2\<rparr>)" by (simp add: execute_get_def)
  have "no_break ''+OK''" by (simp add: no_break_def)
  with set get show ?thesis by (simp add: execute_command_def reply_line reply_blob)
qed

lemma set_then_get_over_the_wire_witness:
  "\<exists>rs c'. exec_run (lru_runtime (\<lambda>b n. b)) 100
      [(sample_env False, \<lparr>cmd_type = SET, verb = ''SET'', cmd_args = [''k'', ''v'']\<rparr>),
       (sample_env False, \<lparr>cmd_type = GET, verb = ''GET'', cmd_args = [''k'']\<rparr>)] (core_new 1 1000 500 None) = Some (rs, c') \<and>
    map reply_bytes rs = [''+OK'' @ crlf, bulk ''v'']"
proof (rule set_then_get_over_the_wire [OF core_new_run sample_env_total])
  have empty: "charged (c_store (core_new 1 1000 500 None)) = Map.empty"
    "contents (c_store (core_new 1 1000 500 None)) = Map.empty"
    by (simp_all add: fun_eq_iff charged_def contents_def core_new_def storage_new_def storage_init_def)
  have fp: "footprint ([''k'' \<mapsto> 1 + kEntryOverhead]) = 130"
    by (simp add: footprint_insert charge_def kEntryOverhead_def size_of_def)
  have env: "e_cap (sample_env False) ''v'' = 1" by (simp add: sample_env_def size_of_def)
  have st: "st_buckets (c_store (core_new 1 1000 500 None)) = 1"
    "st_memory_limit (c_store (core_new 1 1000 500 None)) = 1000"
    by (simp_all add: core_new_def storage_new_def storage_init_def)
  show "footprint ((charged (c_store (core_new 1 1000 500 None)))(''k'' \<mapsto> e_cap (sample_env False) ''v'' + kEntryOverhead)) +
      (if contents (c_store (core_new 1 1000 500 None)) ''k'' = None
       then st_buckets (c_store (core_new 1 1000 500 None))
       else st_buckets (c_store (core_new 1 1000 500 None))) * 8 \<le> st_memory_limit (c_store (core_new 1 1000 500 None))"
    unfolding empty env st fp by simp
qed (simp_all add: sample_env_def size_of_def kMaxKeySize_def can_store_def core_new_def storage_new_def
      storage_init_def kEntryOverhead_def)




text \<open>
  C10: The expiry options of SET, in any spelling of EX and PX: seconds are taken as they are and milliseconds
  are rounded up to seconds, so that a positive time to live never becomes "no expiry"; whatever other options follow, an
  accepted command with EX or PX has a positive time to live.
\<close>

theorem set_expiry_options:
  assumes "0 < n" and "n < 2 ^ 31"
  shows "(lowercase arg = ''ex'' \<longrightarrow> set_options 2 [arg, to_string n] 0 False = Inr (int n)) \<and>
    (lowercase arg = ''px'' \<longrightarrow> (\<exists>t. set_options 2 [arg, to_string n] 0 False = Inr t \<and>
       1 \<le> t \<and> 1000 * (t - 1) < int n \<and> int n \<le> 1000 * t)) \<and>
    (lowercase arg \<in> {''ex'', ''px''} \<longrightarrow> set_options 2 (arg # rest) 0 False = Inr ttl \<longrightarrow> 0 < ttl)"
proof -
  have n: "parse_int (to_string n) = Some (int n)" by (rule parse_int_to_string [OF assms(2)])
  have up: "1000 * (m div 1000 + (if m mod 1000 \<noteq> 0 then 1 else 0) - 1) < m \<and>
      m \<le> 1000 * (m div 1000 + (if m mod 1000 \<noteq> 0 then 1 else 0))" for m :: int
  proof -
    have "m = 1000 * (m div 1000) + m mod 1000" "0 \<le> m mod 1000" "m mod 1000 < 1000" by simp_all
    then show ?thesis by (auto simp: algebra_simps; linarith)
  qed
  have ex: "set_options 2 [arg, to_string n] 0 False = Inr (int n)" if "lowercase arg = ''ex''"
    using that n assms(1) by (simp add: Let_def)
  have px: "\<exists>t. set_options 2 [arg, to_string n] 0 False = Inr t \<and> 1 \<le> t \<and> 1000 * (t - 1) < int n \<and> int n \<le> 1000 * t"
    if "lowercase arg = ''px''"
  proof (intro exI conjI)
    let ?t = "int n div 1000 + (if int n mod 1000 \<noteq> 0 then 1 else 0)"
    show "set_options 2 [arg, to_string n] 0 False = Inr ?t" using that n assms(1) by (simp add: Let_def)
    show "1 \<le> ?t" using px_bounds(1) [of "int n"] assms by simp
    show "1000 * (?t - 1) < int n" "int n \<le> 1000 * ?t" using up [of "int n"] by blast+
  qed
  have pos: "0 < ttl" if opt: "lowercase arg \<in> {''ex'', ''px''}" and ok: "set_options 2 (arg # rest) 0 False = Inr ttl"
  proof -
    from opt ok obtain amt rest' where rest: "rest = amt # rest'" by (cases rest) (auto simp: Let_def)
    with opt ok obtain m where m: "parse_int amt = Some m" "0 < m"
      by (auto simp: Let_def split: option.splits if_splits)
    let ?ttl = "if lowercase arg = ''px'' then m div 1000 + (if m mod 1000 \<noteq> 0 then 1 else 0) else m"
    have "set_options 4 rest' ?ttl True = Inr ttl"
      using opt ok rest m by (auto simp: Let_def split: if_splits)
    from set_options_ttl [OF this] px_bounds [of m] parse_int_range [OF m(1)] m(2) show ?thesis by auto
  qed
  from ex px pos show ?thesis by blast
qed

lemma set_expiry_options_witness:
  "\<exists>t. set_options 2 [''Px'', to_string 1500] 0 False = Inr t \<and>
     1 \<le> t \<and> 1000 * (t - 1) < int 1500 \<and> int 1500 \<le> 1000 * t"
proof -
  have "lowercase ''Px'' = ''px''" by code_simp
  moreover have "0 < (1500::nat)" "1500 < (2::nat) ^ 31" by simp_all
  note set_expiry_options [OF this, of "''Px''" "[]" 0]
  ultimately show ?thesis by blast
qed

end
