(* ===== verification/Socket.thy ===== *)
theory Socket
  imports Prelude "HOL-Library.Sublist"
begin

text \<open>
  A connected, non-blocking socket as the program sees it. The kernel's answers to successive calls of
  \<^verbatim>\<open>send\<close> and \<^verbatim>\<open>recv\<close> are lists, which the loops of the program consume: every behaviour of the
  kernel is such a list. The locale \<open>sender\<close> is the contract of a routine that moves bytes to a
  socket: the bytes on the wire only grow, and with what is still pending they are the same stream.
\<close>

section \<open>The kernel's answers\<close>

text \<open>
  \<open>Sent n\<close>: up to \<open>n\<close> bytes of the offered buffer are taken. \<open>Send_again\<close> is \<^verbatim>\<open>EAGAIN\<close> or \<^verbatim>\<open>EWOULDBLOCK\<close>,
  which are the same number on the supported systems.
\<close>

datatype send_result = Sent nat | Send_again | Send_intr | Send_failed

text \<open>An empty \<open>Received\<close> is the return value 0: the peer has closed its side.\<close>

datatype recv_result = Received string | Recv_again | Recv_intr | Recv_failed

fun send_once :: "send_result list \<Rightarrow> string \<Rightarrow> send_result \<times> send_result list \<times> string" where
  "send_once [] buf = (Send_again, [], [])"
| "send_once (Sent n # rs) buf = (Sent (min n (length buf)), rs, take n buf)"
| "send_once (r # rs) buf = (r, rs, [])"

lemma send_once_shorter: "send_once rs buf = (r, rs', bytes) \<Longrightarrow> r \<noteq> Send_again \<Longrightarrow> length rs' < length rs"
  by (induction rs buf rule: send_once.induct) auto

lemma send_once_sent: "send_once rs buf = (Sent n, rs', bytes) \<Longrightarrow> n \<le> length buf \<and> bytes = take n buf"
  by (induction rs buf rule: send_once.induct) (auto simp: min_def)

text \<open>An answer of a healthy connection: no error, and at least one byte when any is taken.\<close>

fun takes :: "send_result \<Rightarrow> bool" where
  "takes (Sent n) \<longleftrightarrow> n > 0"
| "takes Send_failed \<longleftrightarrow> False"
| "takes _ \<longleftrightarrow> True"

fun is_sent :: "send_result \<Rightarrow> bool" where
  "is_sent (Sent n) \<longleftrightarrow> True"
| "is_sent _ \<longleftrightarrow> False"

lemma send_once_takes:
  "send_once rs buf = (r, rs', bytes) \<Longrightarrow> list_all takes rs \<Longrightarrow> buf \<noteq> [] \<Longrightarrow> takes r \<and> list_all takes rs'"
  by (induction rs buf rule: send_once.induct) auto

text \<open>The data that can be read before the socket would block, and that nothing but \<^verbatim>\<open>EAGAIN\<close> ends it.\<close>

fun incoming :: "recv_result list \<Rightarrow> string list" where
  "incoming (Received d # rs) = d # incoming rs"
| "incoming (Recv_intr # rs) = incoming rs"
| "incoming _ = []"

fun alive :: "recv_result list \<Rightarrow> bool" where
  "alive (Received d # rs) \<longleftrightarrow> d \<noteq> [] \<and> alive rs"
| "alive (Recv_intr # rs) \<longleftrightarrow> alive rs"
| "alive (Recv_failed # rs) \<longleftrightarrow> False"
| "alive _ \<longleftrightarrow> True"

section \<open>Routines that send\<close>

locale sender =
  fixes sends :: "'q \<Rightarrow> string \<Rightarrow> 'q \<Rightarrow> string \<Rightarrow> bool"
    and pend :: "'q \<Rightarrow> string"
  assumes stream: "sends q w q' w' \<Longrightarrow> w' @ pend q' = w @ pend q"
    and grows: "sends q w q' w' \<Longrightarrow> prefix w w'"
begin

lemma within: "sends q w q' w' \<Longrightarrow> prefix w' (w @ pend q)"
  using stream by (metis prefixI)

lemma complete: "sends q w q' w' \<Longrightarrow> pend q' = [] \<Longrightarrow> w' = w @ pend q"
  using stream by fastforce

lemma idle: "sends q w q' w' \<Longrightarrow> pend q = [] \<Longrightarrow> w' = w"
  using within grows by (metis append_Nil2 prefix_order.antisym)

end

end
