(* ===== verification/Outbox.thy ===== *)
theory Outbox
  imports Command Socket
begin

text \<open>
  The output queue of a connection (\<^verbatim>\<open>src/src/server.h\<close>, \<^verbatim>\<open>OutChunk\<close>; \<^verbatim>\<open>server.cpp\<close>, the loop of
  \<^verbatim>\<open>Server::try_send\<close>). The loop consumes the kernel's answers (theory \<open>Socket\<close>); the socket blocks when they are
  used up. The lemmas say that the loop moves bytes from the queue to the wire without losing,
  repeating or reordering any: the queue is a \<open>sender\<close>.
\<close>

section \<open>Chunks\<close>

text \<open>The counters never pass the length of their part, so that they are \<open>nat\<close> here.\<close>

record out_chunk =
  oc_head :: string
  oc_head_sent :: nat
  oc_blob :: blob
  oc_blob_sent :: nat
  oc_tail :: string
  oc_tail_sent :: nat

definition chunk_of :: "response \<Rightarrow> out_chunk" where
  "chunk_of r = \<lparr>oc_head = r_head r, oc_head_sent = 0, oc_blob = r_blob r, oc_blob_sent = 0,
     oc_tail = r_tail r, oc_tail_sent = 0\<rparr>"

datatype part = Head | Blob | Tail | Done

definition next_part :: "out_chunk \<Rightarrow> part \<times> string" where
  "next_part c =
     (if oc_head_sent c < length (oc_head c) then (Head, drop (oc_head_sent c) (oc_head c))
      else if oc_blob c \<noteq> None \<and> oc_blob_sent c < length (the (oc_blob c))
      then (Blob, drop (oc_blob_sent c) (the (oc_blob c)))
      else if oc_tail_sent c < length (oc_tail c) then (Tail, drop (oc_tail_sent c) (oc_tail c))
      else (Done, []))"

definition advance :: "part \<Rightarrow> nat \<Rightarrow> out_chunk \<Rightarrow> out_chunk" where
  "advance p sent c = (case p of
     Head \<Rightarrow> c\<lparr>oc_head_sent := oc_head_sent c + sent\<rparr>
   | Blob \<Rightarrow> c\<lparr>oc_blob_sent := oc_blob_sent c + sent\<rparr>
   | _ \<Rightarrow> c\<lparr>oc_tail_sent := oc_tail_sent c + sent\<rparr>)"

section \<open>The sending loop\<close>

text \<open>
  The queue, the kernel's answers and the bytes on the wire. The result is \<open>True\<close> when the loop ends by
  itself (nothing left, or the socket would block) and \<open>False\<close> when the connection has to be closed.
\<close>

function send_loop ::
  "out_chunk list \<Rightarrow> send_result list \<Rightarrow> string \<Rightarrow> bool \<times> out_chunk list \<times> send_result list \<times> string" where
  "send_loop [] rs wire = (True, [], rs, wire)"
| "send_loop (c # queue) rs wire = (case next_part c of (p, buf) \<Rightarrow>
     if p = Done then send_loop queue rs wire
     else (case send_once rs buf of (r, rs', bytes) \<Rightarrow> (case r of
         Sent n \<Rightarrow>
           if n > 0 then send_loop (advance p n c # queue) rs' (wire @ bytes)
           else (False, c # queue, rs', wire)
       | Send_again \<Rightarrow> (True, c # queue, rs', wire)
       | Send_intr \<Rightarrow> send_loop (c # queue) rs' wire
       | Send_failed \<Rightarrow> (False, c # queue, rs', wire))))"
  by pat_completeness auto

termination
  by (relation "measure (\<lambda>(queue, rs, _). length queue + length rs)") (auto dest!: send_once_shorter [OF sym])

declare send_loop.simps(2) [simp del]

section \<open>No byte is lost, repeated or reordered\<close>

definition chunk_pending :: "out_chunk \<Rightarrow> string" where
  "chunk_pending c = drop (oc_head_sent c) (oc_head c) @ drop (oc_blob_sent c) (blob_bytes (oc_blob c)) @
     drop (oc_tail_sent c) (oc_tail c)"

definition pending :: "out_chunk list \<Rightarrow> string" where
  "pending queue = concat (map chunk_pending queue)"

lemma pending_simps [simp]:
  "pending [] = []" "pending (c # queue) = chunk_pending c @ pending queue"
  "pending (queue @ queue') = pending queue @ pending queue'"
  by (simp_all add: pending_def)

lemma chunk_pending_of: "chunk_pending (chunk_of (finish_head r)) = reply_bytes r"
  by (simp add: chunk_pending_def chunk_of_def reply_bytes_def finish_head_def)

lemma next_part_Done: "next_part c = (Done, buf) \<Longrightarrow> chunk_pending c = []"
  by (auto simp: next_part_def chunk_pending_def blob_bytes_def split: if_splits option.splits)

lemma next_part_sent:
  assumes "next_part c = (p, buf)" and "p \<noteq> Done" and "n \<le> length buf"
  shows "chunk_pending c = take n buf @ chunk_pending (advance p n c)" and "buf \<noteq> []"
  using assms
  by (auto simp: next_part_def chunk_pending_def advance_def blob_bytes_def drop_drop [symmetric] add.commute
      simp del: drop_drop split: if_splits option.splits)

lemma send_loop_stream:
  "send_loop queue rs wire = (ok, queue', rs', wire') \<Longrightarrow>
     wire' @ pending queue' = wire @ pending queue \<and> prefix wire wire' \<and> length queue' \<le> length queue"
proof (induction queue rs wire rule: send_loop.induct)
  case (2 c queue rs wire)
  obtain p buf where p: "next_part c = (p, buf)" by (cases "next_part c")
  show ?case
  proof (cases "p = Done")
    case True
    with 2(1) [OF p [symmetric] True] 2(4) p next_part_Done [of c buf] show ?thesis
      by (simp add: send_loop.simps(2))
  next
    case False
    obtain r rs1 bytes where r: "send_once rs buf = (r, rs1, bytes)" by (cases "send_once rs buf")
    show ?thesis
    proof (cases r)
      case (Sent n)
      with send_once_sent r have n: "n \<le> length buf" "bytes = take n buf" by blast+
      from next_part_sent(1) [OF p False n(1)] n(2)
      have c: "chunk_pending c = bytes @ chunk_pending (advance p n c)" by simp
      show ?thesis
      proof (cases "n > 0")
        case True
        with 2(2) [OF p [symmetric] False r [symmetric] refl Sent True] 2(4) p False r Sent c show ?thesis
          by (simp add: send_loop.simps(2)) (blast dest: append_prefixD)
      qed (use 2(4) p False r Sent in \<open>auto simp: send_loop.simps(2)\<close>)
    next
      case Send_intr
      with 2(3) [OF p [symmetric] False r [symmetric] refl Send_intr] 2(4) p False r show ?thesis
        by (simp add: send_loop.simps(2))
    qed (use 2(4) p False r in \<open>auto simp: send_loop.simps(2)\<close>)
  qed
qed simp

interpretation outbox: sender "\<lambda>q w q' w'. \<exists>rs ok rs'. send_loop q rs w = (ok, q', rs', w')" pending
  by unfold_locales (auto dest: send_loop_stream)

text \<open>
  A connection is given up only when the kernel reports an error, or takes nothing of what it is offered.
\<close>

lemma send_loop_ok:
  "send_loop queue rs wire = (ok, queue', rs', wire') \<Longrightarrow> list_all takes rs \<Longrightarrow> ok \<and> list_all takes rs'"
proof (induction queue rs wire rule: send_loop.induct)
  case (2 c queue rs wire)
  obtain p buf where p: "next_part c = (p, buf)" by (cases "next_part c")
  show ?case
  proof (cases "p = Done")
    case True
    with 2(1) [OF p [symmetric] True] 2(4,5) p show ?thesis by (simp add: send_loop.simps(2))
  next
    case False
    obtain r rs1 bytes where r: "send_once rs buf = (r, rs1, bytes)" by (cases "send_once rs buf")
    from p False next_part_sent(2) [OF p False, of 0] have "buf \<noteq> []" by simp
    with send_once_takes [OF r] 2(5) have t: "list_all takes rs1" "takes r" by blast+
    show ?thesis
    proof (cases r)
      case (Sent n)
      with t have "n > 0" by simp
      with 2(2) [OF p [symmetric] False r [symmetric] refl Sent] 2(4) p False r Sent t show ?thesis
        by (simp add: send_loop.simps(2))
    next
      case Send_intr
      with 2(3) [OF p [symmetric] False r [symmetric] refl Send_intr] 2(4) p False r t show ?thesis
        by (simp add: send_loop.simps(2))
    qed (use 2(4) p False r t in \<open>auto simp: send_loop.simps(2)\<close>)
  qed
qed simp

text \<open>Every answer that takes bytes shortens what is pending, so enough of them empty the queue.\<close>

lemma send_loop_drains:
  "send_loop queue rs wire = (ok, queue', rs', wire') \<Longrightarrow> list_all (\<lambda>r. \<exists>n>0. r = Sent n) rs \<Longrightarrow>
     length (pending queue) \<le> length rs \<Longrightarrow> ok \<and> queue' = []"
proof (induction queue rs wire rule: send_loop.induct)
  case (2 c queue rs wire)
  obtain p buf where p: "next_part c = (p, buf)" by (cases "next_part c")
  show ?case
  proof (cases "p = Done")
    case True
    with 2(1) [OF p [symmetric] True] 2(4-6) p next_part_Done [of c buf] show ?thesis
      by (simp add: send_loop.simps(2))
  next
    case False
    from next_part_sent [OF p False, of 0] have buf: "buf \<noteq> []" by simp
    from next_part_sent(1) [OF p False, of "length buf"] buf have "chunk_pending c \<noteq> []" by simp
    with 2(5,6) obtain n rs1 where rs: "rs = Sent n # rs1" "n > 0" by (cases rs) auto
    let ?m = "min n (length buf)"
    have m: "?m > 0" "?m \<le> length buf" using rs buf by auto
    have r: "send_once rs buf = (Sent ?m, rs1, take n buf)" by (simp add: rs)
    from next_part_sent(1) [OF p False m(2)] m
    have "length (chunk_pending c) = ?m + length (chunk_pending (advance p ?m c))" by (simp add: min_def)
    moreover have "length rs = Suc (length rs1)" by (simp add: rs)
    ultimately have "length (pending (advance p ?m c # queue)) \<le> length rs1"
      using 2(6) m(1) unfolding pending_simps length_append by linarith
    with 2(2) [OF p [symmetric] False r [symmetric] refl refl m(1)] 2(4,5) p False r rs m show ?thesis
      by (simp add: send_loop.simps(2))
  qed
qed simp

end
