(* ===== verification/Server.thy ===== *)
theory Server
  imports CommandSpec Outbox
begin

text \<open>
  The event loop of the server (\<^verbatim>\<open>src/src/server.h\<close>, \<^verbatim>\<open>server.cpp\<close>): accepting, closing, reading and answering
  connections, and the dispatch of one \<^verbatim>\<open>epoll\<close> event. The state has the server's tables and the part of
  the kernel they talk to: per descriptor the answers to \<^verbatim>\<open>recv\<close> and \<^verbatim>\<open>send\<close>, the bytes put on the wire, and
  the events \<^verbatim>\<open>epoll\<close> watches for. \<open>None\<close> is undefined behaviour or an exception the loop does not catch.
\<close>

section \<open>State\<close>

type_synonym flags = "32 word"

definition EPOLLIN :: flags where "EPOLLIN = 0x001"
definition EPOLLOUT :: flags where "EPOLLOUT = 0x004"
definition EPOLLERR :: flags where "EPOLLERR = 0x008"
definition EPOLLHUP :: flags where "EPOLLHUP = 0x010"

definition kMaxQueuedChunks :: nat where "kMaxQueuedChunks = 1024"

definition kParseOvershoot :: size_t where "kParseOvershoot = 1024 * 1024"

text \<open>\<open>k_env i\<close> is what the \<open>i\<close>-th command executed reads from outside, and \<open>k_ticks\<close> counts them.\<close>

record server =
  sv_core :: core
  sv_max_value :: size_t
  parsers :: "int \<rightharpoonup> parser"
  outbox :: "int \<rightharpoonup> out_chunk list"
  watch_flags :: "int \<rightharpoonup> flags"
  k_interest :: "int \<rightharpoonup> flags"
  k_recv :: "int \<Rightarrow> recv_result list"
  k_send :: "int \<Rightarrow> send_result list"
  k_wire :: "int \<Rightarrow> string"
  k_env :: "nat \<Rightarrow> env"
  k_ticks :: nat

text \<open>\<^verbatim>\<open>epoll_ctl\<close>: adding registers a descriptor, modifying and deleting need it registered.\<close>

definition epoll_add :: "int \<Rightarrow> flags \<Rightarrow> server \<Rightarrow> server" where
  "epoll_add fd ev s = s\<lparr>k_interest := (k_interest s)(fd \<mapsto> ev)\<rparr>"

definition epoll_mod :: "int \<Rightarrow> flags \<Rightarrow> server \<Rightarrow> server" where
  "epoll_mod fd ev s =
     (if k_interest s fd = None then s else s\<lparr>k_interest := (k_interest s)(fd \<mapsto> ev)\<rparr>)"

definition epoll_del :: "int \<Rightarrow> server \<Rightarrow> server" where
  "epoll_del fd s = s\<lparr>k_interest := (k_interest s)(fd := None)\<rparr>"

section \<open>Closing, watching and sending\<close>

definition close_client :: "int \<Rightarrow> server \<Rightarrow> server" where
  "close_client fd s = (let s = epoll_del fd s in
     s\<lparr>parsers := (parsers s)(fd := None), outbox := (outbox s)(fd := None),
       watch_flags := (watch_flags s)(fd := None)\<rparr>)"

definition update_watch :: "int \<Rightarrow> server \<Rightarrow> server" where
  "update_watch fd s =
     (let flags = (case outbox s fd of
            Some queue \<Rightarrow> if queue \<noteq> [] then or EPOLLIN EPOLLOUT else EPOLLIN
          | None \<Rightarrow> EPOLLIN)
      in if watch_flags s fd = Some flags then s
         else let s = epoll_mod fd flags s in s\<lparr>watch_flags := (watch_flags s)(fd \<mapsto> flags)\<rparr>)"

definition try_send :: "int \<Rightarrow> server \<Rightarrow> server" where
  "try_send fd s = (case outbox s fd of
     None \<Rightarrow> s
   | Some queue \<Rightarrow> (case send_loop queue (k_send s fd) (k_wire s fd) of (ok, queue, rs, wire) \<Rightarrow>
       let s = s\<lparr>outbox := (outbox s)(fd \<mapsto> queue), k_send := (k_send s)(fd := rs),
                k_wire := (k_wire s)(fd := wire)\<rparr>
       in if \<not> ok then close_client fd s
          else let s = (if queue = [] then s\<lparr>outbox := (outbox s)(fd := None)\<rparr> else s)
               in update_watch fd s))"

definition queue_response :: "int \<Rightarrow> response \<Rightarrow> server \<Rightarrow> server" where
  "queue_response fd response s =
     (let response = finish_head response;
          queue = (case outbox s fd of None \<Rightarrow> [] | Some queue \<Rightarrow> queue) @ [chunk_of response];
          s = s\<lparr>outbox := (outbox s)(fd \<mapsto> queue)\<rparr>
      in if length queue > kMaxQueuedChunks then close_client fd s else try_send fd s)"

section \<open>Accepting\<close>

datatype accept_result = Accepted int | Accept_intr | Accept_failed

definition parse_limit :: "server \<Rightarrow> size_t" where
  "parse_limit s = min (sv_max_value s) (st_memory_limit (c_store (sv_core s))) + kParseOvershoot"

text \<open>\<^verbatim>\<open>try_emplace\<close> keeps a parser that is already there. The wire of a new connection is empty.\<close>

definition register_client :: "int \<Rightarrow> server \<Rightarrow> server" where
  "register_client fd s =
     (let s = epoll_add fd EPOLLIN (s\<lparr>k_wire := (k_wire s)(fd := [])\<rparr>);
          s = (if parsers s fd = None
               then s\<lparr>parsers := (parsers s)(fd \<mapsto> parser_init (parse_limit s))\<rparr> else s)
      in s\<lparr>watch_flags := (watch_flags s)(fd \<mapsto> EPOLLIN)\<rparr>)"

text \<open>An exhausted list is \<^verbatim>\<open>EAGAIN\<close>: nobody else is waiting.\<close>

fun accept_connections :: "accept_result list \<Rightarrow> server \<Rightarrow> server" where
  "accept_connections [] s = s"
| "accept_connections (Accept_intr # rs) s = accept_connections rs s"
| "accept_connections (Accept_failed # rs) s = s"
| "accept_connections (Accepted fd # rs) s = accept_connections rs (register_client fd s)"

section \<open>Reading\<close>

text \<open>A \<^verbatim>\<open>send\<close> beside the queue, its result ignored.\<close>

definition send_direct :: "int \<Rightarrow> string \<Rightarrow> server \<Rightarrow> server" where
  "send_direct fd text s = (case send_once (k_send s fd) text of (_, rs, bytes) \<Rightarrow>
     s\<lparr>k_send := (k_send s)(fd := rs), k_wire := (k_wire s)(fd := k_wire s fd @ bytes)\<rparr>)"

definition error_reply :: "parser \<Rightarrow> string" where
  "error_reply p = ''-ERR Protocol error: '' @ error p @ crlf"

text \<open>
  The inner loop on the bytes of one \<^verbatim>\<open>recv\<close>; \<open>p\<close> is what the reference \<^verbatim>\<open>parser\<close> refers to. The result is \<open>False\<close>
  when the connection was closed.
\<close>

function drain_buffer ::
  "(size_t \<Rightarrow> bool) \<Rightarrow> lru runtime \<Rightarrow> int \<Rightarrow> parser \<Rightarrow> string \<Rightarrow> server \<Rightarrow> (bool \<times> server) option" where
  "drain_buffer alloc rt fd p data s =
     (if data = [] then Some (True, s)
      else (case consume alloc p data command_default of
         None \<Rightarrow> None
       | Some (st, p', rest, cmd) \<Rightarrow>
           let s = s\<lparr>parsers := (parsers s)(fd \<mapsto> p')\<rparr>
           in if st = NeedMore then Some (True, s)
              else if st = Error then Some (False, close_client fd (send_direct fd (error_reply p') s))
              else if cmd_type cmd = UNKNOWN \<and> verb cmd = [] then drain_buffer alloc rt fd p' rest s
              else (case execute_command rt (sv_max_value s) (k_env s (k_ticks s)) cmd (sv_core s) of
                 None \<Rightarrow> None
               | Some (r, core) \<Rightarrow>
                   let s = queue_response fd r (s\<lparr>sv_core := core, k_ticks := Suc (k_ticks s)\<rparr>)
                   in if parsers s fd = None then Some (False, s) else drain_buffer alloc rt fd p' rest s)))"
  by pat_completeness auto
termination
proof (relation "measures [\<lambda>(_, _, _, _, data, _). length data, \<lambda>(_, _, _, p, _, _). if p_state p = PReady then 1 else 0]",
    goal_cases)
  case 1
  then show ?case by simp
next
  case (2 alloc rt fd p data s a2 st b p' d rest cmd s')
  then have "st = Ready" by (cases st) simp_all
  with 2 consume_ready [of alloc p data command_default p' rest cmd] show ?case by (auto split: if_splits)
next
  case (3 alloc rt fd p data s a2 st b p' d rest cmd s' e r core s'')
  then have "st = Ready" by (cases st) simp_all
  with 3 consume_ready [of alloc p data command_default p' rest cmd] show ?case by (auto split: if_splits)
qed

declare drain_buffer.simps [simp del]

fun read_loop ::
  "(size_t \<Rightarrow> bool) \<Rightarrow> lru runtime \<Rightarrow> int \<Rightarrow> recv_result list \<Rightarrow> server \<Rightarrow> server option" where
  "read_loop alloc rt fd [] s = Some (s\<lparr>k_recv := (k_recv s)(fd := [])\<rparr>)"
| "read_loop alloc rt fd (r # rs) s =
     (let s = s\<lparr>k_recv := (k_recv s)(fd := rs)\<rparr>
      in case r of
        Received data \<Rightarrow>
          if data = [] then Some (close_client fd s)
          else (case parsers s fd of
             None \<Rightarrow> Some s
           | Some p \<Rightarrow> do {
               (going, s) \<leftarrow> drain_buffer alloc rt fd p data s;
               if going then read_loop alloc rt fd rs s else Some s })
      | Recv_again \<Rightarrow> Some s
      | Recv_intr \<Rightarrow> read_loop alloc rt fd rs s
      | Recv_failed \<Rightarrow> Some (close_client fd s))"

definition handle_readable :: "(size_t \<Rightarrow> bool) \<Rightarrow> lru runtime \<Rightarrow> int \<Rightarrow> server \<Rightarrow> server option" where
  "handle_readable alloc rt fd s = read_loop alloc rt fd (k_recv s fd) s"

section \<open>One event of a client\<close>

definition handle_event ::
  "(size_t \<Rightarrow> bool) \<Rightarrow> lru runtime \<Rightarrow> flags \<Rightarrow> int \<Rightarrow> server \<Rightarrow> server option" where
  "handle_event alloc rt ev fd s =
     (if and ev (or EPOLLERR EPOLLHUP) \<noteq> 0 \<and> and ev EPOLLIN = 0 then Some (close_client fd s)
      else do {
        s \<leftarrow> (if and ev EPOLLIN \<noteq> 0 then handle_readable alloc rt fd s else Some s);
        if and ev EPOLLIN \<noteq> 0 \<and> parsers s fd = None then Some s
        else let s = (if and ev EPOLLOUT \<noteq> 0 then try_send fd s else s)
             in Some (if and ev (or EPOLLERR EPOLLHUP) \<noteq> 0 \<and> parsers s fd \<noteq> None
                      then close_client fd s else s) })"

text \<open>
  The events of one \<^verbatim>\<open>epoll_wait\<close>. The wake pipe is only drained; \<open>accs\<close> are the answers to \<^verbatim>\<open>accept\<close>.
\<close>

fun handle_events ::
  "(size_t \<Rightarrow> bool) \<Rightarrow> lru runtime \<Rightarrow> int \<Rightarrow> int \<Rightarrow> accept_result list \<Rightarrow> (int \<times> flags) list \<Rightarrow>
     server \<Rightarrow> server option" where
  "handle_events alloc rt listen_fd wake_fd accs [] s = Some s"
| "handle_events alloc rt listen_fd wake_fd accs ((fd, ev) # events) s =
     (if fd = wake_fd then handle_events alloc rt listen_fd wake_fd accs events s
      else if fd = listen_fd
      then handle_events alloc rt listen_fd wake_fd [] events (accept_connections accs s)
      else do {
        s \<leftarrow> handle_event alloc rt ev fd s;
        handle_events alloc rt listen_fd wake_fd accs events s })"

definition server_init :: "core \<Rightarrow> size_t \<Rightarrow> (nat \<Rightarrow> env) \<Rightarrow> server" where
  "server_init c m env = \<lparr>sv_core = c, sv_max_value = m, parsers = Map.empty, outbox = Map.empty,
     watch_flags = Map.empty, k_interest = Map.empty, k_recv = \<lambda>_. [], k_send = \<lambda>_. [],
     k_wire = \<lambda>_. [], k_env = env, k_ticks = 0\<rparr>"

end
