(* ===== verification/Admin.thy ===== *)
theory Admin
  imports Server
begin

text \<open>
  The HTTP server for administration (\<^verbatim>\<open>src/src/admin.h\<close>, \<^verbatim>\<open>admin.cpp\<close>). A connection carries one request: the bytes that
  arrive with the first readable event are read, answered and the connection is closed. The request is
  answered from the storage's metrics, whose JSON text is a parameter.
\<close>

section \<open>Searching in strings\<close>

text \<open>\<^verbatim>\<open>string::find\<close>: the first position at which the pattern starts.\<close>

fun find_str :: "string \<Rightarrow> string \<Rightarrow> nat option" where
  "find_str pat [] = (if pat = [] then Some 0 else None)"
| "find_str pat (c # s) = (if prefix pat (c # s) then Some 0 else map_option Suc (find_str pat s))"

section \<open>Responses\<close>

definition http_response :: "nat \<Rightarrow> string \<Rightarrow> string \<Rightarrow> string" where
  "http_response status status_text body =
     ''HTTP/1.1 '' @ to_string status @ '' '' @ status_text @ crlf @
     ''Content-Type: application/json'' @ crlf @
     ''Content-Length: '' @ to_string (length body) @ crlf @
     ''Connection: close'' @ crlf @ crlf @ body"

definition health_body :: string where
  "health_body = [CHR ''{'', CHR 0x22] @ ''status'' @ [CHR 0x22, CHR '':'', CHR 0x22] @ ''ok'' @ [CHR 0x22, CHR ''}'']"

definition handle_request :: "(metrics \<Rightarrow> string) \<Rightarrow> 'p runtime \<Rightarrow> 'p storage \<Rightarrow> string \<Rightarrow> string" where
  "handle_request dump rt st request =
     (let first_line_len = (case find_str crlf request of None \<Rightarrow> length request | Some n \<Rightarrow> n);
          first_line = take first_line_len request
      in case find_str '' '' first_line of
           None \<Rightarrow> http_response 400 ''Bad Request'' ''{}''
         | Some p1 \<Rightarrow> (case find_str '' '' (drop (p1 + 1) first_line) of
             None \<Rightarrow> http_response 400 ''Bad Request'' ''{}''
           | Some n \<Rightarrow>
               let method = take p1 first_line; path = take n (drop (p1 + 1) first_line)
               in if method \<noteq> ''GET'' then http_response 405 ''Method Not Allowed'' ''{}''
                  else if path = ''/metrics'' then http_response 200 ''OK'' (dump (storage_metrics rt st))
                  else if path = ''/health'' then http_response 200 ''OK'' health_body
                  else http_response 404 ''Not Found'' ''{}''))"

section \<open>Sending\<close>

text \<open>
  The loop over \<^verbatim>\<open>offset\<close>. A socket that would block is polled and tried again; when the answers are used
  up it stays blocked and the loop does not end (\<open>None\<close>).
\<close>

fun send_all :: "string \<Rightarrow> nat \<Rightarrow> send_result list \<Rightarrow> string \<Rightarrow> (nat \<times> send_result list \<times> string) option" where
  "send_all response offset [] wire =
     (if offset < length response then None else Some (offset, [], wire))"
| "send_all response offset (r # rs) wire =
     (if offset < length response then
        (case r of
           Sent n \<Rightarrow>
             let n = min n (length response - offset)
             in if n > 0 then send_all response (offset + n) rs (wire @ take n (drop offset response))
                else Some (offset, rs, wire)
         | Send_again \<Rightarrow> send_all response offset rs wire
         | Send_intr \<Rightarrow> send_all response offset rs wire
         | Send_failed \<Rightarrow> Some (offset, rs, wire))
      else Some (offset, r # rs, wire))"

section \<open>Connections\<close>

record admin =
  ad_interest :: "int \<rightharpoonup> flags"
  ad_recv :: "int \<Rightarrow> recv_result list"
  ad_send :: "int \<Rightarrow> send_result list"
  ad_wire :: "int \<Rightarrow> string"

definition kMaxRequest :: nat where "kMaxRequest = 4096"

definition close_conn :: "int \<Rightarrow> admin \<Rightarrow> admin" where
  "close_conn fd a = a\<lparr>ad_interest := (ad_interest a)(fd := None)\<rparr>"

fun admin_accept :: "accept_result list \<Rightarrow> admin \<Rightarrow> admin" where
  "admin_accept [] a = a"
| "admin_accept (Accept_intr # rs) a = admin_accept rs a"
| "admin_accept (Accept_failed # rs) a = a"
| "admin_accept (Accepted fd # rs) a =
     admin_accept rs (a\<lparr>ad_wire := (ad_wire a)(fd := []), ad_interest := (ad_interest a)(fd \<mapsto> EPOLLIN)\<rparr>)"

definition send_all_to :: "int \<Rightarrow> string \<Rightarrow> admin \<Rightarrow> admin option" where
  "send_all_to fd response a = do {
     (_, rs, wire) \<leftarrow> send_all response 0 (ad_send a fd) (ad_wire a fd);
     Some (a\<lparr>ad_send := (ad_send a)(fd := rs), ad_wire := (ad_wire a)(fd := wire)\<rparr>) }"

text \<open>How the reading loop ends: with a request to answer, one that is too long, or nothing to say.\<close>

datatype reading = Answer string | Too_long | Hang_up

definition complete_request :: "string \<Rightarrow> bool" where
  "complete_request request \<longleftrightarrow>
     find_str (crlf @ crlf) request \<noteq> None \<or> find_str [CHR 0x0A, CHR 0x0A] request \<noteq> None"

fun read_request :: "recv_result list \<Rightarrow> string \<Rightarrow> reading \<times> recv_result list" where
  "read_request [] request = (Answer request, [])"
| "read_request (r # rs) request = (case r of
     Received data \<Rightarrow>
       if data = [] then (if request = [] then (Hang_up, rs) else (Answer request, rs))
       else let request = request @ data
            in if length request > kMaxRequest then (Too_long, rs)
               else if complete_request request then (Answer request, rs)
               else read_request rs request
   | Recv_again \<Rightarrow> (Answer request, rs)
   | Recv_intr \<Rightarrow> read_request rs request
   | Recv_failed \<Rightarrow> (Hang_up, rs))"

definition handle_connection ::
  "(metrics \<Rightarrow> string) \<Rightarrow> 'p runtime \<Rightarrow> 'p storage \<Rightarrow> int \<Rightarrow> admin \<Rightarrow> admin option" where
  "handle_connection dump rt st fd a = (case read_request (ad_recv a fd) [] of (result, rs) \<Rightarrow>
     let a = a\<lparr>ad_recv := (ad_recv a)(fd := rs)\<rparr>
     in case result of
          Hang_up \<Rightarrow> Some (close_conn fd a)
        | Too_long \<Rightarrow> map_option (close_conn fd) (send_all_to fd (http_response 400 ''Bad Request'' ''{}'') a)
        | Answer request \<Rightarrow> map_option (close_conn fd) (send_all_to fd (handle_request dump rt st request) a))"

definition admin_event ::
  "(metrics \<Rightarrow> string) \<Rightarrow> 'p runtime \<Rightarrow> 'p storage \<Rightarrow> flags \<Rightarrow> int \<Rightarrow> admin \<Rightarrow> admin option" where
  "admin_event dump rt st ev fd a =
     (if and ev (or EPOLLERR EPOLLHUP) \<noteq> 0 \<and> and ev EPOLLIN = 0 then Some (close_conn fd a)
      else if and ev EPOLLIN \<noteq> 0 then handle_connection dump rt st fd a
      else Some a)"

section \<open>Sending is complete or fails\<close>

lemma send_all_stream:
  "send_all response offset rs wire = Some (offset', rs', wire') \<Longrightarrow>
     wire' @ drop offset' response = wire @ drop offset response \<and> prefix wire wire'"
proof (induction rs arbitrary: offset wire)
  case (Cons r rs)
  show ?case
  proof (cases "offset < length response")
    case True
    show ?thesis
    proof (cases r)
      case (Sent n)
      let ?n = "min n (length response - offset)"
      have split: "take ?n (drop offset response) @ drop (offset + ?n) response = drop offset response"
        by (metis add.commute append_take_drop_id drop_drop)
      show ?thesis
      proof (cases "?n > 0")
        case n: True
        with Cons.prems True Sent have
          "send_all response (offset + ?n) rs (wire @ take ?n (drop offset response)) = Some (offset', rs', wire')"
          by (simp add: Let_def)
        from Cons.IH [OF this] split show ?thesis by (metis append.assoc append_prefixD)
      qed (use Cons.prems True Sent in \<open>auto simp: Let_def\<close>)
    qed (use Cons True in \<open>auto\<close>)
  qed (use Cons.prems in auto)
qed (auto split: if_splits)

interpretation admin_sender: sender
  "\<lambda>(response, offset) w (response', offset') w'.
     response' = response \<and> (\<exists>rs rs'. send_all response offset rs w = Some (offset', rs', w'))"
  "\<lambda>(response, offset). drop offset response"
  by unfold_locales (auto dest: send_all_stream)

text \<open>A healthy socket that takes bytes often enough gets the whole response.\<close>

lemma send_all_complete:
  "list_all takes rs \<Longrightarrow> offset \<le> length response \<Longrightarrow> length response - offset \<le> length (filter is_sent rs) \<Longrightarrow>
     \<exists>rs'. send_all response offset rs wire = Some (length response, rs', wire @ drop offset response)"
proof (induction rs arbitrary: offset wire)
  case (Cons r rs)
  show ?case
  proof (cases "offset < length response")
    case True
    show ?thesis
    proof (cases r)
      case (Sent n)
      let ?n = "min n (length response - offset)"
      have n: "?n > 0" "offset + ?n \<le> length response" using Cons.prems(1) Sent True by auto
      have split: "take ?n (drop offset response) @ drop (offset + ?n) response = drop offset response"
        by (metis add.commute append_take_drop_id drop_drop)
      have "length response - (offset + ?n) \<le> length (filter is_sent rs)"
      proof -
        have "length response - offset \<le> Suc (length (filter is_sent rs))"
          using Cons.prems(3) Sent by simp
        with n(1) show ?thesis by linarith
      qed
      with Cons.IH [of "offset + ?n" "wire @ take ?n (drop offset response)"] Cons.prems(1) n split True Sent
      show ?thesis by (auto simp: Let_def)
    qed (use Cons True in auto)
  qed (use Cons.prems in simp)
qed auto

end
