(* ===== verification/AdminSpec.thy ===== *)
theory AdminSpec
  imports Admin StorageLru
begin

text \<open>
  What the administration server promises: which response each request gets, that every response can
  be read back by its header, that a request which arrives with one readable event is answered in full, however it
  is cut; and what happens to a request that arrives in two parts.
\<close>

section \<open>Finding a pattern\<close>

lemma find_str_skip: "c \<notin> set a \<Longrightarrow> find_str (c # p) (a @ s) = map_option (\<lambda>n. length a + n) (find_str (c # p) s)"
proof (induction a)
  case Nil
  show ?case by (simp add: option.map_ident)
next
  case (Cons x a)
  then show ?case by (cases "find_str (c # p) s") auto
qed

lemma find_str_here: "p \<noteq> [] \<Longrightarrow> find_str p (p @ s) = Some 0"
  by (cases p) simp_all

lemma find_str_absent: "c \<notin> set s \<Longrightarrow> find_str (c # p) s = None"
  using find_str_skip [of c s p "[]"] by simp

lemma find_str_first: "c \<notin> set a \<Longrightarrow> find_str (c # p) (a @ (c # p) @ s) = Some (length a)"
  using find_str_skip [of c a p "(c # p) @ s"] find_str_here [of "c # p" s] by simp

lemma find_str_sound: "find_str p s = Some n \<Longrightarrow> \<exists>a b. s = a @ p @ b \<and> length a = n"
proof (induction s arbitrary: n)
  case Nil
  then show ?case by (auto split: if_splits)
next
  case (Cons c s)
  show ?case
  proof (cases "prefix p (c # s)")
    case True
    with Cons.prems show ?thesis by (auto simp: prefix_def)
  next
    case False
    with Cons.prems obtain m where "find_str p s = Some m" "n = Suc m" by auto
    with Cons.IH obtain a b where "s = a @ p @ b" "length a = m" by blast
    with \<open>n = Suc m\<close> show ?thesis by (intro exI [of _ "c # a"] exI [of _ b]) auto
  qed
qed

lemma find_str_complete: "find_str p (a @ p @ b) \<noteq> None"
proof (induction a)
  case Nil
  have "prefix p s \<Longrightarrow> find_str p s \<noteq> None" for s by (cases s) auto
  then show ?case by simp
qed auto

section \<open>Requests\<close>

definition request_line :: "string \<Rightarrow> string \<Rightarrow> string \<Rightarrow> string" where
  "request_line meth path version = meth @ '' '' @ path @ '' '' @ version"

definition clean_token :: "string \<Rightarrow> bool" where
  "clean_token s \<longleftrightarrow> CHR '' '' \<notin> set s \<and> CHR 0x0D \<notin> set s"

text \<open>The answer to a request with this first line.\<close>

definition answer_to :: "(metrics \<Rightarrow> string) \<Rightarrow> 'p runtime \<Rightarrow> 'p storage \<Rightarrow> string \<Rightarrow> string \<Rightarrow> string" where
  "answer_to dump rt st meth path =
     (if meth \<noteq> ''GET'' then http_response 405 ''Method Not Allowed'' ''{}''
      else if path = ''/metrics'' then http_response 200 ''OK'' (dump (storage_metrics rt st))
      else if path = ''/health'' then http_response 200 ''OK'' health_body
      else http_response 404 ''Not Found'' ''{}'')"

lemma crlf_first: "CHR 0x0D \<notin> set line \<Longrightarrow> find_str crlf (line @ crlf @ rest) = Some (length line)"
  using find_str_first [of "CHR 0x0D" line "[CHR 0x0A]" rest] by (simp add: crlf_def)

lemma handle_request_line:
  assumes "CHR 0x0D \<notin> set line" and "request = line \<or> (\<exists>rest. request = line @ crlf @ rest)"
  shows "handle_request dump rt st request = handle_request dump rt st line"
proof -
  have none: "find_str crlf line = None" using find_str_absent [OF assms(1)] by (simp add: crlf_def)
  have 1: "take (case find_str crlf request of None \<Rightarrow> length request | Some n \<Rightarrow> n) request = line"
    using assms none crlf_first [OF assms(1)] by auto
  have 2: "take (case find_str crlf line of None \<Rightarrow> length line | Some n \<Rightarrow> n) line = line"
    using none by simp
  show ?thesis unfolding handle_request_def Let_def 1 2 by (rule refl)
qed

lemma handle_request_answer:
  assumes "clean_token meth" and "clean_token path" and "CHR 0x0D \<notin> set version"
    and "request = request_line meth path version \<or> (\<exists>rest. request = request_line meth path version @ crlf @ rest)"
  shows "handle_request dump rt st request = answer_to dump rt st meth path"
proof -
  let ?line = "request_line meth path version"
  have cr: "CHR 0x0D \<notin> set ?line" using assms(1-3) by (simp add: request_line_def clean_token_def)
  then have "find_str crlf ?line = None" using find_str_absent by (simp add: crlf_def)
  moreover have "find_str '' '' ?line = Some (length meth)"
    using find_str_first [of "CHR '' ''" meth "[]" "path @ '' '' @ version"] assms(1)
    by (simp add: request_line_def clean_token_def)
  moreover have "find_str '' '' (path @ '' '' @ version) = Some (length path)"
    using find_str_first [of "CHR '' ''" path "[]" version] assms(2) by (simp add: clean_token_def)
  moreover have "take (length meth) ?line = meth" "drop (length meth + 1) ?line = path @ '' '' @ version"
    by (simp_all add: request_line_def)
  ultimately have "handle_request dump rt st ?line = answer_to dump rt st meth path"
    by (simp add: handle_request_def answer_to_def)
  with handle_request_line [OF cr assms(4), of dump rt st] show ?thesis by (rule trans)
qed

lemma handle_request_malformed:
  assumes "CHR 0x0D \<notin> set line" and "length (filter (\<lambda>c. c = CHR '' '') line) < 2"
    and "request = line \<or> (\<exists>rest. request = line @ crlf @ rest)"
  shows "handle_request dump rt st request = http_response 400 ''Bad Request'' ''{}''"
proof -
  have none: "find_str crlf line = None" using find_str_absent [OF assms(1)] by (simp add: crlf_def)
  have "handle_request dump rt st line = http_response 400 ''Bad Request'' ''{}''"
  proof (cases "find_str '' '' line")
    case (Some p1)
    then obtain a b where line: "line = a @ '' '' @ b" "length a = p1" using find_str_sound by blast
    with assms(2) have "CHR '' '' \<notin> set b" by (auto simp: filter_empty_conv)
    with line none Some find_str_absent [of "CHR '' ''" b "[]"] show ?thesis by (simp add: handle_request_def)
  qed (simp add: handle_request_def none)
  with handle_request_line [OF assms(1,3), of dump rt st] show ?thesis by (rule trans)
qed

section \<open>Reading a response\<close>

text \<open>A client that goes by the header: status, and a body of the announced length up to the end.\<close>

definition read_response :: "string \<Rightarrow> (nat \<times> string) option" where
  "read_response s = (case find_str (crlf @ crlf) s of
     None \<Rightarrow> None
   | Some n \<Rightarrow>
       let head = take n s; body = drop (n + 4) s
       in (case find_str ''Content-Length: '' head of
            None \<Rightarrow> None
          | Some k \<Rightarrow>
              if take 9 head = ''HTTP/1.1 '' \<and> length body = dec_value (takeWhile is_digit (drop (k + 16) head))
              then Some (dec_value (takeWhile is_digit (drop 9 head)), body) else None))"

lemma blank_line_skip:
  assumes "CHR 0x0D \<notin> set l" and "s \<noteq> []" and "hd s \<noteq> CHR 0x0D"
  shows "find_str (crlf @ crlf) (l @ crlf @ s) = map_option (\<lambda>n. length l + 2 + n) (find_str (crlf @ crlf) s)"
proof -
  obtain c s' where s: "s = c # s'" "c \<noteq> CHR 0x0D" using assms(2,3) by (cases s) auto
  have "find_str (crlf @ crlf) (crlf @ s) = map_option (\<lambda>n. 2 + n) (find_str (crlf @ crlf) s)"
    using s by (cases "find_str (crlf @ crlf) s'") (auto simp: crlf_def)
  moreover have "find_str (crlf @ crlf) (l @ crlf @ s) =
      map_option (\<lambda>n. length l + n) (find_str (crlf @ crlf) (crlf @ s))"
    using find_str_skip [OF assms(1), of "CHR 0x0A # crlf"] by (simp add: crlf_def)
  ultimately show ?thesis by (simp add: option.map_comp comp_def add.assoc)
qed

lemma blank_line_here: "CHR 0x0D \<notin> set l \<Longrightarrow> find_str (crlf @ crlf) (l @ crlf @ crlf @ s) = Some (length l)"
  using find_str_first [of "CHR 0x0D" l "CHR 0x0A # crlf" s] by (simp add: crlf_def)

lemma to_string_no_cr: "CHR 0x0D \<notin> set (to_string n)"
  by (rule digits_no_byte [OF to_string_digits]) (simp add: is_digit_nat)

lemma number_then: "\<not> is_digit c \<Longrightarrow> dec_value (takeWhile is_digit (to_string n @ c # s)) = n"
  using to_string_digits [of n] by (simp add: takeWhile_append2 list_all_iff)

lemma drop_exact: "n = length xs \<Longrightarrow> drop n (xs @ ys) = ys"
  by simp

lemma take_exact: "n = length xs \<Longrightarrow> take n (xs @ ys) = xs"
  by simp

lemma read_response_here:
  assumes "CHR ''C'' \<notin> set text" and "CHR 0x0D \<notin> set text"
  shows "read_response (http_response status text body) = Some (status, body)"
proof -
  let ?l1 = "''HTTP/1.1 '' @ to_string status @ '' '' @ text"
  let ?l2 = "''Content-Type: application/json''"
  let ?l3 = "''Content-Length: '' @ to_string (length body)"
  let ?l4 = "''Connection: close''"
  let ?head = "?l1 @ crlf @ ?l2 @ crlf @ ?l3 @ crlf @ ?l4"
  have resp: "http_response status text body = ?l1 @ crlf @ ?l2 @ crlf @ ?l3 @ crlf @ ?l4 @ crlf @ crlf @ body"
    by (simp add: http_response_def)
  have cr: "CHR 0x0D \<notin> set ?l1" "CHR 0x0D \<notin> set ?l2" "CHR 0x0D \<notin> set ?l3" "CHR 0x0D \<notin> set ?l4"
    using assms(2) to_string_no_cr by auto
  have blank: "find_str (crlf @ crlf) (http_response status text body) = Some (length ?head)"
    unfolding resp
    by (subst blank_line_skip [OF cr(1)], simp, simp, subst blank_line_skip [OF cr(2)], simp, simp,
        subst blank_line_skip [OF cr(3)], simp, simp, subst blank_line_here [OF cr(4)]) (simp add: crlf_def)
  have whole: "http_response status text body = ?head @ crlf @ crlf @ body" by (simp add: resp)
  have C: "CHR ''C'' \<notin> set (?l1 @ crlf)"
    using assms(1) digits_no_byte [OF to_string_digits, of "CHR ''C''" status] by (simp add: crlf_def is_digit_nat)
  have "find_str ''Content-Length: '' (?l2 @ crlf @ ?l3 @ crlf @ ?l4) = Some 32"
    by (simp add: crlf_def)
  then have len: "find_str ''Content-Length: '' ?head = Some (length (?l1 @ crlf) + 32)"
    using find_str_skip [OF C, of "''ontent-Length: ''" "?l2 @ crlf @ ?l3 @ crlf @ ?l4"] by simp
  have "?head = (?l1 @ crlf @ ?l2 @ crlf @ ''Content-Length: '') @ to_string (length body) @ crlf @ ?l4" by simp
  then have "drop (length (?l1 @ crlf) + 32 + 16) ?head = to_string (length body) @ crlf @ ?l4"
    by (elim ssubst, intro drop_exact) (simp add: crlf_def)
  moreover have "drop 9 ?head = to_string status @ CHR '' '' # (text @ crlf @ ?l2 @ crlf @ ?l3 @ crlf @ ?l4)" by simp
  moreover have "\<not> is_digit CHR 0x0D" "\<not> is_digit (CHR '' '')" by (simp_all add: is_digit_nat)
  ultimately have num: "dec_value (takeWhile is_digit (drop (length (?l1 @ crlf) + 32 + 16) ?head)) = length body"
    "dec_value (takeWhile is_digit (drop 9 ?head)) = status"
    using number_then [of "CHR 0x0D"] number_then [of "CHR '' ''"] by (simp_all add: crlf_def)
  have 1: "take (length ?head) (http_response status text body) = ?head"
    unfolding whole by (rule take_exact) (rule refl)
  have "http_response status text body = (?head @ crlf @ crlf) @ body" unfolding whole by (simp only: append.assoc)
  then have 2: "drop (length ?head + 4) (http_response status text body) = body"
    by (elim ssubst, intro drop_exact) (simp add: crlf_def)
  have 3: "take 9 ?head = ''HTTP/1.1 ''" by simp
  show ?thesis
    unfolding read_response_def blank option.case Let_def 1 2 3 len num by simp
qed

section \<open>A request in one readable event\<close>

text \<open>What the reading loop answers is the data that arrived, or as much of it as holds a blank line.\<close>

lemma read_request_prefix:
  assumes "alive rs" and "length (request @ concat (incoming rs)) \<le> kMaxRequest"
  shows "\<exists>req rs'. read_request rs request = (Answer req, rs') \<and>
    prefix req (request @ concat (incoming rs)) \<and>
    (req = request @ concat (incoming rs) \<or> complete_request req)"
  using assms
proof (induction rs arbitrary: request)
  case (Cons r rs)
  show ?case
  proof (cases r)
    case (Received data)
    with Cons.prems have data: "data \<noteq> []" "alive rs" "length ((request @ data) @ concat (incoming rs)) \<le> kMaxRequest"
      by simp_all
    then have short: "length (request @ data) \<le> kMaxRequest" by simp
    show ?thesis
    proof (cases "complete_request (request @ data)")
      case True
      with Received data(1) short show ?thesis by (simp add: Let_def)
    next
      case False
      with Cons.IH [OF data(2,3)] Received data(1) short show ?thesis by (simp add: Let_def)
    qed
  qed (use Cons in simp_all)
qed simp

lemma complete_prefix_has_line:
  assumes "prefix req (line @ crlf @ rest)" and "complete_request req" and "CHR 0x0D \<notin> set line"
    and "find_str [CHR 0x0A, CHR 0x0A] (line @ crlf @ rest) = None"
  shows "\<exists>more. req = line @ crlf @ more"
proof -
  from assms(1) obtain z where z: "line @ crlf @ rest = req @ z" by (auto simp: prefix_def)
  have "find_str [CHR 0x0A, CHR 0x0A] req = None"
  proof (rule ccontr)
    assume "find_str [CHR 0x0A, CHR 0x0A] req \<noteq> None"
    then obtain a b where "req = a @ [CHR 0x0A, CHR 0x0A] @ b" using find_str_sound by blast
    with z assms(4) find_str_complete [of "[CHR 0x0A, CHR 0x0A]" a "b @ z"] show False by simp
  qed
  with assms(2) obtain a b where req: "req = a @ crlf @ crlf @ b"
    using find_str_sound [of "crlf @ crlf" req] by (auto simp: complete_request_def)
  have "length line \<le> length a"
  proof (rule ccontr)
    assume "\<not> length line \<le> length a"
    then have short: "length a < length line" by simp
    have "(line @ crlf @ rest) ! length a = CHR 0x0D" unfolding z req by (simp add: nth_append crlf_def)
    with short have "line ! length a = CHR 0x0D" by (simp add: nth_append)
    with short assms(3) show False by (metis nth_mem)
  qed
  then have "length (line @ crlf) \<le> length req" by (simp add: req crlf_def)
  moreover have "prefix (line @ crlf) (line @ crlf @ rest)" by (metis append.assoc prefixI)
  ultimately have "prefix (line @ crlf) req" using assms(1) prefix_length_prefix by blast
  then show ?thesis by (auto simp: prefix_def)
qed

section \<open>Properties\<close>

text \<open>
  C14: What is answered depends on the first line alone: the method has to be GET (else 405), the
  path \<open>/metrics\<close> or \<open>/health\<close> (else 404), and a line with fewer than two blanks is a bad request.
\<close>

theorem admin_request_answers:
  assumes "clean_token meth" and "clean_token path" and "CHR 0x0D \<notin> set version" and "CHR 0x0D \<notin> set bad"
    and "length (filter (\<lambda>c. c = CHR '' '') bad) < 2"
  shows "handle_request dump rt st (request_line meth path version @ crlf @ rest) =
      (if meth \<noteq> ''GET'' then http_response 405 ''Method Not Allowed'' ''{}''
       else if path = ''/metrics'' then http_response 200 ''OK'' (dump (storage_metrics rt st))
       else if path = ''/health'' then http_response 200 ''OK'' health_body
       else http_response 404 ''Not Found'' ''{}'') \<and>
    handle_request dump rt st (bad @ crlf @ rest) = http_response 400 ''Bad Request'' ''{}''"
proof (rule conjI)
  show "handle_request dump rt st (request_line meth path version @ crlf @ rest) =
      (if meth \<noteq> ''GET'' then http_response 405 ''Method Not Allowed'' ''{}''
       else if path = ''/metrics'' then http_response 200 ''OK'' (dump (storage_metrics rt st))
       else if path = ''/health'' then http_response 200 ''OK'' health_body
       else http_response 404 ''Not Found'' ''{}'')"
    unfolding answer_to_def [symmetric] by (rule handle_request_answer [OF assms(1-3)]) blast
  show "handle_request dump rt st (bad @ crlf @ rest) = http_response 400 ''Bad Request'' ''{}''"
    by (rule handle_request_malformed [OF assms(4,5)]) blast
qed

lemma admin_request_answers_witness:
  "handle_request (\<lambda>_. ''{}'') (lru_runtime (\<lambda>b n. b)) (storage_new 1 1000 100)
     (request_line ''GET'' ''/health'' ''HTTP/1.1'' @ crlf @ crlf) = http_response 200 ''OK'' health_body \<and>
   handle_request (\<lambda>_. ''{}'') (lru_runtime (\<lambda>b n. b)) (storage_new 1 1000 100) (''GET /health'' @ crlf @ crlf) = http_response 400 ''Bad Request'' ''{}''"
  using admin_request_answers [of "''GET''" "''/health''" "''HTTP/1.1''" "''GET /health''"
      "\<lambda>_. ''{}''" "lru_runtime (\<lambda>b n. b)" "storage_new 1 1000 100" crlf]
  by (simp add: clean_token_def)

text \<open>
  C15: Every response can be read by its header: the status is one of four, the header ends at the first blank
  line, and the announced length is that of the body.
\<close>

theorem admin_response_readable:
  "\<exists>status body. read_response (handle_request dump rt st request) = Some (status, body) \<and>
     status \<in> {200, 400, 404, 405}"
proof -
  have "handle_request dump rt st request \<in>
    {http_response 400 ''Bad Request'' ''{}'', http_response 405 ''Method Not Allowed'' ''{}'',
     http_response 200 ''OK'' (dump (storage_metrics rt st)), http_response 200 ''OK'' health_body,
     http_response 404 ''Not Found'' ''{}''}"
    by (simp add: handle_request_def Let_def split: option.split)
  moreover have "read_response (http_response n t b) = Some (n, b)"
    if "t \<in> {''Bad Request'', ''Method Not Allowed'', ''OK'', ''Not Found''}" for n t b
    using that read_response_here by auto
  ultimately show ?thesis by (elim insertE emptyE) simp_all
qed

text \<open>
  C13: A request that has arrived when the connection becomes readable is answered in full, however it
  is cut into segments and however the socket takes the response, and the connection is closed.
\<close>

theorem admin_serves_request:
  assumes "clean_token meth" and "clean_token path" and "CHR 0x0D \<notin> set version"
    and "alive (ad_recv a fd)"
    and "concat (incoming (ad_recv a fd)) = request_line meth path version @ crlf @ headers"
    and "length (concat (incoming (ad_recv a fd))) \<le> 4096"
    and "find_str [CHR 0x0A, CHR 0x0A] (concat (incoming (ad_recv a fd))) = None"
    and "list_all takes (ad_send a fd)"
    and "length (handle_request dump rt st (request_line meth path version)) \<le>
           length (filter is_sent (ad_send a fd))"
  shows "\<exists>a'. admin_event dump rt st EPOLLIN fd a = Some a' \<and>
    ad_wire a' fd = ad_wire a fd @ handle_request dump rt st (request_line meth path version) \<and>
    ad_interest a' fd = None"
proof -
  let ?line = "request_line meth path version"
  have cr: "CHR 0x0D \<notin> set ?line" using assms(1-3) by (simp add: request_line_def clean_token_def)
  from read_request_prefix [OF assms(4), of "[]"] assms(6) obtain req rs where
    req: "read_request (ad_recv a fd) [] = (Answer req, rs)" "prefix req (?line @ crlf @ headers)"
    "req = ?line @ crlf @ headers \<or> complete_request req"
    by (auto simp: kMaxRequest_def assms(5))
  from complete_prefix_has_line [OF req(2) _ cr] req(3) assms(7)
  have "\<exists>more. req = ?line @ crlf @ more" by (auto simp: assms(5))
  with handle_request_line [OF cr, of req dump rt st]
  have eq: "handle_request dump rt st req = handle_request dump rt st ?line" by blast
  let ?a = "a\<lparr>ad_recv := (ad_recv a)(fd := rs)\<rparr>"
  from send_all_complete [OF assms(8), of 0 "handle_request dump rt st ?line" "ad_wire a fd"] assms(9) obtain rs' where
    "send_all (handle_request dump rt st ?line) 0 (ad_send a fd) (ad_wire a fd) =
      Some (length (handle_request dump rt st ?line), rs', ad_wire a fd @ handle_request dump rt st ?line)" by auto
  then have "handle_connection dump rt st fd a = Some (close_conn fd (?a\<lparr>ad_send := (ad_send a)(fd := rs'),
      ad_wire := (ad_wire a)(fd := ad_wire a fd @ handle_request dump rt st ?line)\<rparr>))"
    by (simp add: handle_connection_def req(1) eq send_all_to_def)
  moreover have "admin_event dump rt st EPOLLIN fd a = handle_connection dump rt st fd a"
    by (simp add: admin_event_def EPOLLIN_def)
  ultimately show ?thesis by (simp add: close_conn_def)
qed

definition example_admin :: "recv_result list \<Rightarrow> admin" where
  "example_admin recvs = admin_accept [Accepted 9] \<lparr>ad_interest = Map.empty, ad_recv = \<lambda>_. recvs,
     ad_send = \<lambda>_. Send_again # replicate 200 (Sent 1), ad_wire = \<lambda>_. []\<rparr>"

lemma admin_serves_request_witness:
  "\<exists>a'. admin_event (\<lambda>_. ''{}'') (lru_runtime (\<lambda>b n. b)) (storage_new 1 1000 100) EPOLLIN 9
      (example_admin [Received ''GET /hea'', Recv_intr, Received (''lth HTTP/1.1'' @ crlf @ crlf)]) = Some a' \<and>
    ad_interest a' 9 = None"
proof -
  let ?a = "example_admin [Received ''GET /hea'', Recv_intr, Received (''lth HTTP/1.1'' @ crlf @ crlf)]"
  have 1: "clean_token ''GET''" "clean_token ''/health''" "CHR 0x0D \<notin> set ''HTTP/1.1''"
    by (simp_all add: clean_token_def)
  have 2: "alive (ad_recv ?a 9)" "concat (incoming (ad_recv ?a 9)) = request_line ''GET'' ''/health'' ''HTTP/1.1'' @ crlf @ crlf"
    "list_all takes (ad_send ?a 9)"
    by (simp_all add: example_admin_def request_line_def list_all_iff)
  have 3: "length (concat (incoming (ad_recv ?a 9))) \<le> 4096"
    "find_str [CHR 0x0A, CHR 0x0A] (concat (incoming (ad_recv ?a 9))) = None"
    unfolding 2(2) by (simp_all add: request_line_def crlf_def)
  have "length (handle_request (\<lambda>_. ''{}'') (lru_runtime (\<lambda>b n. b)) (storage_new 1 1000 100)
      (request_line ''GET'' ''/health'' ''HTTP/1.1'')) \<le> length (filter is_sent (ad_send ?a 9))"
    by code_simp
  from admin_serves_request [OF 1 2(1,2) 3 2(3) this] show ?thesis by blast
qed


end
