(* ===== verification/ServerInv.thy ===== *)
theory ServerInv
  imports Server
begin

text \<open>
  What each operation of the event loop does to a connection and to all others: the invariant of the
  server's tables, and the stream of replies a connection has been promised.
\<close>

section \<open>Invariant\<close>

definition queue_of :: "server \<Rightarrow> int \<Rightarrow> out_chunk list" where
  "queue_of s fd = (case outbox s fd of None \<Rightarrow> [] | Some queue \<Rightarrow> queue)"

text \<open>
  A connection has a parser; \<^verbatim>\<open>epoll\<close> watches what the server believes it watches, and \<^verbatim>\<open>EPOLLOUT\<close> exactly
  when output is queued; a queue is never empty and never above its bound. A closed descriptor is in no table.
\<close>

definition conn_ok :: "server \<Rightarrow> int \<Rightarrow> bool" where
  "conn_ok s fd \<longleftrightarrow> (case parsers s fd of
     None \<Rightarrow> outbox s fd = None \<and> watch_flags s fd = None \<and> k_interest s fd = None
   | Some p \<Rightarrow> parser_inv p \<and> k_interest s fd = watch_flags s fd \<and>
       watch_flags s fd = Some (if outbox s fd = None then EPOLLIN else or EPOLLIN EPOLLOUT) \<and>
       outbox s fd \<noteq> Some [] \<and> length (queue_of s fd) \<le> kMaxQueuedChunks)"

definition server_inv :: "server \<Rightarrow> bool" where
  "server_inv s \<longleftrightarrow> core_inv (sv_core s) \<and> (\<forall>i. dump_total (k_env s i)) \<and> (\<forall>fd. conn_ok s fd)"

lemma conn_ok_cong:
  assumes "parsers s' fd = parsers s fd" and "outbox s' fd = outbox s fd"
    and "watch_flags s' fd = watch_flags s fd" and "k_interest s' fd = k_interest s fd"
  shows "conn_ok s' fd = conn_ok s fd"
  unfolding conn_ok_def queue_of_def assms by (rule refl)

text \<open>An operation on one descriptor leaves all others alone.\<close>

definition touches :: "int \<Rightarrow> server \<Rightarrow> server \<Rightarrow> bool" where
  "touches fd s s' \<longleftrightarrow> sv_max_value s' = sv_max_value s \<and> k_env s' = k_env s \<and>
     (\<forall>g. g \<noteq> fd \<longrightarrow> parsers s' g = parsers s g \<and> outbox s' g = outbox s g \<and>
       watch_flags s' g = watch_flags s g \<and> k_interest s' g = k_interest s g \<and>
       k_recv s' g = k_recv s g \<and> k_send s' g = k_send s g \<and> k_wire s' g = k_wire s g)"

lemma touches_refl [simp]: "touches fd s s"
  by (simp add: touches_def)

lemma touches_trans: "touches fd s s' \<Longrightarrow> touches fd s' s'' \<Longrightarrow> touches fd s s''"
  by (simp add: touches_def)

lemma touches_conn: "touches fd s s' \<Longrightarrow> g \<noteq> fd \<Longrightarrow> conn_ok s' g = conn_ok s g"
  by (rule conn_ok_cong) (simp_all add: touches_def)

lemma server_inv_touched:
  assumes "server_inv s" and "touches fd s s'" and "core_inv (sv_core s')" and "conn_ok s' fd"
  shows "server_inv s'"
  unfolding server_inv_def
proof (intro conjI allI)
  fix g
  show "conn_ok s' g" using assms(1,4) touches_conn [OF assms(2), of g] by (cases "g = fd") (auto simp: server_inv_def)
  show "dump_total (k_env s' i)" for i using assms(1,2) by (simp add: server_inv_def touches_def)
qed (rule assms(3))

lemma server_invD:
  assumes "server_inv s"
  shows "core_inv (sv_core s)" and "dump_total (k_env s i)" and "conn_ok s fd"
  using assms by (simp_all add: server_inv_def)

section \<open>Closing\<close>

lemma close_client_sel [simp]:
  "sv_core (close_client fd s) = sv_core s" "k_ticks (close_client fd s) = k_ticks s"
  "parsers (close_client fd s) = (parsers s)(fd := None)" "k_wire (close_client fd s) = k_wire s"
  "k_recv (close_client fd s) = k_recv s" "k_send (close_client fd s) = k_send s"
  "k_env (close_client fd s) = k_env s" "sv_max_value (close_client fd s) = sv_max_value s"
  by (simp_all add: close_client_def epoll_del_def Let_def)

lemma close_client_conn [simp]: "conn_ok (close_client fd s) fd"
  by (simp add: conn_ok_def) (simp add: close_client_def epoll_del_def Let_def)

lemma close_client_touches [simp]: "touches fd s (close_client fd s)"
  by (simp add: touches_def close_client_def epoll_del_def Let_def)

lemma close_client_inv [keeps_inv]: "server_inv s \<Longrightarrow> server_inv (close_client fd s)"
  by (rule server_inv_touched [of s fd]) (simp_all add: server_invD)

section \<open>Sending\<close>

text \<open>All bytes the connection has been promised so far: those on the wire and those queued.\<close>

definition out_stream :: "server \<Rightarrow> int \<Rightarrow> string" where
  "out_stream s fd = k_wire s fd @ pending (queue_of s fd)"

lemma update_watch_sel [simp]:
  "sv_core (update_watch fd s) = sv_core s" "k_ticks (update_watch fd s) = k_ticks s"
  "parsers (update_watch fd s) = parsers s" "k_wire (update_watch fd s) = k_wire s"
  "k_recv (update_watch fd s) = k_recv s" "k_send (update_watch fd s) = k_send s"
  "outbox (update_watch fd s) = outbox s" "k_env (update_watch fd s) = k_env s"
  "sv_max_value (update_watch fd s) = sv_max_value s"
  by (simp_all add: update_watch_def epoll_mod_def Let_def)

lemma update_watch_touches: "touches fd s (update_watch fd s)"
  by (simp add: touches_def) (simp add: update_watch_def epoll_mod_def Let_def)

lemma update_watch_conn:
  assumes "parsers s fd = Some p" and "parser_inv p" and "k_interest s fd = watch_flags s fd"
    and "watch_flags s fd \<noteq> None" and "outbox s fd \<noteq> Some []" and "length (queue_of s fd) \<le> kMaxQueuedChunks"
  shows "conn_ok (update_watch fd s) fd"
proof -
  have q: "queue_of (update_watch fd s) = queue_of s" by (simp add: fun_eq_iff queue_of_def)
  have "k_interest (update_watch fd s) fd = watch_flags (update_watch fd s) fd \<and>
    watch_flags (update_watch fd s) fd = Some (if outbox s fd = None then EPOLLIN else or EPOLLIN EPOLLOUT)"
    using assms(3-5) by (cases "outbox s fd") (auto simp: update_watch_def epoll_mod_def Let_def)
  with assms q show ?thesis by (simp add: conn_ok_def)
qed

text \<open>
  Sending on a connection whose watched events need not yet fit its queue: this is the state in which
  \<^verbatim>\<open>queue_response\<close> calls it.
\<close>

definition sendable :: "server \<Rightarrow> int \<Rightarrow> parser \<Rightarrow> bool" where
  "sendable s fd p \<longleftrightarrow> parsers s fd = Some p \<and> parser_inv p \<and> k_interest s fd = watch_flags s fd \<and>
     watch_flags s fd \<noteq> None \<and> length (queue_of s fd) \<le> kMaxQueuedChunks \<and>
     (outbox s fd = None \<longrightarrow> watch_flags s fd = Some EPOLLIN)"

lemma conn_sendable: "conn_ok s fd \<Longrightarrow> parsers s fd = Some p \<Longrightarrow> sendable s fd p"
  by (simp add: sendable_def conn_ok_def)

definition sent_law :: "int \<Rightarrow> parser \<Rightarrow> string \<Rightarrow> nat \<Rightarrow> server \<Rightarrow> server \<Rightarrow> bool" where
  "sent_law fd p bytes n s s' \<longleftrightarrow>
     touches fd s s' \<and> conn_ok s' fd \<and> sv_core s' = sv_core s \<and> k_ticks s' = k_ticks s \<and>
     k_recv s' = k_recv s \<and>
     prefix (k_wire s' fd) (out_stream s fd @ bytes) \<and> prefix (k_wire s fd) (k_wire s' fd) \<and>
     (parsers s' fd = None \<or> parsers s' fd = Some p \<and> out_stream s' fd = out_stream s fd @ bytes) \<and>
     (list_all takes (k_send s fd) \<longrightarrow> length (queue_of s fd) + n \<le> kMaxQueuedChunks \<longrightarrow>
       parsers s' fd \<noteq> None \<and> list_all takes (k_send s' fd) \<and>
       length (queue_of s' fd) \<le> length (queue_of s fd) + n)"

lemma try_send_law:
  assumes "sendable s fd p"
  shows "sent_law fd p [] 0 s (try_send fd s)"
proof (cases "outbox s fd")
  case None
  then have "try_send fd s = s" by (simp add: try_send_def)
  with None assms show ?thesis
    by (auto simp: sent_law_def sendable_def conn_ok_def queue_of_def out_stream_def)
next
  case (Some queue)
  obtain ok queue' rs wire where l: "send_loop queue (k_send s fd) (k_wire s fd) = (ok, queue', rs, wire)"
    by (metis prod_cases4)
  note stream = send_loop_stream [OF l] and fine = send_loop_ok [OF l]
  have q: "queue_of s fd = queue" using Some by (simp add: queue_of_def)
  let ?s = "s\<lparr>outbox := (outbox s)(fd \<mapsto> queue'), k_send := (k_send s)(fd := rs), k_wire := (k_wire s)(fd := wire)\<rparr>"
  have wire: "prefix wire (out_stream s fd)" "prefix (k_wire s fd) wire"
    using stream q by (auto simp: out_stream_def) (metis prefixI)
  show ?thesis
  proof (cases ok)
    case False
    have "touches fd s (close_client fd ?s)" by (rule touches_trans [OF _ close_client_touches]) (simp add: touches_def)
    moreover have "try_send fd s = close_client fd ?s" using Some l False by (simp add: try_send_def)
    ultimately show ?thesis using wire False fine by (auto simp: sent_law_def)
  next
    case True
    let ?t = "if queue' = [] then ?s\<lparr>outbox := (outbox ?s)(fd := None)\<rparr> else ?s"
    have eq: "try_send fd s = update_watch fd ?t" using Some l True by (simp add: try_send_def)
    have qt: "queue_of ?t fd = queue'" by (simp add: queue_of_def)
    have len: "length queue' \<le> kMaxQueuedChunks" using stream assms q by (auto simp: sendable_def)
    have conn: "conn_ok (update_watch fd ?t) fd"
      by (rule update_watch_conn [of _ _ p]) (use assms len qt in \<open>simp_all add: sendable_def\<close>)
    have touch: "touches fd s (update_watch fd ?t)"
      by (rule touches_trans [OF _ update_watch_touches]) (simp add: touches_def)
    have q': "queue_of (update_watch fd ?t) fd = queue'" using qt by (simp add: queue_of_def)
    have "out_stream (update_watch fd ?t) fd = out_stream s fd"
      unfolding out_stream_def q q' using stream by auto
    moreover have "k_wire (update_watch fd ?t) fd = wire" "k_send (update_watch fd ?t) fd = rs"
      "parsers (update_watch fd ?t) = parsers s" "sv_core (update_watch fd ?t) = sv_core s"
      "k_ticks (update_watch fd ?t) = k_ticks s" "k_recv (update_watch fd ?t) = k_recv s" by simp_all
    ultimately show ?thesis
      unfolding eq sent_law_def using conn touch wire stream fine q q' assms by (auto simp: sendable_def)
  qed
qed

lemma queue_response_law:
  assumes "conn_ok s fd" and "parsers s fd = Some p"
  shows "sent_law fd p (reply_bytes r) 1 s (queue_response fd r s)"
proof -
  let ?queue = "queue_of s fd @ [chunk_of (finish_head r)]"
  let ?s = "s\<lparr>outbox := (outbox s)(fd \<mapsto> ?queue)\<rparr>"
  have q: "queue_of ?s fd = ?queue" by (simp add: queue_of_def)
  have out: "out_stream ?s fd = out_stream s fd @ reply_bytes r"
    by (simp add: out_stream_def q chunk_pending_of)
  have t: "touches fd s ?s" by (simp add: touches_def)
  show ?thesis
  proof (cases "length ?queue > kMaxQueuedChunks")
    case True
    then have "queue_response fd r s = close_client fd ?s"
      by (simp add: queue_response_def queue_of_def Let_def)
    moreover have "prefix (k_wire s fd) (out_stream s fd @ reply_bytes r)" by (simp add: out_stream_def)
    ultimately show ?thesis
      using True touches_trans [OF t close_client_touches] by (simp add: sent_law_def)
  next
    case False
    then have eq: "queue_response fd r s = try_send fd ?s"
      by (simp add: queue_response_def queue_of_def Let_def)
    have "sendable ?s fd p" using assms False q by (auto simp: sendable_def conn_ok_def)
    from try_send_law [OF this] out q touches_trans [OF t] show ?thesis
      unfolding eq sent_law_def by auto
  qed
qed

end
