(* ===== verification/ServerSpec.thy ===== *)
theory ServerSpec
  imports ServerInv
begin

text \<open>
  What the event loop promises: under every sequence of events, other threads and kernel answers no
  event goes wrong and the tables stay consistent; the requests a client pipelines are executed in order and
  answered in order, byte for byte; and the one place where this is not so, the error reply that bypasses
  the queue.
\<close>

section \<open>Requests and their replies\<close>

fun stamp :: "(nat \<Rightarrow> env) \<Rightarrow> nat \<Rightarrow> command list \<Rightarrow> (env \<times> command) list" where
  "stamp env t [] = []"
| "stamp env t (c # cs) = (env t, c) # stamp env (Suc t) cs"

definition requests :: "command list \<Rightarrow> command list" where
  "requests cs = filter (\<lambda>c. \<not> blank c) cs"

lemma requests_simps [simp]:
  "requests [] = []" "requests (c # cs) = (if blank c then requests cs else c # requests cs)"
  "requests (cs @ ds) = requests cs @ requests ds"
  by (simp_all add: requests_def)

lemma stamp_append: "stamp env t (cs @ ds) = stamp env t cs @ stamp env (t + length cs) ds"
  by (induction cs arbitrary: t) simp_all

lemma exec_run_append:
  "exec_run rt mv (xs @ ys) c = Option.bind (exec_run rt mv xs c)
     (\<lambda>(rs, c'). map_option (\<lambda>(rs', c''). (rs @ rs', c'')) (exec_run rt mv ys c'))"
proof (induction xs arbitrary: c)
  case Nil
  show ?case by (simp add: option.map_ident_strong case_prod_unfold)
next
  case (Cons x xs)
  obtain env cmd where x: "x = (env, cmd)" by (cases x)
  show ?case
  proof (cases "execute_command rt mv env cmd c")
    case (Some a)
    obtain r c1 where "a = (r, c1)" by (cases a)
    with Some Cons.IH [of c1] x show ?thesis
      by (cases "exec_run rt mv xs c1"; cases "exec_run rt mv ys (snd (the (exec_run rt mv xs c1)))")
        (auto simp: case_prod_unfold)
  qed (simp add: x)
qed

text \<open>The requests are executed, and their replies are appended to what the connection has been promised.\<close>

definition answered :: "lru runtime \<Rightarrow> int \<Rightarrow> command list \<Rightarrow> server \<Rightarrow> server \<Rightarrow> bool" where
  "answered rt fd cs s s' \<longleftrightarrow> (\<exists>rs.
     exec_run rt (sv_max_value s) (stamp (k_env s) (k_ticks s) cs) (sv_core s) = Some (rs, sv_core s') \<and>
     k_ticks s' = k_ticks s + length cs \<and>
     out_stream s' fd = out_stream s fd @ concat (map reply_bytes rs))"

text \<open>
  The connection was closed after the first \<open>n\<close> requests; what it received is a prefix of what it was
  promised, unless the client sent garbage.
\<close>

definition cut_off :: "lru runtime \<Rightarrow> int \<Rightarrow> command list \<Rightarrow> bool \<Rightarrow> server \<Rightarrow> server \<Rightarrow> bool" where
  "cut_off rt fd cs garbage s s' \<longleftrightarrow> (\<exists>n rs. n \<le> length cs \<and>
     exec_run rt (sv_max_value s) (stamp (k_env s) (k_ticks s) (take n cs)) (sv_core s) = Some (rs, sv_core s') \<and>
     k_ticks s' = k_ticks s + n \<and>
     (garbage \<or> prefix (k_wire s' fd) (out_stream s fd @ concat (map reply_bytes rs))))"

lemma answered_Nil: "sv_core s' = sv_core s \<Longrightarrow> k_ticks s' = k_ticks s \<Longrightarrow> out_stream s' fd = out_stream s fd \<Longrightarrow>
    answered rt fd [] s s'"
  by (simp add: answered_def)

lemma answered_append:
  assumes "answered rt fd cs s s'" and "touches fd s s'" and "answered rt fd ds s' s''"
  shows "answered rt fd (cs @ ds) s s''"
proof -
  have t: "sv_max_value s' = sv_max_value s" "k_env s' = k_env s" using assms(2) by (simp_all add: touches_def)
  from assms(1) obtain rs where 1: "exec_run rt (sv_max_value s) (stamp (k_env s) (k_ticks s) cs) (sv_core s) =
      Some (rs, sv_core s')" "k_ticks s' = k_ticks s + length cs"
    "out_stream s' fd = out_stream s fd @ concat (map reply_bytes rs)" unfolding answered_def by blast
  from assms(3) obtain rs' where 2: "exec_run rt (sv_max_value s) (stamp (k_env s) (k_ticks s') ds) (sv_core s') =
      Some (rs', sv_core s'')" "k_ticks s'' = k_ticks s' + length ds"
    "out_stream s'' fd = out_stream s' fd @ concat (map reply_bytes rs')" unfolding answered_def t by blast
  show ?thesis unfolding answered_def
    by (rule exI [of _ "rs @ rs'"]) (use 1 2 in \<open>simp add: stamp_append exec_run_append\<close>)
qed

lemma cut_off_append:
  assumes "answered rt fd cs s s'" and "touches fd s s'" and "cut_off rt fd ds garbage s' s''"
  shows "cut_off rt fd (cs @ ds) garbage s s''"
proof -
  have t: "sv_max_value s' = sv_max_value s" "k_env s' = k_env s" using assms(2) by (simp_all add: touches_def)
  from assms(1) obtain rs where 1: "exec_run rt (sv_max_value s) (stamp (k_env s) (k_ticks s) cs) (sv_core s) =
      Some (rs, sv_core s')" "k_ticks s' = k_ticks s + length cs"
    "out_stream s' fd = out_stream s fd @ concat (map reply_bytes rs)" unfolding answered_def by blast
  from assms(3) obtain n rs' where 2: "n \<le> length ds"
    "exec_run rt (sv_max_value s) (stamp (k_env s) (k_ticks s') (take n ds)) (sv_core s') = Some (rs', sv_core s'')"
    "k_ticks s'' = k_ticks s' + n"
    "garbage \<or> prefix (k_wire s'' fd) (out_stream s' fd @ concat (map reply_bytes rs'))"
    unfolding cut_off_def t by blast
  show ?thesis unfolding cut_off_def
    by (intro exI [of _ "length cs + n"] exI [of _ "rs @ rs'"])
      (use 1 2 in \<open>simp add: stamp_append exec_run_append\<close>)
qed

lemma cut_off_more: "cut_off rt fd cs garbage s s' \<Longrightarrow> cut_off rt fd (cs @ ds) garbage s s'"
  unfolding cut_off_def by (metis length_append min.absorb1 take_append append_Nil2 diff_is_0_eq' take0 trans_le_add1)

section \<open>Draining one buffer\<close>

lemma drain_Nil [simp]: "drain_buffer alloc rt fd p [] s = Some (True, s)"
  by (simp add: drain_buffer.simps)

lemma drain_consume:
  assumes "data \<noteq> []" and "consume alloc p data command_default = Some (st, p', rest, cmd)"
  shows "drain_buffer alloc rt fd p data s =
    (let s = s\<lparr>parsers := (parsers s)(fd \<mapsto> p')\<rparr>
     in if st = NeedMore then Some (True, s)
        else if st = Error then Some (False, close_client fd (send_direct fd (error_reply p') s))
        else if blank cmd then drain_buffer alloc rt fd p' rest s
        else (case execute_command rt (sv_max_value s) (k_env s (k_ticks s)) cmd (sv_core s) of
           None \<Rightarrow> None
         | Some (r, core) \<Rightarrow>
             let s = queue_response fd r (s\<lparr>sv_core := core, k_ticks := Suc (k_ticks s)\<rparr>)
             in if parsers s fd = None then Some (False, s) else drain_buffer alloc rt fd p' rest s))"
  by (subst drain_buffer.simps) (simp only: assms if_False option.case prod.case blank_def)

text \<open>Storing what the parser has become keeps everything else.\<close>

lemma set_parser:
  assumes "server_inv s" and "parsers s fd = Some p" and "parser_inv p'"
  defines "s1 \<equiv> s\<lparr>parsers := (parsers s)(fd \<mapsto> p')\<rparr>"
  shows "server_inv s1" and "touches fd s s1" and "out_stream s1 fd = out_stream s fd"
    and "queue_of s1 fd = queue_of s fd"
proof -
  show t: "touches fd s s1" by (simp add: touches_def s1_def)
  have "conn_ok s1 fd" using server_invD(3) [OF assms(1), of fd] assms(2,3)
    by (simp add: conn_ok_def s1_def queue_of_def)
  with t assms(1) show "server_inv s1" by (intro server_inv_touched [of s fd s1]) (simp_all add: s1_def server_invD)
  show "out_stream s1 fd = out_stream s fd" "queue_of s1 fd = queue_of s fd"
    by (simp_all add: s1_def out_stream_def queue_of_def)
qed

text \<open>One request: it is executed, and the reply is queued and sent as far as the socket takes it.\<close>

lemma request_step:
  assumes inv: "server_inv s" and p: "parsers s fd = Some p"
    and ex: "execute_command (lru_runtime grow) (sv_max_value s) (k_env s (k_ticks s)) cmd (sv_core s) = Some (r, core)"
    and core: "core_inv core"
  defines "s' \<equiv> queue_response fd r (s\<lparr>sv_core := core, k_ticks := Suc (k_ticks s)\<rparr>)"
  shows "server_inv s'" and "touches fd s s'"
    and "parsers s' fd \<noteq> None \<Longrightarrow> parsers s' fd = Some p \<and> answered (lru_runtime grow) fd [cmd] s s'"
    and "parsers s' fd = None \<Longrightarrow> cut_off (lru_runtime grow) fd [cmd] garbage s s'"
    and "list_all takes (k_send s fd) \<Longrightarrow> length (queue_of s fd) < kMaxQueuedChunks \<Longrightarrow>
      parsers s' fd \<noteq> None \<and> list_all takes (k_send s' fd) \<and> length (queue_of s' fd) \<le> Suc (length (queue_of s fd))"
proof -
  let ?s = "s\<lparr>sv_core := core, k_ticks := Suc (k_ticks s)\<rparr>"
  have same: "conn_ok ?s fd = conn_ok s fd" "out_stream ?s fd = out_stream s fd" "queue_of ?s fd = queue_of s fd"
    by (rule conn_ok_cong) (simp_all add: out_stream_def queue_of_def)
  have law: "sent_law fd p (reply_bytes r) 1 ?s s'"
    unfolding s'_def by (rule queue_response_law) (use server_invD(3) [OF inv] same p in simp_all)
  have t: "touches fd s ?s" by (simp add: touches_def)
  show tt: "touches fd s s'" using touches_trans [OF t] law by (simp add: sent_law_def)
  show "server_inv s'"
    by (rule server_inv_touched [OF inv tt]) (use law core in \<open>simp_all add: sent_law_def\<close>)
  have run: "exec_run (lru_runtime grow) (sv_max_value s) (stamp (k_env s) (k_ticks s) [cmd]) (sv_core s) = Some ([r], sv_core s')"
    using ex law by (simp add: sent_law_def)
  show "parsers s' fd \<noteq> None \<Longrightarrow> parsers s' fd = Some p \<and> answered (lru_runtime grow) fd [cmd] s s'"
    unfolding answered_def using law run same by (auto simp: sent_law_def)
  show "parsers s' fd = None \<Longrightarrow> cut_off (lru_runtime grow) fd [cmd] garbage s s'"
    unfolding cut_off_def
    by (intro exI [of _ "1"] exI [of _ "[r]"]) (use law run same in \<open>auto simp: sent_law_def\<close>)
  show "list_all takes (k_send s fd) \<Longrightarrow> length (queue_of s fd) < kMaxQueuedChunks \<Longrightarrow>
      parsers s' fd \<noteq> None \<and> list_all takes (k_send s' fd) \<and> length (queue_of s' fd) \<le> Suc (length (queue_of s fd))"
    using law same by (simp add: sent_law_def)
qed

definition drained ::
  "lru runtime \<Rightarrow> int \<Rightarrow> command list \<Rightarrow> status \<Rightarrow> parser \<Rightarrow> server \<Rightarrow> bool \<Rightarrow> server \<Rightarrow> bool" where
  "drained rt fd cs st q s going s' \<longleftrightarrow> server_inv s' \<and> touches fd s s' \<and>
     (going \<longrightarrow> st = NeedMore \<and> parsers s' fd = Some q \<and> answered rt fd (requests cs) s s') \<and>
     (\<not> going \<longrightarrow> parsers s' fd = None \<and> cut_off rt fd (requests cs) (st = Error) s s') \<and>
     (st \<noteq> Error \<longrightarrow> list_all takes (k_send s fd) \<longrightarrow>
        length (queue_of s fd) + length (requests cs) \<le> kMaxQueuedChunks \<longrightarrow>
        going \<and> list_all takes (k_send s' fd) \<and>
        length (queue_of s' fd) \<le> length (queue_of s fd) + length (requests cs))"

text \<open>A turn in which the connection stays open, and the turns after it.\<close>

lemma drained_append:
  assumes t: "touches fd s s1" and a: "answered rt fd (requests cs) s s1"
    and fine: "list_all takes (k_send s fd) \<Longrightarrow> length (queue_of s fd) + length (requests cs) \<le> kMaxQueuedChunks \<Longrightarrow>
      list_all takes (k_send s1 fd) \<and> length (queue_of s1 fd) \<le> length (queue_of s fd) + length (requests cs)"
    and d: "drained rt fd ds st q s1 going s'"
  shows "drained rt fd (cs @ ds) st q s going s'"
proof -
  have "going \<Longrightarrow> answered rt fd (requests (cs @ ds)) s s'"
    using answered_append [OF a t, of "requests ds" s'] d by (simp add: drained_def)
  moreover have "\<not> going \<Longrightarrow> cut_off rt fd (requests (cs @ ds)) (st = Error) s s'"
    using cut_off_append [OF a t, of "requests ds" "st = Error" s'] d by (simp add: drained_def)
  moreover have "touches fd s s'" using touches_trans [OF t] d by (simp add: drained_def)
  ultimately show ?thesis
    using d fine unfolding drained_def by (auto simp: trans_le_add1)
qed

lemma garbage_closes:
  assumes "server_inv s" and "parsers s fd = Some p"
  shows "drained rt fd [] Error q s False (close_client fd (send_direct fd text s))"
proof -
  have t: "touches fd s (send_direct fd text s)"
    by (simp add: touches_def send_direct_def split: prod.split)
  have c: "sv_core (send_direct fd text s) = sv_core s" "k_ticks (send_direct fd text s) = k_ticks s"
    by (simp_all add: send_direct_def split: prod.split)
  have "server_inv (close_client fd (send_direct fd text s))"
    using server_inv_touched [OF assms(1) touches_trans [OF t close_client_touches]] c server_invD(1) [OF assms(1)]
    by simp
  with touches_trans [OF t close_client_touches] c show ?thesis
    by (simp add: drained_def cut_off_def)
qed

text \<open>A turn that executes a request, up to the next turn.\<close>

lemma drain_request:
  assumes inv: "server_inv s" and p: "parsers s fd = Some p" and data: "data \<noteq> []" and p': "parser_inv p'"
    and c: "consume alloc p data command_default = Some (Ready, p', rest, cmd)" and b: "\<not> blank cmd"
  obtains t where "server_inv t" and "touches fd s t"
    and "drain_buffer alloc (lru_runtime grow) fd p data s =
      (if parsers t fd = None then Some (False, t) else drain_buffer alloc (lru_runtime grow) fd p' rest t)"
    and "parsers t fd \<noteq> None \<longrightarrow> parsers t fd = Some p' \<and> answered (lru_runtime grow) fd (requests [cmd]) s t"
    and "parsers t fd = None \<longrightarrow> cut_off (lru_runtime grow) fd (requests [cmd]) garbage s t"
    and "list_all takes (k_send s fd) \<and> length (queue_of s fd) < kMaxQueuedChunks \<longrightarrow>
      parsers t fd \<noteq> None \<and> list_all takes (k_send t fd) \<and> length (queue_of t fd) \<le> Suc (length (queue_of s fd))"
proof -
  let ?rt = "lru_runtime grow" and ?s = "s\<lparr>parsers := (parsers s)(fd \<mapsto> p')\<rparr>"
  note s1 = set_parser [OF inv p p']
  have lookup: "parsers ?s fd = Some p'" by simp
  have a0: "answered ?rt fd [] s ?s" using s1(3) by (simp add: answered_Nil)
  from execute_total [OF server_invD(1,2) [OF s1(1)], of grow "sv_max_value ?s" "k_ticks ?s" cmd]
  obtain r core where ex: "execute_command ?rt (sv_max_value ?s) (k_env ?s (k_ticks ?s)) cmd (sv_core ?s) = Some (r, core)"
    and core: "core_inv core" by blast
  let ?t = "queue_response fd r (?s\<lparr>sv_core := core, k_ticks := Suc (k_ticks ?s)\<rparr>)"
  note step = request_step [OF s1(1) lookup ex core]
  show ?thesis
  proof (rule that [of ?t])
    show "server_inv ?t" by (rule step(1))
    show "touches fd s ?t" by (rule touches_trans [OF s1(2) step(2)])
    show "drain_buffer alloc ?rt fd p data s =
        (if parsers ?t fd = None then Some (False, ?t) else drain_buffer alloc ?rt fd p' rest ?t)"
      using drain_consume [OF data c, of ?rt fd s] b ex by (simp add: Let_def)
    show "parsers ?t fd \<noteq> None \<longrightarrow> parsers ?t fd = Some p' \<and> answered ?rt fd (requests [cmd]) s ?t"
      using answered_append [OF a0 s1(2)] step(3) b by simp
    show "parsers ?t fd = None \<longrightarrow> cut_off ?rt fd (requests [cmd]) garbage s ?t"
      using cut_off_append [OF a0 s1(2) step(4)] b by simp
    show "list_all takes (k_send s fd) \<and> length (queue_of s fd) < kMaxQueuedChunks \<longrightarrow>
        parsers ?t fd \<noteq> None \<and> list_all takes (k_send ?t fd) \<and> length (queue_of ?t fd) \<le> Suc (length (queue_of s fd))"
      using step(5) s1(4) by simp
  qed
qed

lemma drain_buffer_law:
  assumes "server_inv s" and "parsers s fd = Some p" and "pump alloc p data = Some (cs, st, q)"
  shows "\<exists>going s'. drain_buffer alloc (lru_runtime grow) fd p data s = Some (going, s') \<and>
    drained (lru_runtime grow) fd cs st q s going s'"
  using assms
proof (induction alloc p data arbitrary: s cs st q rule: pump.induct)
  case (1 alloc p data)
  let ?rt = "lru_runtime grow"
  have pinv: "parser_inv p" using server_invD(3) [OF 1(2), of fd] 1(3) by (simp add: conn_ok_def)
  show ?case
  proof (cases "data = []")
    case True
    with 1(2-4) show ?thesis by (auto simp: drained_def answered_Nil)
  next
    case False
    from consume_inv [OF pinv, of alloc data command_default] obtain st1 p' rest cmd where
      c: "consume alloc p data command_default = Some (st1, p', rest, cmd)" and p': "parser_inv p'" by blast
    note pump = 1(4) [unfolded pump_step [OF False c]] and drain = drain_consume [OF False c, of ?rt fd s]
    let ?s = "s\<lparr>parsers := (parsers s)(fd \<mapsto> p')\<rparr>"
    note s1 = set_parser [OF 1(2,3) p']
    have lookup: "parsers ?s fd = Some p'" by simp
    have a0: "answered ?rt fd (requests []) s ?s" using s1(3) by (simp add: answered_Nil)
    show ?thesis
    proof (cases st1)
      case NeedMore
      with pump have "cs = []" "st = NeedMore" "q = p'" by auto
      with drain NeedMore s1 a0 show ?thesis by (auto simp: drained_def Let_def)
    next
      case Error
      with pump have "cs = []" "st = Error" "q = p'" by auto
      with drain Error drained_append [OF s1(2) a0 _ garbage_closes [OF s1(1) lookup, of ?rt p' "error_reply p'"]] s1(4)
      show ?thesis by (auto simp: Let_def)
    next
      case Ready
      with pump obtain ds where ds: "pump alloc p' rest = Some (ds, st, q)" "cs = [cmd] @ ds"
        by (cases "pump alloc p' rest") auto
      note IH = 1(1) [OF False c refl refl refl Ready _ _ ds(1)]
      show ?thesis
      proof (cases "blank cmd")
        case True
        from IH [OF s1(1) lookup] obtain going s' where
          s': "drain_buffer alloc ?rt fd p' rest ?s = Some (going, s')" "drained ?rt fd ds st q ?s going s'" by blast
        have "answered ?rt fd (requests [cmd]) s ?s" using a0 True by simp
        from drained_append [OF s1(2) this _ s'(2)] s1(4) True ds(2) s'(1) drain Ready show ?thesis
          by (simp add: Let_def)
      next
        case b: False
        obtain t where t: "server_inv t" "touches fd s t" "drain_buffer alloc ?rt fd p data s =
            (if parsers t fd = None then Some (False, t) else drain_buffer alloc ?rt fd p' rest t)"
          and open1: "parsers t fd \<noteq> None \<longrightarrow> parsers t fd = Some p' \<and> answered ?rt fd (requests [cmd]) s t"
          and closed1: "parsers t fd = None \<longrightarrow> cut_off ?rt fd (requests [cmd]) (st = Error) s t"
          and fine: "list_all takes (k_send s fd) \<and> length (queue_of s fd) < kMaxQueuedChunks \<longrightarrow>
            parsers t fd \<noteq> None \<and> list_all takes (k_send t fd) \<and> length (queue_of t fd) \<le> Suc (length (queue_of s fd))"
          using drain_request [OF 1(2,3) False p' c [unfolded Ready] b, of grow "st = Error"] by blast
        show ?thesis
        proof (cases "parsers t fd")
          case None
          with cut_off_more [OF mp [OF closed1], of "requests ds"] have "cut_off ?rt fd (requests cs) (st = Error) s t"
            using b by (simp add: ds(2))
          with t(1,2) None fine b ds(2) have "drained ?rt fd cs st q s False t" by (auto simp: drained_def)
          with t(3) None show ?thesis by auto
        next
          case (Some p2)
          with open1 have o: "parsers t fd = Some p'" "answered ?rt fd (requests [cmd]) s t" by auto
          from IH [OF t(1) o(1)] obtain going s' where
            s': "drain_buffer alloc ?rt fd p' rest t = Some (going, s')" "drained ?rt fd ds st q t going s'" by blast
          from drained_append [OF t(2) o(2) _ s'(2)] fine b ds(2) s'(1) t(3) Some show ?thesis by auto
        qed
      qed
    qed
  qed
qed

section \<open>Reading until the socket would block\<close>

lemma set_recv:
  fixes fd :: int and rs :: "recv_result list"
  assumes "server_inv s"
  defines "s1 \<equiv> s\<lparr>k_recv := (k_recv s)(fd := rs)\<rparr>"
  shows "server_inv s1" and "touches fd s s1" and "out_stream s1 fd = out_stream s fd"
    and "queue_of s1 fd = queue_of s fd"
proof -
  show t: "touches fd s s1" by (simp add: touches_def s1_def)
  have "conn_ok s1 fd = conn_ok s fd" by (rule conn_ok_cong) (simp_all add: s1_def)
  with t assms(1) show "server_inv s1" by (intro server_inv_touched [of s fd s1]) (simp_all add: s1_def server_invD)
  show "out_stream s1 fd = out_stream s fd" "queue_of s1 fd = queue_of s fd"
    by (simp_all add: s1_def out_stream_def queue_of_def)
qed

lemma read_loop_total:
  "server_inv s \<Longrightarrow> \<exists>s'. read_loop alloc (lru_runtime grow) fd rs s = Some s' \<and> server_inv s' \<and> touches fd s s'"
proof (induction rs arbitrary: s)
  case Nil
  with set_recv [OF Nil(1), of fd "[]"] show ?case by simp
next
  case (Cons r rs)
  let ?s = "s\<lparr>k_recv := (k_recv s)(fd := rs)\<rparr>"
  note s1 = set_recv [OF Cons.prems, of fd rs]
  have closed: "server_inv (close_client fd ?s)" "touches fd s (close_client fd ?s)"
    using close_client_inv [OF s1(1)] touches_trans [OF s1(2) close_client_touches] by blast+
  show ?case
  proof (cases r)
    case (Received data)
    show ?thesis
    proof (cases "data = [] \<or> parsers ?s fd = None")
      case True
      with Received closed s1 show ?thesis by (auto simp: Let_def)
    next
      case False
      then obtain p where p: "parsers ?s fd = Some p" and data: "data \<noteq> []" by auto
      have "parser_inv p" using server_invD(3) [OF s1(1), of fd] p by (simp add: conn_ok_def)
      from pump_total [OF this, of alloc data] obtain cs st q where "pump alloc p data = Some (cs, st, q)" by blast
      from drain_buffer_law [OF s1(1) p this, of grow] obtain going s' where
        s': "drain_buffer alloc (lru_runtime grow) fd p data ?s = Some (going, s')"
        "server_inv s'" "touches fd ?s s'" by (auto simp: drained_def)
      have t: "touches fd s s'" by (rule touches_trans [OF s1(2) s'(3)])
      from Cons.IH [OF s'(2)] touches_trans [OF t] t s' Received data p show ?thesis
        by (cases going) (auto simp: Let_def)
    qed
  next
    case Recv_intr
    from Cons.IH [OF s1(1)] touches_trans [OF s1(2)] Recv_intr show ?thesis by auto
  qed (use closed s1 in simp_all)
qed

lemma read_loop_law:
  assumes "server_inv s" and "parsers s fd = Some p" and "alive rs"
    and "feed alloc p (incoming rs) = Some (cs, st, q)"
  shows "\<exists>going s'. read_loop alloc (lru_runtime grow) fd rs s = Some s' \<and>
    drained (lru_runtime grow) fd cs st q s going s'"
  using assms
proof (induction rs arbitrary: s p cs)
  case Nil
  then show ?case
    using set_recv [OF Nil(1), of fd "[]"] by (auto simp: drained_def answered_Nil)
next
  case (Cons r rs)
  let ?rt = "lru_runtime grow" and ?s = "s\<lparr>k_recv := (k_recv s)(fd := rs)\<rparr>"
  note s1 = set_recv [OF Cons.prems(1), of fd rs]
  have p: "parsers ?s fd = Some p" using Cons.prems(2) by simp
  have a0: "answered ?rt fd (requests []) s ?s" using s1(3) by (simp add: answered_Nil)
  note later = drained_append [OF s1(2) a0]
  show ?case
  proof (cases r)
    case (Received data)
    with Cons.prems(4) obtain cs1 st1 q1 where pump: "pump alloc p data = Some (cs1, st1, q1)"
      by (auto simp: bind_Some_iff)
    from drain_buffer_law [OF s1(1) p pump, of grow] obtain going s2 where
      s2: "drain_buffer alloc ?rt fd p data ?s = Some (going, s2)" "drained ?rt fd cs1 st1 q1 ?s going s2" by blast
    from later [OF _ s2(2)] s1(4) have d2: "drained ?rt fd cs1 st1 q1 s going s2" by simp
    have data: "data \<noteq> []" using Received Cons.prems(3) by simp
    have loop: "read_loop alloc ?rt fd (r # rs) s =
        (if going then read_loop alloc ?rt fd rs s2 else Some s2)"
      using Received data p s2(1) by (simp add: Let_def)
    show ?thesis
    proof (cases "st1 = Error")
      case True
      with Received Cons.prems(4) pump have "cs = cs1" "st = st1" "q = q1" by auto
      moreover have "\<not> going" using d2 True by (auto simp: drained_def)
      ultimately show ?thesis using loop d2 by auto
    next
      case ok: False
      with Received Cons.prems(4) pump obtain cs2 where
        f: "feed alloc q1 (incoming rs) = Some (cs2, st, q)" "cs = cs1 @ cs2" by (auto simp: bind_Some_iff)
      show ?thesis
      proof (cases going)
        case True
        with d2 have t: "server_inv s2" "parsers s2 fd = Some q1" "touches fd s s2" "answered ?rt fd (requests cs1) s s2"
          by (simp_all add: drained_def)
        from Cons.IH [OF t(1,2) _ f(1)] Received Cons.prems(3) obtain going' s3 where
          s3: "read_loop alloc ?rt fd rs s2 = Some s3" "drained ?rt fd cs2 st q s2 going' s3" by auto
        from drained_append [OF t(3,4) _ s3(2)] d2 ok f(2) s3(1) loop True show ?thesis
          by (auto simp: drained_def)
      next
        case False
        with d2 ok have "cut_off ?rt fd (requests cs1) False s s2" by (simp add: drained_def)
        then have "cut_off ?rt fd (requests cs1) (st = Error) s s2" unfolding cut_off_def by blast
        from cut_off_more [OF this, of "requests cs2"] have "drained ?rt fd cs st q s False s2"
          using d2 False ok f(2) by (auto simp: drained_def)
        with loop False show ?thesis by auto
      qed
    qed
  next
    case Recv_intr
    with Cons.prems have "alive rs" "feed alloc p (incoming rs) = Some (cs, st, q)" by simp_all
    from Cons.IH [OF s1(1) p this] later [of cs st q] s1(4) Recv_intr show ?thesis by fastforce
  next
    case Recv_again
    with Cons.prems p s1 a0 show ?thesis by (auto simp: drained_def)
  qed (use Cons.prems in simp)
qed

end
