(* ===== verification/ServerReach.thy ===== *)
theory ServerReach
  imports ServerSpec
begin

text \<open>
  The event loop as a transition system: a step is one event the loop handles, a change of what the
  kernel will answer, or an operation of the sweeper thread on the shared storage. The reachable states
  satisfy the invariant; the properties of the server are stated for them.
\<close>

section \<open>Steps\<close>

text \<open>\<^verbatim>\<open>accept\<close> hands out descriptors that are not open.\<close>

fun accepted :: "accept_result list \<Rightarrow> int list" where
  "accepted (Accepted fd # rs) = fd # accepted rs"
| "accepted (Accept_intr # rs) = accepted rs"
| "accepted _ = []"

text \<open>What the sweeper does to the storage: collecting the keys that are due, and dropping one of them.\<close>

definition sweeper_op :: "storage_op \<Rightarrow> bool" where
  "sweeper_op a \<longleftrightarrow> (case a of SCollect _ \<Rightarrow> True | SExpire _ \<Rightarrow> True | _ \<Rightarrow> False)"

inductive server_step :: "(size_t \<Rightarrow> bool) \<Rightarrow> lru runtime \<Rightarrow> server \<Rightarrow> server \<Rightarrow> bool"
  for alloc rt where
  accept: "distinct (accepted rs) \<Longrightarrow> \<forall>fd\<in>set (accepted rs). k_interest s fd = None \<Longrightarrow>
     server_step alloc rt s (accept_connections rs s)"
| event: "k_interest s fd \<noteq> None \<Longrightarrow> handle_event alloc rt ev fd s = Some s' \<Longrightarrow> server_step alloc rt s s'"
| kernel: "server_step alloc rt s (s\<lparr>k_recv := recvs, k_send := sends\<rparr>)"
| sweeper: "sweeper_op a \<Longrightarrow> storage_step rt a (c_store (sv_core s)) = Some st \<Longrightarrow>
     server_step alloc rt s (s\<lparr>sv_core := (sv_core s)\<lparr>c_store := st\<rparr>\<rparr>)"

inductive_cases server_stepE: "server_step alloc rt s s'"

inductive server_reach :: "(size_t \<Rightarrow> bool) \<Rightarrow> lru runtime \<Rightarrow> server \<Rightarrow> server \<Rightarrow> bool"
  for alloc rt s0 where
  start: "server_reach alloc rt s0 s0"
| step: "server_reach alloc rt s0 s \<Longrightarrow> server_step alloc rt s s' \<Longrightarrow> server_reach alloc rt s0 s'"

section \<open>Every step keeps the invariant\<close>

lemma server_inv_init [keeps_inv]:
  "core_inv c \<Longrightarrow> \<forall>i. dump_total (env i) \<Longrightarrow> server_inv (server_init c m env)"
  by (simp add: server_inv_def server_init_def conn_ok_def)

lemma register_client_law:
  assumes "server_inv s" and "k_interest s fd = None"
  shows "server_inv (register_client fd s)" and "touches fd s (register_client fd s)"
proof -
  let ?s = "register_client fd s"
  have c: "parsers s fd = None" "outbox s fd = None"
    using server_invD(3) [OF assms(1), of fd] assms(2) by (auto simp: conn_ok_def split: option.splits)
  then have p: "\<exists>n. parsers ?s fd = Some (parser_init n)" "outbox ?s fd = None"
    "watch_flags ?s fd = Some EPOLLIN" "k_interest ?s fd = Some EPOLLIN" "sv_core ?s = sv_core s"
    by (auto simp: register_client_def epoll_add_def Let_def)
  show t: "touches fd s ?s" by (simp add: touches_def) (simp add: register_client_def epoll_add_def Let_def)
  have "conn_ok ?s fd" using p parser_inv_init by (auto simp: conn_ok_def queue_of_def)
  with t p(5) assms(1) show "server_inv ?s" by (intro server_inv_touched [of s fd ?s]) (simp_all add: server_invD)
qed

lemma accept_inv [keeps_inv]:
  "server_inv s \<Longrightarrow> distinct (accepted rs) \<Longrightarrow> \<forall>fd\<in>set (accepted rs). k_interest s fd = None \<Longrightarrow>
     server_inv (accept_connections rs s)"
proof (induction rs s rule: accept_connections.induct)
  case (4 fd rs s)
  from 4(3,4) have fd: "k_interest s fd = None" and rs: "distinct (accepted rs)" "fd \<notin> set (accepted rs)" by simp_all
  note one = register_client_law [OF 4(2) fd]
  have "\<forall>g\<in>set (accepted rs). k_interest (register_client fd s) g = None"
    using one(2) rs(2) 4(4) by (auto simp: touches_def)
  from 4(1) [OF one(1) rs(1) this] show ?case by simp
qed simp_all

lemma handle_event_law:
  assumes "server_inv s"
  shows "\<exists>s'. handle_event alloc (lru_runtime grow) ev fd s = Some s' \<and> server_inv s' \<and> touches fd s s'"
proof -
  have send: "server_inv (try_send fd s1) \<and> touches fd s1 (try_send fd s1)" if "server_inv s1" for s1
  proof (cases "parsers s1 fd")
    case None
    then have "outbox s1 fd = None" using server_invD(3) [OF that, of fd] by (simp add: conn_ok_def)
    with that show ?thesis by (simp add: try_send_def)
  next
    case (Some p)
    from try_send_law [OF conn_sendable [OF server_invD(3) [OF that] Some]]
    have t: "touches fd s1 (try_send fd s1)" "conn_ok (try_send fd s1) fd" "sv_core (try_send fd s1) = sv_core s1"
      by (simp_all add: sent_law_def)
    with server_inv_touched [OF that t(1) _ t(2)] server_invD(1) [OF that] show ?thesis by simp
  qed
  obtain s1 where s1: "(if and ev EPOLLIN \<noteq> 0 then handle_readable alloc (lru_runtime grow) fd s else Some s) = Some s1"
    "server_inv s1" "touches fd s s1"
    using read_loop_total [OF assms, of alloc grow fd "k_recv s fd"] assms
    by (cases "and ev EPOLLIN = 0") (auto simp: handle_readable_def)
  define s2 where "s2 = (if and ev EPOLLOUT \<noteq> 0 then try_send fd s1 else s1)"
  have s2: "server_inv s2" "touches fd s s2"
    using send [OF s1(2)] s1 touches_trans by (auto simp: s2_def)
  have close: "server_inv (close_client fd u)" "touches fd s (close_client fd u)"
    if "server_inv u" "touches fd s u" for u
    using close_client_inv [OF that(1)] touches_trans [OF that(2) close_client_touches] by blast+
  show ?thesis
    using close [OF assms touches_refl] s1 s2 close [OF s2] unfolding handle_event_def s1(1) bind.bind_lunit s2_def [symmetric] Let_def
    by auto
qed

lemma server_step_inv [keeps_inv]:
  assumes "server_step alloc (lru_runtime grow) s s'" and inv: "server_inv s"
  shows "server_inv s'"
  using assms(1)
proof (cases rule: server_step.cases)
  case (event fd ev)
  from handle_event_law [OF inv, of alloc grow ev fd] event show ?thesis by auto
next
  case (kernel sends recvs)
  have "conn_ok (s\<lparr>k_recv := recvs, k_send := sends\<rparr>) fd = conn_ok s fd" for fd by (rule conn_ok_cong) simp_all
  with inv kernel show ?thesis by (simp add: server_inv_def)
next
  case (sweeper a st)
  have "conn_ok (s\<lparr>sv_core := (sv_core s)\<lparr>c_store := st\<rparr>\<rparr>) fd = conn_ok s fd" for fd by (rule conn_ok_cong) simp_all
  moreover from storage_step_total [of "c_store (sv_core s)" grow a] server_invD(1) [OF inv] sweeper(3)
  have "lru_storage_inv st" by (auto simp: core_inv_def)
  ultimately show ?thesis using inv sweeper(1) by (simp add: server_inv_def core_inv_def)
qed (use inv in \<open>auto intro: keeps_inv\<close>)

lemma server_reach_inv:
  "server_reach alloc (lru_runtime grow) s0 s \<Longrightarrow> server_inv s0 \<Longrightarrow> server_inv s"
  by (induction rule: server_reach.induct) (auto intro: keeps_inv)

text \<open>
  The events of one wait are steps one after the other: a client's descriptor is still registered when its turn
  comes, and what \<^verbatim>\<open>accept\<close> returns is not open at that moment.
\<close>

fun batch_ok ::
  "(size_t \<Rightarrow> bool) \<Rightarrow> lru runtime \<Rightarrow> int \<Rightarrow> int \<Rightarrow> accept_result list \<Rightarrow> (int \<times> flags) list \<Rightarrow> server \<Rightarrow> bool" where
  "batch_ok alloc rt l w accs [] s \<longleftrightarrow> True"
| "batch_ok alloc rt l w accs ((fd, ev) # events) s \<longleftrightarrow>
     (if fd = w then batch_ok alloc rt l w accs events s
      else if fd = l then distinct (accepted accs) \<and> (\<forall>g\<in>set (accepted accs). k_interest s g = None) \<and>
        batch_ok alloc rt l w [] events (accept_connections accs s)
      else k_interest s fd \<noteq> None \<and>
        (case handle_event alloc rt ev fd s of None \<Rightarrow> True | Some s' \<Rightarrow> batch_ok alloc rt l w accs events s'))"

lemma reach_trans: "server_reach alloc rt s1 s2 \<Longrightarrow> server_reach alloc rt s0 s1 \<Longrightarrow> server_reach alloc rt s0 s2"
  by (induction rule: server_reach.induct) (auto intro: server_reach.step)

lemma handle_events_reach:
  "server_inv s \<Longrightarrow> batch_ok alloc (lru_runtime grow) l w accs events s \<Longrightarrow>
     \<exists>s'. handle_events alloc (lru_runtime grow) l w accs events s = Some s' \<and>
       server_reach alloc (lru_runtime grow) s s'"
proof (induction events arbitrary: accs s)
  case Nil
  show ?case by (simp add: server_reach.start)
next
  case (Cons e events)
  obtain fd ev where e: "e = (fd, ev)" by (cases e)
  let ?rt = "lru_runtime grow"
  have go: "\<exists>s'. handle_events alloc ?rt l w accs' events s1 = Some s' \<and> server_reach alloc ?rt s s'"
    if "server_step alloc ?rt s s1" "batch_ok alloc ?rt l w accs' events s1" for s1 accs'
    using Cons.IH [OF server_step_inv [OF that(1) Cons.prems(1)] that(2)]
      reach_trans [OF _ server_reach.step [OF server_reach.start that(1)]] by blast
  consider "fd = w" | "fd \<noteq> w" "fd = l" | "fd \<noteq> w" "fd \<noteq> l" by blast
  then show ?case
  proof cases
    case 1
    with Cons e show ?thesis by simp
  next
    case 2
    with Cons.prems(2) e go [OF server_step.accept] show ?thesis by simp
  next
    case 3
    from handle_event_law [OF Cons.prems(1), of alloc grow ev fd] obtain s1 where
      s1: "handle_event alloc ?rt ev fd s = Some s1" by blast
    with 3 Cons.prems(2) e have k: "k_interest s fd \<noteq> None" "batch_ok alloc ?rt l w accs events s1" by simp_all
    from go [OF server_step.event [OF k(1) s1] k(2)] 3 e s1 show ?thesis by simp
  qed
qed

text \<open>A server as \<^verbatim>\<open>main\<close> starts it: any storage the replay of the log can have left, no connections.\<close>

definition started :: "lru runtime \<Rightarrow> size_t \<Rightarrow> server \<Rightarrow> bool" where
  "started rt m s0 \<longleftrightarrow> (\<exists>b limit mx past c env.
     storage_run rt (storage_new b limit mx) past = Some (c_store c) \<and>
     (\<forall>i. dump_total (env i)) \<and> s0 = server_init c m env)"

lemma started_inv: "started (lru_runtime grow) m s0 \<Longrightarrow> server_inv s0"
  using storage_run_inv unfolding started_def by (auto intro!: server_inv_init simp: core_inv_def)

section \<open>Properties\<close>

text \<open>
  C3: In every reachable state no event goes wrong, the storage is consistent, \<^verbatim>\<open>epoll\<close> watches exactly the
  connections that have a parser, it watches for \<^verbatim>\<open>EPOLLOUT\<close> exactly when output is waiting, and no connection has
  more than 1024 queued replies.
\<close>

theorem server_tables_consistent:
  assumes "started (lru_runtime grow) m s0" and "server_reach alloc (lru_runtime grow) s0 s"
  shows "handle_event alloc (lru_runtime grow) ev fd s \<noteq> None \<and>
    lru_storage_inv (c_store (sv_core s)) \<and>
    k_interest s = watch_flags s \<and> dom (k_interest s) = dom (parsers s) \<and>
    (outbox s fd \<noteq> None) = (k_interest s fd = Some (or EPOLLIN EPOLLOUT)) \<and>
    (outbox s fd \<noteq> None) = (queue_of s fd \<noteq> []) \<and> length (queue_of s fd) \<le> 1024"
proof -
  have inv: "server_inv s" by (rule server_reach_inv [OF assms(2) started_inv [OF assms(1)]])
  note conn = server_invD(3) [OF inv]
  have differ: "or EPOLLIN EPOLLOUT \<noteq> EPOLLIN" by (simp add: EPOLLIN_def EPOLLOUT_def)
  have 1: "handle_event alloc (lru_runtime grow) ev fd s \<noteq> None"
    using handle_event_law [OF inv, of alloc grow ev fd] by auto
  have 2: "lru_storage_inv (c_store (sv_core s))" using server_invD(1) [OF inv] by (simp add: core_inv_def)
  have 3: "k_interest s g = watch_flags s g" "(k_interest s g = None) = (parsers s g = None)" for g
    using conn [of g] by (auto simp: conn_ok_def split: option.splits)
  then have 4: "k_interest s = watch_flags s" "dom (k_interest s) = dom (parsers s)" by (auto simp: fun_eq_iff dom_def)
  have 5: "(outbox s fd \<noteq> None) = (k_interest s fd = Some (or EPOLLIN EPOLLOUT))"
    "(outbox s fd \<noteq> None) = (queue_of s fd \<noteq> [])" "length (queue_of s fd) \<le> 1024"
    using conn [of fd] differ by (auto simp: conn_ok_def queue_of_def kMaxQueuedChunks_def split: option.splits if_splits)
  from 1 2 4 5 show ?thesis by blast
qed

definition example_server :: server where
  "example_server = server_init (core_new 1 1000 500 None) 500 (\<lambda>_. sample_env False)"

lemma example_started: "started (lru_runtime grow) 500 example_server"
  unfolding started_def example_server_def
  by (intro exI [of _ 1] exI [of _ 1000] exI [of _ 500] exI [of _ "[]"] exI [of _ "core_new 1 1000 500 None"]
      exI [of _ "\<lambda>_. sample_env False"] conjI allI core_new_run sample_env_total refl)

text \<open>A client on descriptor 7, with what it will send and how the kernel will take the replies.\<close>

definition example_client :: "recv_result list \<Rightarrow> send_result list \<Rightarrow> server" where
  "example_client recvs sends =
     (accept_connections [Accepted 7] example_server)\<lparr>k_recv := \<lambda>_. recvs, k_send := \<lambda>_. sends\<rparr>"

lemma example_reach: "server_reach alloc rt example_server (example_client recvs sends)"
proof -
  have "server_step alloc rt example_server (accept_connections [Accepted 7] example_server)"
    by (rule server_step.accept) (simp_all add: example_server_def server_init_def)
  from server_reach.step [OF server_reach.step [OF server_reach.start this] server_step.kernel] show ?thesis
    unfolding example_client_def .
qed

lemma example_sel [simp]:
  "k_recv (example_client recvs sends) 7 = recvs" "k_send (example_client recvs sends) 7 = sends"
  "k_wire (example_client recvs sends) 7 = []" "queue_of (example_client recvs sends) 7 = []"
  by (simp_all add: example_client_def register_client_def epoll_add_def Let_def queue_of_def example_server_def
      server_init_def)

lemma example_parser:
  "parsers (example_client recvs sends) 7 = Some (parser_init (500 + kParseOvershoot))"
proof -
  have "min (500::size_t) 1000 = 500" by (simp add: min_def)
  then show ?thesis
    by (simp add: example_client_def register_client_def epoll_add_def Let_def example_server_def
      server_init_def parse_limit_def core_new_def storage_new_def storage_init_def)
qed

lemma server_tables_consistent_witness:
  "\<exists>s. parsers s 7 \<noteq> None \<and> handle_event (\<lambda>_. True) (lru_runtime (\<lambda>b n. b)) EPOLLIN 7 s \<noteq> None \<and>
     k_interest s = watch_flags s \<and> length (queue_of s 7) \<le> 1024"
  using server_tables_consistent [OF example_started example_reach,
      where grow = "\<lambda>b n. b" and alloc = "\<lambda>_. True" and ev = EPOLLIN and fd = 7]
    example_parser [of "[]" "[]"] by blast



text \<open>
  C1: A client that pipelines any number of frames, cut into chunks in any way, is answered in full and in
  order: if its socket works and there is room in the queue, the connection stays open, the requests are
  executed in order, and the bytes sent or queued grow by exactly the replies to these requests.
\<close>

theorem pipelined_requests_answered:
  assumes "started (lru_runtime grow) m s0" and "server_reach alloc (lru_runtime grow) s0 s"
    and "parsers s fd = Some p" and "p_state p = ArrayLen" and "header p = []"
    and "alive (k_recv s fd)" and "concat (incoming (k_recv s fd)) = concat (map frame cmds)"
    and "list_all (frame_ok alloc (max_bulk_len p)) cmds"
    and "list_all takes (k_send s fd)"
    and "length (queue_of s fd) + length (requests (map classify cmds)) \<le> 1024"
  shows "\<exists>s' rs. handle_readable alloc (lru_runtime grow) fd s = Some s' \<and> parsers s' fd \<noteq> None \<and>
    exec_run (lru_runtime grow) (sv_max_value s)
      (stamp (k_env s) (k_ticks s) (requests (map classify cmds))) (sv_core s) = Some (rs, sv_core s') \<and>
    k_wire s' fd @ pending (queue_of s' fd) =
      k_wire s fd @ pending (queue_of s fd) @ concat (map reply_bytes rs)"
proof -
  have inv: "server_inv s" by (rule server_reach_inv [OF assms(2) started_inv [OF assms(1)]])
  have "parser_inv p" using server_invD(3) [OF inv, of fd] assms(3) by (simp add: conn_ok_def)
  with pump_frames [OF this assms(4,5,8)] feed_concat [OF this, of alloc "incoming (k_recv s fd)"] assms(7)
  obtain q where "feed alloc p (incoming (k_recv s fd)) = Some (map classify cmds, NeedMore, q)" by auto
  from read_loop_law [OF inv assms(3,6) this, of grow] obtain going s' where
    s': "handle_readable alloc (lru_runtime grow) fd s = Some s'"
    "drained (lru_runtime grow) fd (map classify cmds) NeedMore q s going s'" unfolding handle_readable_def by blast
  with assms(9,10) have going by (simp add: drained_def kMaxQueuedChunks_def)
  with s'(2) obtain rs where "parsers s' fd = Some q"
    "exec_run (lru_runtime grow) (sv_max_value s)
      (stamp (k_env s) (k_ticks s) (requests (map classify cmds))) (sv_core s) = Some (rs, sv_core s')"
    "out_stream s' fd = out_stream s fd @ concat (map reply_bytes rs)"
    unfolding drained_def answered_def by blast
  with s'(1) show ?thesis by (auto simp: out_stream_def)
qed

lemma pipelined_requests_answered_witness:
  "\<exists>s' rs. handle_readable (\<lambda>_. True) (lru_runtime (\<lambda>b n. b)) 7
      (example_client [Received (frame [''PING'']), Recv_intr, Received (frame [''SELECT'', ''0''])] [Sent 3, Send_intr]) = Some s' \<and>
    parsers s' 7 \<noteq> None \<and> k_wire s' 7 @ pending (queue_of s' 7) = concat (map reply_bytes rs)"
proof -
  let ?cmds = "[[''PING''], [''SELECT'', ''0'']]" and ?p = "parser_init (500 + kParseOvershoot)"
  let ?s = "example_client [Received (frame [''PING'']), Recv_intr, Received (frame [''SELECT'', ''0''])] [Sent 3, Send_intr]"
  have 1: "p_state ?p = ArrayLen" "header ?p = []" by (simp_all add: parser_init_def)
  have 2: "alive (k_recv ?s 7)" "concat (incoming (k_recv ?s 7)) = concat (map frame ?cmds)" "list_all takes (k_send ?s 7)"
    by (simp_all add: frame_def)
  have 3: "list_all (frame_ok (\<lambda>_. True) (max_bulk_len ?p)) ?cmds"
    by (simp add: frame_ok_def bulk_ok_def parser_init_def kParseOvershoot_def)
  have 4: "length (queue_of ?s 7) + length (requests (map classify ?cmds)) \<le> 1024" by simp
  from pipelined_requests_answered [OF example_started example_reach example_parser 1 2(1,2) 3 2(3) 4, of "\<lambda>b n. b"]
  show ?thesis by auto
qed

text \<open>
  C12: A client that reads gets everything: when the socket takes bytes often enough, one writable event puts
  all queued replies on the wire, empties the queue and stops watching for \<^verbatim>\<open>EPOLLOUT\<close>.
\<close>

theorem writable_event_sends_all:
  assumes "started (lru_runtime grow) m s0" and "server_reach alloc (lru_runtime grow) s0 s"
    and "outbox s fd \<noteq> None"
    and "list_all (\<lambda>r. \<exists>n>0. r = Sent n) (k_send s fd)"
    and "length (pending (queue_of s fd)) \<le> length (k_send s fd)"
  shows "\<exists>s'. handle_event alloc (lru_runtime grow) EPOLLOUT fd s = Some s' \<and>
    k_wire s' fd = k_wire s fd @ pending (queue_of s fd) \<and> outbox s' fd = None \<and>
    k_interest s' fd = Some EPOLLIN \<and> parsers s' fd = parsers s fd"
proof -
  have inv: "server_inv s" by (rule server_reach_inv [OF assms(2) started_inv [OF assms(1)]])
  from server_invD(3) [OF inv, of fd] assms(3) obtain p where p: "parsers s fd = Some p"
    by (auto simp: conn_ok_def split: option.splits)
  note law = try_send_law [OF conn_sendable [OF server_invD(3) [OF inv] p]]
  have ev: "handle_event alloc (lru_runtime grow) EPOLLOUT fd s = Some (try_send fd s)"
    by (simp add: handle_event_def EPOLLOUT_def EPOLLIN_def EPOLLERR_def EPOLLHUP_def)
  obtain ok queue' rs wire where l: "send_loop (queue_of s fd) (k_send s fd) (k_wire s fd) = (ok, queue', rs, wire)"
    by (metis prod_cases4)
  from send_loop_drains [OF l assms(4,5)] have "ok" "queue' = []" by simp_all
  with l assms(3) have out: "outbox (try_send fd s) fd = None" "parsers (try_send fd s) fd = parsers s fd"
    by (auto simp: try_send_def queue_of_def)
  with law p have "conn_ok (try_send fd s) fd" "out_stream (try_send fd s) fd = out_stream s fd"
    by (auto simp: sent_law_def)
  with out p ev show ?thesis
    by (intro exI [of _ "try_send fd s"]) (auto simp: conn_ok_def out_stream_def queue_of_def)
qed

lemma writable_event_sends_all_witness:
  "\<exists>s s'. handle_event (\<lambda>_. True) (lru_runtime (\<lambda>b n. b)) EPOLLOUT 7 s = Some s' \<and>
     k_wire s' 7 = reply_bytes (line_reply ''+PONG'') \<and> outbox s' 7 = None \<and> k_interest s' 7 = Some EPOLLIN"
proof -
  let ?rt = "lru_runtime (\<lambda>b n. b)" and ?s = "example_client [Received (frame [''PING''])] []"
  have "map_option (\<lambda>s. (queue_of s 7, k_wire s 7)) (handle_event (\<lambda>_. True) ?rt EPOLLIN 7 ?s) =
      Some ([chunk_of (line_reply (''+PONG'' @ crlf))], [])" by code_simp
  then obtain s1 where s1: "handle_event (\<lambda>_. True) ?rt EPOLLIN 7 ?s = Some s1"
    "queue_of s1 7 = [chunk_of (line_reply (''+PONG'' @ crlf))]" "k_wire s1 7 = []" by auto
  let ?s2 = "s1\<lparr>k_recv := \<lambda>_. [], k_send := \<lambda>_. replicate 7 (Sent 2)\<rparr>"
  have "k_interest ?s 7 \<noteq> None" by (simp add: example_client_def register_client_def epoll_add_def Let_def)
  from server_reach.step [OF server_reach.step [OF example_reach server_step.event [OF this s1(1)]] server_step.kernel]
  have reach: "server_reach (\<lambda>_. True) ?rt example_server ?s2" .
  have q: "queue_of ?s2 7 = queue_of s1 7" by (simp add: queue_of_def)
  have pend: "pending (queue_of ?s2 7) = ''+PONG'' @ crlf"
    by (simp add: q s1(2) chunk_pending_def chunk_of_def line_reply_def blob_bytes_def)
  have "outbox ?s2 7 \<noteq> None" using s1(2) by (auto simp: queue_of_def split: option.splits)
  from writable_event_sends_all [OF example_started reach this] pend obtain s' where
    "handle_event (\<lambda>_. True) ?rt EPOLLOUT 7 ?s2 = Some s'" "k_wire s' 7 = ''+PONG'' @ crlf" "outbox s' 7 = None"
    "k_interest s' 7 = Some EPOLLIN"
    using s1(3) by (auto simp: crlf_def numeral_eq_Suc)
  moreover have "no_break ''+PONG''" by (simp add: no_break_def)
  ultimately show ?thesis using reply_line [of "''+PONG''"] by metis
qed

text \<open>
  C32: A protocol error corrupts a reply that is still being sent: the error text is written to the socket
  directly, in front of the queued rest of the reply, and the connection is closed. Here the client asks for
  one PING with 42 bytes \<open>a\<close> and then sends a line that is no header; it receives a well-formed bulk reply
  with other contents.
\<close>

theorem protocol_error_corrupts_reply:
  "\<exists>s s'. server_reach (\<lambda>_. True) (lru_runtime (\<lambda>b n. b)) example_server s \<and>
     incoming (k_recv s 7) = [frame [''PING'', replicate 42 CHR ''a''], ''x'' @ [CHR 0x0A]] \<and>
     handle_event (\<lambda>_. True) (lru_runtime (\<lambda>b n. b)) EPOLLIN 7 s = Some s' \<and>
     k_wire s' 7 = bulk (''a-ERR Protocol error: invalid array length'') \<and>
     bulk (''a-ERR Protocol error: invalid array length'') \<noteq> bulk (replicate 42 CHR ''a'')"
proof -
  let ?rt = "lru_runtime (\<lambda>b n. b)"
  let ?s = "example_client [Received (frame [''PING'', replicate 42 CHR ''a'']), Received (''x'' @ [CHR 0x0A])]
    [Sent 100, Sent 1, Send_again, Sent 100]"
  have "map_option (\<lambda>s. k_wire s 7) (handle_event (\<lambda>_. True) ?rt EPOLLIN 7 ?s) =
      Some (bulk (''a-ERR Protocol error: invalid array length''))" by code_simp
  moreover have "bulk (''a-ERR Protocol error: invalid array length'') \<noteq> bulk (replicate 42 CHR ''a'')" by code_simp
  moreover have "incoming (k_recv ?s 7) = [frame [''PING'', replicate 42 CHR ''a''], ''x'' @ [CHR 0x0A]]" by simp
  ultimately show ?thesis using example_reach [of "\<lambda>_. True" ?rt] by blast
qed

end
