(* ===== verification/Cli.thy ===== *)
theory Cli
  imports ServerReach
begin

text \<open>
  The command line and the start-up of the program (\<^verbatim>\<open>src/src/main.cpp\<close>): parsing of the options, the limits
  computed from them, the replay of the log into a fresh storage, and the server built on it. Output to the
  terminal is left out; leaving the program is \<open>Inl\<close> of the exit code.
\<close>

section \<open>Numbers of the standard library\<close>

text \<open>
  \<^verbatim>\<open>stoi\<close> and \<^verbatim>\<open>stoul\<close>: leading white space, an optional sign, then as many digits as there are; what follows
  is ignored. \<open>None\<close>: an exception. \<^verbatim>\<open>stoul\<close> negates modulo \<open>2 ^ 64\<close>.
\<close>

definition is_space :: "char \<Rightarrow> bool" where
  "is_space c \<longleftrightarrow> (of_char c :: nat) = 32 \<or> 9 \<le> (of_char c :: nat) \<and> (of_char c :: nat) \<le> 13"

definition number_prefix :: "string \<Rightarrow> (bool \<times> nat) option" where
  "number_prefix text =
     (let s = dropWhile is_space text;
          neg = (s \<noteq> [] \<and> hd s = CHR ''-'');
          digits = takeWhile is_digit (if s \<noteq> [] \<and> is_sign (hd s) then tl s else s)
      in if digits = [] then None else Some (neg, dec_value digits))"

definition cxx_stoi :: "string \<Rightarrow> int option" where
  "cxx_stoi text = (case number_prefix text of
     None \<Rightarrow> None
   | Some (neg, n) \<Rightarrow>
       let v = (if neg then - int n else int n)
       in if - (2 ^ 31) \<le> v \<and> v < 2 ^ 31 then Some v else None)"

definition cxx_stoul :: "string \<Rightarrow> 64 word option" where
  "cxx_stoul text = (case number_prefix text of
     None \<Rightarrow> None
   | Some (neg, n) \<Rightarrow>
       if n < 2 ^ 64 then Some (if neg then - of_nat n else of_nat n) else None)"

section \<open>Options\<close>

record options =
  o_port :: int
  o_admin_port :: int
  o_memory_mb :: size_t
  o_max_value_mb :: size_t
  o_aof_file :: string
  o_use_aof :: bool

definition default_options :: options where
  "default_options = \<lparr>o_port = 6379, o_admin_port = 8080, o_memory_mb = 1024, o_max_value_mb = 512,
     o_aof_file = ''polycache.aof'', o_use_aof = True\<rparr>"

text \<open>\<^verbatim>\<open>next_value\<close> leaves the program with code 1 when there is no next argument.\<close>

fun parse_args :: "string list \<Rightarrow> options \<Rightarrow> nat + options" where
  "parse_args [] opts = Inr opts"
| "parse_args (arg # args) opts =
     (if arg = ''--no-aof'' then parse_args args (opts\<lparr>o_use_aof := False\<rparr>)
      else if arg = ''--help'' \<or> arg = ''-h'' then Inl 0
      else if arg \<notin> {''--port'', ''--admin-port'', ''--memory-limit'', ''--max-value-size'', ''--aof-file''}
      then Inl 1
      else (case args of
         [] \<Rightarrow> Inl 1
       | text # args \<Rightarrow>
           if arg = ''--aof-file'' then parse_args args (opts\<lparr>o_aof_file := text\<rparr>)
           else if arg = ''--port'' then
             (case cxx_stoi text of None \<Rightarrow> Inl 1 | Some n \<Rightarrow> parse_args args (opts\<lparr>o_port := n\<rparr>))
           else if arg = ''--admin-port'' then
             (case cxx_stoi text of None \<Rightarrow> Inl 1 | Some n \<Rightarrow> parse_args args (opts\<lparr>o_admin_port := n\<rparr>))
           else if arg = ''--memory-limit'' then
             (case cxx_stoul text of None \<Rightarrow> Inl 1 | Some n \<Rightarrow> parse_args args (opts\<lparr>o_memory_mb := n\<rparr>))
           else
             (case cxx_stoul text of None \<Rightarrow> Inl 1 | Some n \<Rightarrow> parse_args args (opts\<lparr>o_max_value_mb := n\<rparr>))))"

record config =
  cf_port :: int
  cf_admin_port :: int
  cf_memory_limit :: size_t
  cf_max_value :: size_t
  cf_aof :: "string option"

definition main_config :: "string list \<Rightarrow> nat + config" where
  "main_config args = (case parse_args args default_options of
     Inl code \<Rightarrow> Inl code
   | Inr opts \<Rightarrow>
       if o_memory_mb opts = 0 \<or> o_max_value_mb opts = 0 then Inl 1
       else Inr \<lparr>cf_port = o_port opts, cf_admin_port = o_admin_port opts,
         cf_memory_limit = o_memory_mb opts * 1024 * 1024, cf_max_value = o_max_value_mb opts * 1024 * 1024,
         cf_aof = (if o_use_aof opts then Some (o_aof_file opts) else None)\<rparr>)"

section \<open>Start-up\<close>

text \<open>
  \<open>file\<close> is what the log file holds, \<open>b\<close> the bucket count of an empty table, \<open>clock\<close> the time at which each
  line is replayed. The server starts with no connections.
\<close>

definition boot ::
  "lru runtime \<Rightarrow> (string \<Rightarrow> json option) \<Rightarrow> (string \<Rightarrow> size_t) \<Rightarrow> (nat \<Rightarrow> time) \<Rightarrow> size_t \<Rightarrow>
     (nat \<Rightarrow> env) \<Rightarrow> config \<Rightarrow> string \<Rightarrow> server option" where
  "boot rt parse cap clock b env cfg file =
     (let st = storage_new b (cf_memory_limit cfg) (cf_max_value cfg)
      in do {
        st \<leftarrow> (case cf_aof cfg of None \<Rightarrow> Some st | Some _ \<Rightarrow> replay rt parse cap clock file st);
        let log = (case cf_aof cfg of None \<Rightarrow> None | Some _ \<Rightarrow> Some file);
        Some (server_init \<lparr>c_store = st, c_log = log\<rparr> (cf_max_value cfg) env) })"

section \<open>Numbers that are decimals\<close>

lemma number_prefix_decimal: "number_prefix (to_string n) = Some (False, n)"
proof -
  note d = to_string_digits [of n]
  obtain c s where cs: "to_string n = c # s" using to_string_not_Nil by (cases "to_string n") auto
  with d have c: "is_digit c" by simp
  then have "\<not> is_space c" "c \<noteq> CHR ''-''" "\<not> is_sign c"
    by (auto simp: is_digit_nat is_space_def is_sign_def)
  moreover have "takeWhile is_digit (to_string n) = to_string n"
    using d by (simp add: takeWhile_eq_all_conv list_all_iff)
  moreover have "dropWhile is_space (to_string n) = to_string n" using cs \<open>\<not> is_space c\<close> by simp
  ultimately show ?thesis using cs by (simp add: number_prefix_def Let_def) (metis dec_value_to_string)
qed

lemma cxx_stoul_decimal: "n < 2 ^ 64 \<Longrightarrow> cxx_stoul (to_string n) = Some (of_nat n)"
  by (simp add: cxx_stoul_def number_prefix_decimal)

lemma cxx_stoi_decimal: "n < 2 ^ 31 \<Longrightarrow> cxx_stoi (to_string n) = Some (int n)"
  by (simp add: cxx_stoi_def number_prefix_decimal)

text \<open>What one option and its value do; the parser runs over the arguments with it.\<close>

lemma parse_args_value:
  "parse_args (''--aof-file'' # t # args) opts = parse_args args (opts\<lparr>o_aof_file := t\<rparr>)"
  "parse_args (''--port'' # t # args) opts =
     (case cxx_stoi t of None \<Rightarrow> Inl 1 | Some n \<Rightarrow> parse_args args (opts\<lparr>o_port := n\<rparr>))"
  "parse_args (''--admin-port'' # t # args) opts =
     (case cxx_stoi t of None \<Rightarrow> Inl 1 | Some n \<Rightarrow> parse_args args (opts\<lparr>o_admin_port := n\<rparr>))"
  "parse_args (''--memory-limit'' # t # args) opts =
     (case cxx_stoul t of None \<Rightarrow> Inl 1 | Some n \<Rightarrow> parse_args args (opts\<lparr>o_memory_mb := n\<rparr>))"
  "parse_args (''--max-value-size'' # t # args) opts =
     (case cxx_stoul t of None \<Rightarrow> Inl 1 | Some n \<Rightarrow> parse_args args (opts\<lparr>o_max_value_mb := n\<rparr>))"
  by simp_all

lemma parse_args_append:
  "parse_args pre opts = Inr opts' \<Longrightarrow> parse_args (pre @ post) opts = parse_args post opts'"
proof (induction "length pre" arbitrary: pre opts rule: less_induct)
  case less
  show ?case
  proof (cases pre)
    case (Cons arg args)
    have IH: "parse_args args o1 = Inr opts' \<Longrightarrow> parse_args (args @ post) o1 = parse_args post opts'" for o1
      using less.hyps [of args o1] Cons by simp
    show ?thesis
    proof (cases "arg \<in> {''--port'', ''--admin-port'', ''--memory-limit'', ''--max-value-size'', ''--aof-file''}")
      case False
      with less.prems Cons IH show ?thesis by (simp split: if_splits)
    next
      case True
      with less.prems Cons obtain t args' where args: "args = t # args'" by (cases args) auto
      have IH': "parse_args args' o1 = Inr opts' \<Longrightarrow> parse_args (args' @ post) o1 = parse_args post opts'" for o1
        using less.hyps [of args' o1] Cons args by simp
      have app: "pre @ post = arg # t # (args' @ post)" by (simp add: Cons args)
      from True less.prems IH' show ?thesis
        unfolding app unfolding Cons args
        by (elim insertE emptyE; simp only: parse_args_value split: option.splits sum.splits)
          (simp_all del: parse_args.simps)
    qed
  qed (use less.prems in simp)
qed

lemma mb_exact: "0 < n \<Longrightarrow> n < 2 ^ 44 \<Longrightarrow> unat ((of_nat n :: size_t) * 1024 * 1024) = n * 2 ^ 20"
proof -
  assume "0 < n" "n < 2 ^ 44"
  then have "n * 2 ^ 20 < 2 ^ 64" by simp
  then have "unat (of_nat (n * 2 ^ 20) :: size_t) = n * 2 ^ 20" by (simp only: unat_of_nat) simp
  moreover have "(of_nat n :: size_t) * 1024 * 1024 = of_nat (n * 2 ^ 20)" by simp
  ultimately show ?thesis by (simp only:)
qed

section \<open>Replaying any file\<close>

lemma replay_line_run:
  assumes "storage_run (lru_runtime grow) (storage_new b limit mx) past = Some st"
  shows "\<exists>past' st'. replay_line (lru_runtime grow) parse cap now line st = Some st' \<and>
    storage_run (lru_runtime grow) (storage_new b limit mx) past' = Some st'"
proof -
  have skip: ?thesis if "replay_line (lru_runtime grow) parse cap now line st = Some st" using that assms by blast
  have one: ?thesis if "replay_line (lru_runtime grow) parse cap now line st = storage_step (lru_runtime grow) a st" for a
  proof -
    from storage_step_total [OF storage_run_inv [OF assms], of grow a] obtain st' where
      st': "storage_step (lru_runtime grow) a st = Some st'" by blast
    with assms have "storage_run (lru_runtime grow) (storage_new b limit mx) (a # past) = Some st'" by simp
    with st' that show ?thesis by metis
  qed
  show ?thesis
  proof (cases "line = [] \<or> read_entry parse line = None \<or> read_entry parse line = Some Skip")
    case True
    then show ?thesis by (intro skip) (auto simp: replay_line_def)
  next
    case False
    then obtain e where e: "line \<noteq> []" "read_entry parse line = Some e" "e \<noteq> Skip" by auto
    show ?thesis
    proof (cases e)
      case (Replay_set k v ttl)
      with e show ?thesis by (intro one [of "SSet k v (cap v) ttl now"]) (simp add: replay_line_def)
    next
      case (Replay_del k)
      with e show ?thesis by (intro one [of "SDel k"]) (simp add: replay_line_def)
    qed (use e in simp)
  qed
qed

lemma replay_lines_run:
  "storage_run (lru_runtime grow) (storage_new b limit mx) past = Some st \<Longrightarrow>
     \<exists>past' st'. replay_lines (lru_runtime grow) parse cap clock lines st = Some st' \<and>
       storage_run (lru_runtime grow) (storage_new b limit mx) past' = Some st'"
proof (induction lines arbitrary: clock past st)
  case (Cons line lines)
  from replay_line_run [OF Cons.prems, of parse cap "clock 0" line] obtain past1 st1 where
    "replay_line (lru_runtime grow) parse cap (clock 0) line st = Some st1"
    "storage_run (lru_runtime grow) (storage_new b limit mx) past1 = Some st1" by blast
  with Cons.IH [OF this(2), of "\<lambda>i. clock (Suc i)"] show ?case by simp
qed auto

section \<open>Properties\<close>



text \<open>
  C19: Limits given in megabytes are taken exactly and the last option wins: after any options that are
  accepted, decimals of at least 1 and below \<open>2 ^ 44\<close> give the limits in bytes without wrap-around; a zero is refused.
\<close>

theorem cli_limits_in_bytes:
  assumes "parse_args pre default_options = Inr opts" and "m < 2 ^ 44" and "v < 2 ^ 44"
  shows "if m = 0 \<or> v = 0
    then main_config (pre @ [''--memory-limit'', to_string m, ''--max-value-size'', to_string v]) = Inl 1
    else \<exists>cfg. main_config (pre @ [''--memory-limit'', to_string m, ''--max-value-size'', to_string v]) = Inr cfg \<and>
      unat (cf_memory_limit cfg) = m * 2 ^ 20 \<and> unat (cf_max_value cfg) = v * 2 ^ 20 \<and>
      cf_port cfg = o_port opts \<and> cf_admin_port cfg = o_admin_port opts"
proof -
  have small: "m < 2 ^ 64" "v < 2 ^ 64" using assms(2,3) by simp_all
  have "parse_args (pre @ [''--memory-limit'', to_string m, ''--max-value-size'', to_string v]) default_options =
      Inr (opts\<lparr>o_memory_mb := of_nat m, o_max_value_mb := of_nat v\<rparr>)"
    using parse_args_append [OF assms(1)] small by (simp add: cxx_stoul_decimal)
  moreover have "(of_nat m :: size_t) = 0 \<longleftrightarrow> m = 0" "(of_nat v :: size_t) = 0 \<longleftrightarrow> v = 0"
    using small by (simp_all add: word_of_nat_eq_0_iff) (auto dest: dvd_imp_le)
  ultimately show ?thesis
    using mb_exact [of m] mb_exact [of v] assms(2,3) by (auto simp: main_config_def)
qed

lemma cli_limits_in_bytes_witness:
  "\<exists>cfg. main_config ([''--port'', ''7000'', ''--no-aof''] @ [''--memory-limit'', to_string 64, ''--max-value-size'', to_string 8]) = Inr cfg \<and>
     unat (cf_memory_limit cfg) = 64 * 2 ^ 20 \<and> cf_port cfg = 7000"
proof -
  have "parse_args [''--port'', ''7000'', ''--no-aof''] default_options =
      Inr (default_options\<lparr>o_port := 7000, o_use_aof := False\<rparr>)" by code_simp
  from cli_limits_in_bytes [OF this, of 64 8] show ?thesis by auto
qed

text \<open>
  The check for at least one megabyte does not protect the limit: \<open>2 ^ 44\<close> megabytes, and the text
  \<open>-1\<close>, pass it; the first gives a limit of 0 bytes, with which nothing can be stored.
  A port number may be followed by anything.
\<close>

theorem cli_limit_wraps:
  "\<exists>cfg cfg' cfg''. main_config [''--memory-limit'', ''17592186044416''] = Inr cfg \<and> cf_memory_limit cfg = 0 \<and>
     \<not> can_store (storage_new 1 (cf_memory_limit cfg) (cf_max_value cfg)) ''k'' ''v'' 1 \<and>
     main_config [''--memory-limit'', ''-1''] = Inr cfg' \<and> unat (cf_memory_limit cfg') = 2 ^ 64 - 2 ^ 20 \<and>
     main_config [''--port'', ''63x79''] = Inr cfg'' \<and> cf_port cfg'' = 63"
proof -
  have n: "number_prefix ''17592186044416'' = Some (False, 17592186044416)" "number_prefix ''-1'' = Some (True, 1)"
    "number_prefix ''63x79'' = Some (False, 63)"
    by (simp_all add: number_prefix_def is_space_def is_digit_nat is_sign_def dec_value_def digit_val_def)
  have 1: "main_config [''--memory-limit'', ''17592186044416''] = Inr \<lparr>cf_port = 6379, cf_admin_port = 8080,
      cf_memory_limit = 0, cf_max_value = 536870912, cf_aof = Some ''polycache.aof''\<rparr>"
    by (simp add: main_config_def cxx_stoul_def n default_options_def)
  have 2: "main_config [''--memory-limit'', ''-1''] = Inr \<lparr>cf_port = 6379, cf_admin_port = 8080,
      cf_memory_limit = - 1048576, cf_max_value = 536870912, cf_aof = Some ''polycache.aof''\<rparr>"
    by (simp add: main_config_def cxx_stoul_def n default_options_def)
  have 3: "main_config [''--port'', ''63x79''] = Inr \<lparr>cf_port = 63, cf_admin_port = 8080,
      cf_memory_limit = 1073741824, cf_max_value = 536870912, cf_aof = Some ''polycache.aof''\<rparr>"
    by (simp add: main_config_def cxx_stoi_def n default_options_def)
  have "\<not> can_store (storage_new 1 0 536870912) ''k'' ''v'' 1"
    by (simp add: can_store_def storage_new_def storage_init_def size_of_def kMaxKeySize_def kEntryOverhead_def)
  with 1 2 3 show ?thesis by simp
qed

end
