(* ===== verification/Lifecycle.thy ===== *)
theory Lifecycle
  imports Socket
begin

text \<open>
  Starting and stopping an event loop: \<^verbatim>\<open>Server::start\<close>, \<^verbatim>\<open>Server::stop\<close> and the destructor
  (\<^verbatim>\<open>src/src/server.cpp\<close>), and the same functions of \<^verbatim>\<open>AdminServer\<close> (\<^verbatim>\<open>src/src/admin.cpp\<close>), whose code is the same
  but for its messages. The results of the system calls are given; the thread that runs the loop is a step relation, in
  which \<^verbatim>\<open>stop\<close> of another thread can fall between any two steps. Accesses to the members are taken to be
  sequentially consistent.
\<close>

section \<open>Descriptors\<close>

record lifecycle =
  lc_listen :: int
  lc_epoll :: int
  lc_wake0 :: int
  lc_wake1 :: int
  lc_running :: bool
  lc_open :: "int set"
  lc_pipe :: nat

definition lc_new :: "int set \<Rightarrow> lifecycle" where
  "lc_new fds = \<lparr>lc_listen = -1, lc_epoll = -1, lc_wake0 = -1, lc_wake1 = -1, lc_running = False,
     lc_open = fds, lc_pipe = 0\<rparr>"

record sys_calls =
  sy_socket :: int
  sy_bind :: bool
  sy_listen :: bool
  sy_epoll :: int
  sy_pair :: "(int \<times> int) option"
  sy_wait :: bool

definition open_fd :: "int \<Rightarrow> lifecycle \<Rightarrow> lifecycle" where
  "open_fd fd l = l\<lparr>lc_open := insert fd (lc_open l)\<rparr>"

definition close_fd :: "int \<Rightarrow> lifecycle \<Rightarrow> lifecycle" where
  "close_fd fd l = l\<lparr>lc_open := lc_open l - {fd}\<rparr>"

section \<open>Setting up, shutting down\<close>

text \<open>Up to \<^verbatim>\<open>running_ = true\<close>; \<open>False\<close>: an early return.\<close>

definition start_setup :: "sys_calls \<Rightarrow> lifecycle \<Rightarrow> bool \<times> lifecycle" where
  "start_setup sy l =
     (let l = l\<lparr>lc_listen := sy_socket sy\<rparr>
      in if lc_listen l < 0 then (False, l)
      else let l = open_fd (lc_listen l) l
      in if \<not> sy_bind sy then (False, (close_fd (lc_listen l) l)\<lparr>lc_listen := -1\<rparr>)
      else if \<not> sy_listen sy then (False, (close_fd (lc_listen l) l)\<lparr>lc_listen := -1\<rparr>)
      else let l = l\<lparr>lc_epoll := sy_epoll sy\<rparr>
      in if lc_epoll l < 0 then (False, (close_fd (lc_listen l) l)\<lparr>lc_listen := -1\<rparr>)
      else let l = open_fd (lc_epoll l) l
      in (case sy_pair sy of
           None \<Rightarrow>
             let l = (close_fd (lc_epoll l) l)\<lparr>lc_epoll := -1\<rparr>
             in (False, (close_fd (lc_listen l) l)\<lparr>lc_listen := -1\<rparr>)
         | Some (a, b) \<Rightarrow> (True, open_fd a (open_fd b (l\<lparr>lc_wake0 := a, lc_wake1 := b, lc_pipe := 0\<rparr>)))))"

definition shut_down :: "lifecycle \<Rightarrow> lifecycle" where
  "shut_down l =
     (let l = (close_fd (lc_listen l) l)\<lparr>lc_listen := -1\<rparr>;
          l = (close_fd (lc_epoll l) l)\<lparr>lc_epoll := -1\<rparr>;
          l = close_fd (lc_wake1 l) (close_fd (lc_wake0 l) l)
      in l\<lparr>lc_wake0 := -1, lc_wake1 := -1\<rparr>)"

definition destroy :: "lifecycle \<Rightarrow> lifecycle" where
  "destroy l =
     (let l = (if lc_listen l \<noteq> -1 then close_fd (lc_listen l) l else l);
          l = (if lc_epoll l \<noteq> -1 then close_fd (lc_epoll l) l else l);
          l = (if lc_wake0 l \<noteq> -1 then close_fd (lc_wake0 l) l else l)
      in if lc_wake1 l \<noteq> -1 then close_fd (lc_wake1 l) l else l)"

definition stop :: "lifecycle \<Rightarrow> lifecycle" where
  "stop l =
     (let l = l\<lparr>lc_running := False\<rparr>
      in if lc_wake1 l \<noteq> -1 then l\<lparr>lc_pipe := Suc (lc_pipe l)\<rparr> else l)"

text \<open>The same code in \<^verbatim>\<open>AdminServer\<close>.\<close>

definition admin_setup :: "sys_calls \<Rightarrow> lifecycle \<Rightarrow> bool \<times> lifecycle" where
  "admin_setup = start_setup"

definition admin_shut_down :: "lifecycle \<Rightarrow> lifecycle" where
  "admin_shut_down = shut_down"

definition admin_destroy :: "lifecycle \<Rightarrow> lifecycle" where
  "admin_destroy = destroy"

definition admin_stop :: "lifecycle \<Rightarrow> lifecycle" where
  "admin_stop = stop"

section \<open>The thread that runs the loop\<close>

text \<open>
  Before the set-up, after it, at the test of \<^verbatim>\<open>running_\<close>, blocked in \<^verbatim>\<open>epoll_wait\<close>, and after the return. A byte in
  the wake pipe ends the wait and is read; so does any event of a client, and an interrupt. Where \<open>sy_wait\<close> does
  not hold, \<^verbatim>\<open>epoll_wait\<close> can also fail in another way than by an interrupt, which ends the loop.
\<close>

datatype phase = Starting | Set_up | Testing | Waiting | Ended

inductive life_step :: "sys_calls \<Rightarrow> phase \<times> lifecycle \<Rightarrow> phase \<times> lifecycle \<Rightarrow> bool" for sy where
  set_up_ok: "start_setup sy l = (True, l') \<Longrightarrow> life_step sy (Starting, l) (Set_up, l')"
| set_up_failed: "start_setup sy l = (False, l') \<Longrightarrow> life_step sy (Starting, l) (Ended, l')"
| run: "life_step sy (Set_up, l) (Testing, l\<lparr>lc_running := True\<rparr>)"
| wait_again: "lc_running l \<Longrightarrow> life_step sy (Testing, l) (Waiting, l)"
| leave: "\<not> lc_running l \<Longrightarrow> life_step sy (Testing, l) (Ended, shut_down l)"
| woken: "lc_pipe l > 0 \<Longrightarrow> life_step sy (Waiting, l) (Testing, l\<lparr>lc_pipe := 0\<rparr>)"
| event: "life_step sy (Waiting, l) (Testing, l)"
| wait_failed: "\<not> sy_wait sy \<Longrightarrow> life_step sy (Waiting, l) (Ended, shut_down l)"

inductive_simps life_step_simps [simp]:
  "life_step sy (Starting, l) x" "life_step sy (Set_up, l) x" "life_step sy (Testing, l) x"
  "life_step sy (Waiting, l) x" "life_step sy (Ended, l) x"

inductive life_reach :: "sys_calls \<Rightarrow> phase \<times> lifecycle \<Rightarrow> phase \<times> lifecycle \<Rightarrow> bool" for sy x where
  here: "life_reach sy x x"
| later: "life_reach sy x y \<Longrightarrow> life_step sy y z \<Longrightarrow> life_reach sy x z"

section \<open>Lemmas\<close>

text \<open>Descriptors the kernel hands out: -1 on failure, otherwise not open and all different.\<close>

definition fresh_calls :: "sys_calls \<Rightarrow> int set \<Rightarrow> bool" where
  "fresh_calls sy fds \<longleftrightarrow> (sy_socket sy = -1 \<or> 0 \<le> sy_socket sy) \<and> (sy_epoll sy = -1 \<or> 0 \<le> sy_epoll sy) \<and>
     (case sy_pair sy of None \<Rightarrow> True | Some (a, b) \<Rightarrow> 0 \<le> a \<and> 0 \<le> b \<and>
        distinct [sy_socket sy, sy_epoll sy, a, b] \<and> a \<notin> fds \<and> b \<notin> fds) \<and>
     sy_socket sy \<notin> fds \<and> sy_epoll sy \<notin> fds \<and> (0 \<le> sy_socket sy \<longrightarrow> sy_socket sy \<noteq> sy_epoll sy)"

lemmas lc_defs = open_fd_def close_fd_def Let_def

lemma start_setup_ok:
  "fst (start_setup sy l) \<longleftrightarrow> 0 \<le> sy_socket sy \<and> sy_bind sy \<and> sy_listen sy \<and> 0 \<le> sy_epoll sy \<and> sy_pair sy \<noteq> None"
  by (auto simp: start_setup_def lc_defs split: option.split)

lemma never_ends:
  assumes "life_reach sy x y" and "sy_wait sy" and "fst (start_setup sy l)"
    and "x = (Starting, l) \<or> (\<exists>l'. x = (Set_up, l')) \<or> (\<exists>l'. x = (Waiting, l') \<and> lc_running l')"
  shows "(\<exists>l'. y = (Starting, l') \<and> fst (start_setup sy l')) \<or> fst y = Set_up \<or>
    (fst y = Testing \<or> fst y = Waiting) \<and> lc_running (snd y)"
  using assms
proof (induction rule: life_reach.induct)
  case (later y z)
  obtain p k where y: "y = (p, k)" by (cases y)
  from later y show ?case by (cases p) auto
qed auto

section \<open>Properties\<close>

text \<open>
  C17: Whatever system call fails, starting leaks nothing: the descriptors opened so far are closed again
  and the members say so, so that the destructor closes nothing. After a start that succeeds, leaving the loop
  closes exactly the four descriptors it opened, and the destructor again has nothing to do.
\<close>

theorem start_leaks_nothing:
  assumes "fresh_calls sy fds" and "start_setup sy (lc_new fds) = (ok, l)"
  shows "(ok = (0 \<le> sy_socket sy \<and> sy_bind sy \<and> sy_listen sy \<and> 0 \<le> sy_epoll sy \<and> sy_pair sy \<noteq> None)) \<and>
    lc_open (if ok then shut_down l else l) = fds \<and>
    destroy (if ok then shut_down l else l) = (if ok then shut_down l else l) \<and>
    card (lc_open l - fds) = (if ok then 4 else 0)"
proof -
  have ok: "ok = (0 \<le> sy_socket sy \<and> sy_bind sy \<and> sy_listen sy \<and> 0 \<le> sy_epoll sy \<and> sy_pair sy \<noteq> None)"
    using start_setup_ok [of sy "lc_new fds"] assms(2) by simp
  show ?thesis
  proof (cases ok)
    case True
    then obtain a b where ab: "sy_pair sy = Some (a, b)" using ok by auto
    with assms(1) have fresh: "distinct [sy_socket sy, sy_epoll sy, a, b]" "0 \<le> a" "0 \<le> b"
      "a \<notin> fds" "b \<notin> fds" "sy_socket sy \<notin> fds" "sy_epoll sy \<notin> fds" by (simp_all add: fresh_calls_def)
    have l: "l = (lc_new ({a, b, sy_epoll sy, sy_socket sy} \<union> fds))\<lparr>lc_listen := sy_socket sy,
        lc_epoll := sy_epoll sy, lc_wake0 := a, lc_wake1 := b\<rparr>"
      using assms(2) True ok ab by (auto simp: start_setup_def lc_defs lc_new_def)
    have "lc_open l - fds = {a, b, sy_epoll sy, sy_socket sy}" using fresh by (auto simp: l lc_new_def)
    then have "card (lc_open l - fds) = 4" using fresh(1) by simp
    moreover have "lc_open (shut_down l) = fds" using fresh by (auto simp: l shut_down_def lc_defs lc_new_def)
    moreover have "destroy (shut_down l) = shut_down l" by (simp add: l shut_down_def destroy_def lc_defs lc_new_def)
    ultimately show ?thesis using True ok by simp
  next
    case False
    have "lc_open l = fds \<and> lc_listen l = -1 \<and> lc_epoll l = -1 \<and> lc_wake0 l = -1 \<and> lc_wake1 l = -1"
      using assms False ok
      by (auto simp: start_setup_def lc_defs lc_new_def fresh_calls_def split: if_splits option.splits)
    then have "lc_open l = fds" "destroy l = l" by (simp_all add: destroy_def Let_def)
    with False have "lc_open (if ok then shut_down l else l) = fds \<and>
        destroy (if ok then shut_down l else l) = (if ok then shut_down l else l) \<and>
        card (lc_open l - fds) = (if ok then 4 else 0)" by simp
    with ok show ?thesis by (rule conjI)
  qed
qed

lemma start_leaks_nothing_witness:
  "lc_open (shut_down (snd (start_setup \<lparr>sy_socket = 3, sy_bind = True, sy_listen = True, sy_epoll = 4, sy_pair = Some (5, 6), sy_wait = True\<rparr>
     (lc_new {0, 1, 2})))) = {0, 1, 2}"
proof -
  let ?sy = "\<lparr>sy_socket = 3, sy_bind = True, sy_listen = True, sy_epoll = 4, sy_pair = Some (5, 6), sy_wait = True\<rparr>"
  have 1: "fresh_calls ?sy {0, 1, 2}" by (simp add: fresh_calls_def)
  have 2: "start_setup ?sy (lc_new {0, 1, 2}) = (True, snd (start_setup ?sy (lc_new {0, 1, 2})))"
    using start_setup_ok [of ?sy "lc_new {0, 1, 2}"] by (simp add: prod_eq_iff)
  from start_leaks_nothing [OF 1 2] show ?thesis by simp
qed

text \<open>
  Stopping a running loop ends it: when the loop tests its flag or waits, and the wake pipe exists, then after
  \<^verbatim>\<open>stop\<close> the thread is never blocked, and whatever it does next it has returned after at most two steps.
\<close>

theorem stop_ends_loop:
  assumes "phase = Testing \<or> phase = Waiting" and "lc_wake1 l \<noteq> -1"
  shows "(\<exists>x. life_step sy (phase, stop l) x \<and> (phase = Waiting \<longrightarrow> x = (Testing, (stop l)\<lparr>lc_pipe := 0\<rparr>))) \<and>
    (\<forall>x. life_step sy (phase, stop l) x \<longrightarrow>
       fst x = Ended \<or> (\<exists>y. life_step sy x y) \<and> (\<forall>y. life_step sy x y \<longrightarrow> fst y = Ended))"
proof -
  have stopped: "\<not> lc_running (stop l)" "lc_pipe (stop l) > 0"
    using assms(2) by (simp_all add: stop_def Let_def)
  from assms(1) show ?thesis
  proof
    assume "phase = Testing"
    with stopped show ?thesis by auto
  next
    assume "phase = Waiting"
    with stopped show ?thesis by auto
  qed
qed

lemma stop_ends_loop_witness:
  "\<exists>x. life_step \<lparr>sy_socket = 3, sy_bind = True, sy_listen = True, sy_epoll = 4, sy_pair = Some (5, 6), sy_wait = True\<rparr>
     (Waiting, stop ((lc_new {})\<lparr>lc_wake0 := 5, lc_wake1 := 6, lc_running := True\<rparr>)) x"
proof -
  have "lc_wake1 ((lc_new {})\<lparr>lc_wake0 := 5, lc_wake1 := 6, lc_running := True\<rparr>) \<noteq> -1" by simp
  from stop_ends_loop [OF disjI2 [OF refl] this] show ?thesis by blast
qed

text \<open>
  A stop that comes before the loop runs is lost: \<^verbatim>\<open>start\<close> sets the flag after \<^verbatim>\<open>stop\<close> has cleared it, the byte in
  the wake pipe, if there is one, is discarded, and as long as \<^verbatim>\<open>epoll_wait\<close> does not fail the thread never ends.
\<close>

theorem stop_before_running_is_lost:
  assumes "start_setup sy (lc_new fds) = (True, l)" and "sy_wait sy"
  shows "(\<forall>x. life_reach sy (Starting, stop (lc_new fds)) x \<longrightarrow> fst x \<noteq> Ended) \<and>
    (\<forall>x. life_reach sy (Set_up, stop l) x \<longrightarrow> fst x \<noteq> Ended) \<and>
    life_reach sy (Starting, stop (lc_new fds)) (Waiting, l\<lparr>lc_running := True\<rparr>) \<and>
    life_reach sy (Set_up, stop l) (Waiting, (stop l)\<lparr>lc_running := True, lc_pipe := 0\<rparr>) \<and>
    lc_pipe l = 0"
proof -
  have same: "stop (lc_new fds) = lc_new fds" by (simp add: stop_def lc_new_def)
  have pipe: "lc_pipe l = 0"
    using assms(1) by (auto simp: start_setup_def lc_defs lc_new_def split: if_splits option.splits)
  have fst: "fst (start_setup sy (lc_new fds))" using assms(1) by simp
  have 1: "fst x \<noteq> Ended" if "life_reach sy (Starting, stop (lc_new fds)) x" for x
    using never_ends [OF that [unfolded same] assms(2) fst] by auto
  have 2: "fst x \<noteq> Ended" if "life_reach sy (Set_up, stop l) x" for x
    using never_ends [OF that assms(2) fst] by auto
  have 3: "life_reach sy (Starting, stop (lc_new fds)) (Waiting, l\<lparr>lc_running := True\<rparr>)"
    unfolding same
    by (rule life_reach.later, rule life_reach.later, rule life_reach.later, rule life_reach.here)
      (use assms in \<open>auto intro: life_step.intros\<close>)
  have 4: "life_reach sy (Set_up, stop l) (Waiting, (stop l)\<lparr>lc_running := True, lc_pipe := 0\<rparr>)"
  proof -
    let ?l = "(stop l)\<lparr>lc_running := True\<rparr>"
    have w: "life_reach sy (Set_up, stop l) (Waiting, ?l)"
      by (rule life_reach.later, rule life_reach.later, rule life_reach.here) (auto intro: life_step.intros)
    show ?thesis
    proof (cases "lc_pipe ?l > 0")
      case True
      from life_reach.later [OF life_reach.later [OF w life_step.woken [OF True]] life_step.wait_again] show ?thesis by simp
    next
      case False
      then have "?l = (stop l)\<lparr>lc_running := True, lc_pipe := 0\<rparr>" by simp
      with w show ?thesis by metis
    qed
  qed
  from 1 2 3 4 pipe show ?thesis by blast
qed

lemma stop_before_running_is_lost_witness:
  "\<exists>l. life_reach \<lparr>sy_socket = 3, sy_bind = True, sy_listen = True, sy_epoll = 4, sy_pair = Some (5, 6), sy_wait = True\<rparr>
     (Set_up, stop l) (Waiting, (stop l)\<lparr>lc_running := True, lc_pipe := 0\<rparr>)"
proof -
  let ?sy = "\<lparr>sy_socket = 3, sy_bind = True, sy_listen = True, sy_epoll = 4, sy_pair = Some (5, 6), sy_wait = True\<rparr>"
  have "start_setup ?sy (lc_new {}) = (True, snd (start_setup ?sy (lc_new {})))"
    using start_setup_ok [of ?sy "lc_new {}"] by (simp add: prod_eq_iff)
  moreover have "sy_wait ?sy" by simp
  ultimately show ?thesis using stop_before_running_is_lost by blast
qed

end
