(* ===== verification/Program.thy ===== *)
theory Program
  imports Lifecycle
begin

text \<open>
  The main thread, the thread of the admin server and the signal handler (\<^verbatim>\<open>src/src/main.cpp\<close>, from the installation of the
  handler to the return of \<^verbatim>\<open>main\<close>). Each of the two servers is its lifecycle; a signal can arrive between any two
  steps of the threads. What the servers do with events is in the theories of their handlers.
\<close>

section \<open>State\<close>

text \<open>
  Where \<^verbatim>\<open>main\<close> is: handler installed; \<^verbatim>\<open>g_admin\<close> set; thread created; in \<^verbatim>\<open>server.start\<close>, with \<^verbatim>\<open>g_server\<close> set;
  returned from it, with \<^verbatim>\<open>g_server\<close> cleared; in \<^verbatim>\<open>join\<close>; past the \<^verbatim>\<open>try\<close> block or in the \<^verbatim>\<open>catch\<close>, where its
  objects are destroyed; left with an exit code.
\<close>

datatype main_pc = Installed | Named | Spawned | Serving | Returned | Joining | Unscoped | Caught | Exited nat

record program =
  pg_main :: main_pc
  pg_server :: "phase \<times> lifecycle"
  pg_admin :: "phase \<times> lifecycle"
  g_server :: bool
  g_admin :: bool

definition program_new :: program where
  "program_new = \<lparr>pg_main = Installed, pg_server = (Starting, lc_new {}), pg_admin = (Starting, lc_new {}),
     g_server = False, g_admin = False\<rparr>"

text \<open>Where the objects of the \<^verbatim>\<open>try\<close> block exist, and where the admin thread does.\<close>

definition in_scope :: "main_pc \<Rightarrow> bool" where
  "in_scope m \<longleftrightarrow> m \<in> {Installed, Named, Spawned, Serving, Returned, Joining}"

definition thread_alive :: "main_pc \<Rightarrow> bool" where
  "thread_alive m \<longleftrightarrow> m \<in> {Spawned, Serving, Returned, Joining}"

text \<open>The handler. \<open>None\<close>: it calls a member of an object that has been destroyed.\<close>

definition handle_signal :: "program \<Rightarrow> program option" where
  "handle_signal p =
     (if (g_server p \<or> g_admin p) \<and> \<not> in_scope (pg_main p) then None
      else let p = (if g_server p then p\<lparr>pg_server := apsnd stop (pg_server p)\<rparr> else p)
        in Some (if g_admin p then p\<lparr>pg_admin := apsnd admin_stop (pg_admin p)\<rparr> else p))"

section \<open>Steps of the threads\<close>

text \<open>
  The destructors run when \<^verbatim>\<open>main\<close> leaves the \<^verbatim>\<open>try\<close> block; a failure to create the thread goes to the \<^verbatim>\<open>catch\<close>.
\<close>

inductive program_step :: "sys_calls \<Rightarrow> sys_calls \<Rightarrow> program \<Rightarrow> program \<Rightarrow> bool" for sy ay where
  name_admin: "pg_main p = Installed \<Longrightarrow> program_step sy ay p (p\<lparr>pg_main := Named, g_admin := True\<rparr>)"
| spawn: "pg_main p = Named \<Longrightarrow> program_step sy ay p (p\<lparr>pg_main := Spawned\<rparr>)"
| spawn_failed: "pg_main p = Named \<Longrightarrow> program_step sy ay p (p\<lparr>pg_main := Caught\<rparr>)"
| name_server: "pg_main p = Spawned \<Longrightarrow> program_step sy ay p (p\<lparr>pg_main := Serving, g_server := True\<rparr>)"
| serve: "pg_main p = Serving \<Longrightarrow> life_step sy (pg_server p) x \<Longrightarrow> program_step sy ay p (p\<lparr>pg_server := x\<rparr>)"
| returned: "pg_main p = Serving \<Longrightarrow> fst (pg_server p) = Ended \<Longrightarrow>
    program_step sy ay p (p\<lparr>pg_main := Returned, g_server := False\<rparr>)"
| stop_admin: "pg_main p = Returned \<Longrightarrow>
    program_step sy ay p (p\<lparr>pg_main := Joining, pg_admin := apsnd admin_stop (pg_admin p)\<rparr>)"
| join: "pg_main p = Joining \<Longrightarrow> fst (pg_admin p) = Ended \<Longrightarrow>
    program_step sy ay p (p\<lparr>pg_main := Unscoped, pg_admin := apsnd admin_destroy (pg_admin p),
      pg_server := apsnd destroy (pg_server p)\<rparr>)"
| leave: "pg_main p = Unscoped \<Longrightarrow> program_step sy ay p (p\<lparr>pg_main := Exited 0, g_admin := False\<rparr>)"
| leave_caught: "pg_main p = Caught \<Longrightarrow> program_step sy ay p (p\<lparr>pg_main := Exited 1\<rparr>)"
| admin: "thread_alive (pg_main p) \<Longrightarrow> life_step ay (pg_admin p) x \<Longrightarrow> program_step sy ay p (p\<lparr>pg_admin := x\<rparr>)"

text \<open>A run with the number of its thread steps; signals are not counted.\<close>

inductive program_run :: "sys_calls \<Rightarrow> sys_calls \<Rightarrow> program \<Rightarrow> nat \<Rightarrow> program \<Rightarrow> bool" for sy ay p where
  here: "program_run sy ay p 0 p"
| step: "program_run sy ay p n q \<Longrightarrow> program_step sy ay q r \<Longrightarrow> program_run sy ay p (Suc n) r"
| signal: "program_run sy ay p n q \<Longrightarrow> handle_signal q = Some r \<Longrightarrow> program_run sy ay p n r"


section \<open>The lifecycle invariant\<close>

text \<open>Outside the loop nothing is open and the members say so; in it exactly the four descriptors of the members are.\<close>

fun life_ok :: "phase \<times> lifecycle \<Rightarrow> bool" where
  "life_ok (Starting, l) \<longleftrightarrow> l = lc_new {}"
| "life_ok (Ended, l) \<longleftrightarrow> lc_open l = {} \<and> lc_listen l = -1 \<and> lc_epoll l = -1 \<and> lc_wake0 l = -1 \<and> lc_wake1 l = -1"
| "life_ok (_, l) \<longleftrightarrow> lc_open l = {lc_listen l, lc_epoll l, lc_wake0 l, lc_wake1 l} \<and> lc_wake1 l \<noteq> -1"

lemma life_ok_running: "ph \<noteq> Starting \<Longrightarrow> ph \<noteq> Ended \<Longrightarrow>
    life_ok (ph, l) \<longleftrightarrow> lc_open l = {lc_listen l, lc_epoll l, lc_wake0 l, lc_wake1 l} \<and> lc_wake1 l \<noteq> -1"
  by (cases ph) simp_all

lemma life_ok_set_up:
  assumes "fresh_calls sy {}" and "start_setup sy (lc_new {}) = (ok, l)"
  shows "life_ok (if ok then Set_up else Ended, l)"
proof -
  have "if ok then lc_open l = {lc_listen l, lc_epoll l, lc_wake0 l, lc_wake1 l} \<and> lc_wake1 l \<noteq> -1
    else lc_open l = {} \<and> lc_listen l = -1 \<and> lc_epoll l = -1 \<and> lc_wake0 l = -1 \<and> lc_wake1 l = -1"
    using assms by (auto simp: start_setup_def lc_defs lc_new_def fresh_calls_def split: if_splits option.splits)
  then show ?thesis by simp
qed

lemma life_ok_shut_down: "lc_open l = {lc_listen l, lc_epoll l, lc_wake0 l, lc_wake1 l} \<Longrightarrow> life_ok (Ended, shut_down l)"
  by (auto simp: shut_down_def lc_defs)

lemma life_ok_step:
  assumes "life_step sy x y" and "fresh_calls sy {}" and "life_ok x"
  shows "life_ok y"
  using assms(1,3)
proof cases
  case (set_up_ok l l')
  with life_ok_set_up [OF assms(2), of True] assms(3) show ?thesis by simp
next
  case (set_up_failed l l')
  with life_ok_set_up [OF assms(2), of False] assms(3) show ?thesis by simp
qed (auto simp del: life_ok.simps(2) simp: life_ok_shut_down)

lemma life_ok_stop [simp]: "life_ok x \<Longrightarrow> life_ok (apsnd stop x)"
  by (cases x rule: life_ok.cases) (auto simp: stop_def lc_new_def)

lemma life_ok_destroy [simp]: "life_ok x \<Longrightarrow> fst x = Ended \<Longrightarrow> apsnd destroy x = x"
  by (cases x) (auto simp: destroy_def)

lemma life_step_ended: "life_step sy x y \<Longrightarrow> fst x \<noteq> Ended"
  by (auto elim: life_step.cases)

section \<open>The program invariant\<close>

definition program_inv :: "program \<Rightarrow> bool" where
  "program_inv p \<longleftrightarrow> life_ok (pg_server p) \<and> life_ok (pg_admin p) \<and>
     g_server p = (pg_main p = Serving) \<and> g_admin p = (pg_main p \<notin> {Installed, Exited 0}) \<and>
     (pg_main p \<in> {Returned, Joining, Unscoped, Exited 0} \<longrightarrow> fst (pg_server p) = Ended) \<and>
     (pg_main p \<in> {Unscoped, Exited 0} \<longrightarrow> fst (pg_admin p) = Ended)"

lemma program_inv_new: "program_inv program_new"
  by (simp add: program_inv_def program_new_def)

lemma program_inv_step [keeps_inv]:
  assumes "program_step sy ay p q" and "fresh_calls sy {}" and "fresh_calls ay {}" and "program_inv p"
  shows "program_inv q"
  using assms(1,4)
proof cases
  case (serve x)
  with assms(4) life_ok_step [OF serve(3) assms(2)] show ?thesis by (simp add: program_inv_def)
next
  case (admin x)
  with assms(4) life_ok_step [OF admin(3) assms(3)] life_step_ended [OF admin(3)] show ?thesis
    by (auto simp: program_inv_def)
qed (auto simp: program_inv_def admin_stop_def admin_destroy_def)

lemma program_inv_signal [keeps_inv]: "handle_signal p = Some q \<Longrightarrow> program_inv p \<Longrightarrow> program_inv q"
  by (auto simp: program_inv_def handle_signal_def admin_stop_def Let_def split: if_splits)

lemma program_inv_run:
  "program_run sy ay p n q \<Longrightarrow> fresh_calls sy {} \<Longrightarrow> fresh_calls ay {} \<Longrightarrow> program_inv p \<Longrightarrow> program_inv q"
  by (induction rule: program_run.induct) (auto intro: keeps_inv)


section \<open>Coming to an end\<close>

text \<open>A loop on its way out, the steps it has left, and a thread that only an event from outside can move.\<close>

fun halting :: "phase \<times> lifecycle \<Rightarrow> bool" where
  "halting (ph, l) \<longleftrightarrow> ph = Ended \<or> ph = Testing \<and> \<not> lc_running l \<or> ph = Waiting \<and> \<not> lc_running l \<and> 0 < lc_pipe l"

fun loop_left :: "phase \<Rightarrow> nat" where
  "loop_left Waiting = 2"
| "loop_left Testing = 1"
| "loop_left _ = 0"

fun main_left :: "main_pc \<Rightarrow> nat" where
  "main_left Serving = 4"
| "main_left Returned = 3"
| "main_left Joining = 2"
| "main_left Unscoped = 1"
| "main_left _ = 0"

definition steps_left :: "program \<Rightarrow> nat" where
  "steps_left p = main_left (pg_main p) + loop_left (fst (pg_server p)) + loop_left (fst (pg_admin p))"

fun blocked :: "phase \<times> lifecycle \<Rightarrow> bool" where
  "blocked (ph, l) \<longleftrightarrow> ph = Waiting \<and> lc_pipe l = 0"

definition closing :: "program \<Rightarrow> bool" where
  "closing p \<longleftrightarrow> program_inv p \<and> pg_main p \<in> {Serving, Returned, Joining, Unscoped, Exited 0} \<and>
     halting (pg_server p) \<and> halting (pg_admin p)"

lemma halting_step: "life_step sy x y \<Longrightarrow> halting x \<Longrightarrow> halting y \<and> loop_left (fst y) < loop_left (fst x)"
  by (auto elim: life_step.cases)

lemma halting_stop:
  "life_ok x \<Longrightarrow> fst x = Testing \<or> fst x = Waiting \<or> halting x \<Longrightarrow> halting (apsnd stop x) \<and> fst (apsnd stop x) = fst x"
  by (cases x rule: life_ok.cases) (auto simp: stop_def)

lemma halting_moves: "halting x \<Longrightarrow> fst x \<noteq> Ended \<Longrightarrow> \<not> blocked x \<and> (\<exists>y. life_step sy x y)"
  by (cases x) (auto intro: life_step.event life_step.leave)

lemma closing_step:
  assumes "program_step sy ay p q" and "fresh_calls sy {}" and "fresh_calls ay {}" and "closing p"
  shows "closing q \<and> steps_left q < steps_left p"
proof -
  have "program_inv q" using program_inv_step assms by (simp add: closing_def)
  moreover from assms(1,4) have "pg_main q \<in> {Serving, Returned, Joining, Unscoped, Exited 0} \<and>
    halting (pg_server q) \<and> halting (pg_admin q) \<and> steps_left q < steps_left p"
  proof cases
    case stop_admin
    with assms(4) halting_stop [of "pg_admin p"] show ?thesis
      by (simp add: closing_def program_inv_def steps_left_def admin_stop_def)
  next
    case (serve x)
    with assms(4) halting_step [OF serve(3)] show ?thesis by (simp add: closing_def steps_left_def)
  next
    case (admin x)
    with assms(4) halting_step [OF admin(3)] show ?thesis by (simp add: closing_def steps_left_def)
  qed (auto simp: closing_def program_inv_def steps_left_def admin_destroy_def)
  ultimately show ?thesis by (simp add: closing_def)
qed

lemma handle_signal_stops:
  "handle_signal p = Some q \<Longrightarrow> pg_main q = pg_main p \<and>
     (pg_server q = pg_server p \<or> pg_server q = apsnd stop (pg_server p)) \<and>
     (pg_admin q = pg_admin p \<or> pg_admin q = apsnd stop (pg_admin p))"
  by (auto simp: handle_signal_def admin_stop_def Let_def split: if_splits)

lemma closing_signal:
  assumes "handle_signal p = Some q" and "closing p"
  shows "closing q \<and> steps_left q = steps_left p"
proof -
  have inv: "program_inv q" using program_inv_signal assms by (simp add: closing_def)
  have "halting (apsnd stop (pg_server p)) \<and> fst (apsnd stop (pg_server p)) = fst (pg_server p)"
    "halting (apsnd stop (pg_admin p)) \<and> fst (apsnd stop (pg_admin p)) = fst (pg_admin p)"
    using assms(2) halting_stop by (simp_all add: closing_def program_inv_def)
  with handle_signal_stops [OF assms(1)] assms(2) inv show ?thesis
    unfolding closing_def steps_left_def by metis
qed

lemma closing_run:
  "program_run sy ay p n q \<Longrightarrow> fresh_calls sy {} \<Longrightarrow> fresh_calls ay {} \<Longrightarrow> closing p \<Longrightarrow>
     closing q \<and> n + steps_left q \<le> steps_left p"
proof (induction rule: program_run.induct)
  case (step n q r)
  with closing_step [OF step.hyps(2)] show ?case by simp
next
  case (signal n q r)
  with closing_signal [OF signal.hyps(2)] show ?case by simp
qed simp

text \<open>Exited in order with nothing open, or about to do a step that needs nothing from outside.\<close>

definition ended_or_moving :: "sys_calls \<Rightarrow> sys_calls \<Rightarrow> program \<Rightarrow> bool" where
  "ended_or_moving sy ay p \<longleftrightarrow>
     pg_main p = Exited 0 \<and> lc_open (snd (pg_server p)) = {} \<and> lc_open (snd (pg_admin p)) = {} \<or>
     \<not> blocked (pg_server p) \<and> \<not> blocked (pg_admin p) \<and> (\<exists>q. program_step sy ay p q)"

lemma closing_moves:
  assumes "closing p"
  shows "ended_or_moving sy ay p"
proof (cases "pg_main p = Exited 0")
  case True
  with assms show ?thesis
    by (cases "pg_server p"; cases "pg_admin p") (simp add: closing_def program_inv_def ended_or_moving_def)
next
  case False
  have nb: "\<not> blocked (pg_server p)" "\<not> blocked (pg_admin p)"
    using assms halting_moves [of "pg_server p"] halting_moves [of "pg_admin p"]
    by (cases "pg_server p"; cases "pg_admin p"; auto simp: closing_def)+
  have "\<exists>q. program_step sy ay p q"
  proof (cases "pg_main p")
    case Serving
    with assms halting_moves [of "pg_server p" sy] show ?thesis
      by (cases "fst (pg_server p) = Ended") (auto simp: closing_def intro: program_step.intros)
  next
    case Joining
    show ?thesis
    proof (cases "fst (pg_admin p) = Ended")
      case False
      with assms halting_moves [of "pg_admin p" ay] obtain x where x: "life_step ay (pg_admin p) x"
        by (auto simp: closing_def)
      have "thread_alive (pg_main p)" by (simp add: thread_alive_def Joining)
      from program_step.admin [OF this x] show ?thesis by blast
    qed (use program_step.join Joining in blast)
  qed (use assms False in \<open>auto simp: closing_def intro: program_step.intros\<close>)
  with nb show ?thesis by (simp add: ended_or_moving_def)
qed

lemma closing_ends:
  assumes "closing q" and "fresh_calls sy {}" and "fresh_calls ay {}" and "program_run sy ay q k r"
  shows "k \<le> steps_left q \<and> ended_or_moving sy ay r"
  using closing_run [OF assms(4,2,3,1)] closing_moves by auto


section \<open>A start that fails\<close>

text \<open>Joining a thread whose loop runs: without a signal nothing changes that.\<close>

definition hung :: "program \<Rightarrow> bool" where
  "hung p \<longleftrightarrow> pg_main p = Joining \<and> fst (pg_admin p) \<in> {Testing, Waiting} \<and> lc_running (snd (pg_admin p))"

lemma hung_step:
  assumes "program_step sy ay p q" and "sy_wait ay" and "hung p"
  shows "hung q"
  using assms
proof cases
  case (admin x)
  with assms(2,3) show ?thesis by (cases "pg_admin p") (auto simp: hung_def)
qed (auto simp: hung_def)

lemma hung_for_ever:
  "rtranclp (program_step sy ay) p q \<Longrightarrow> sy_wait ay \<Longrightarrow> hung p \<Longrightarrow> hung q"
  by (induction rule: rtranclp_induct) (auto intro: hung_step)

lemmas program_next = rtranclp.rtrancl_into_rtrancl [of "program_step sy ay" for sy ay]
lemmas program_mk = program.defs thread_alive_def

text \<open>The main thread gets as far as \<^verbatim>\<open>server.start\<close> before the admin thread moves.\<close>

lemma serving_run:
  "rtranclp (program_step sy ay) program_new (program.make Serving (Starting, lc_new {}) (Starting, lc_new {}) True True)"
proof -
  let ?S = "(Starting, lc_new {})" and ?ok = "rtranclp (program_step sy ay) program_new"
  have "?ok (program.make Installed ?S ?S False False)" by (simp add: program_new_def program_mk)
  from program_next [OF this, OF program_step.name_admin]
  have "?ok (program.make Named ?S ?S False True)" by (simp add: program_mk)
  from program_next [OF this, OF program_step.spawn]
  have "?ok (program.make Spawned ?S ?S False True)" by (simp add: program_mk)
  from program_next [OF this, OF program_step.name_server] show ?thesis by (simp add: program_mk)
qed

lemma admin_starts:
  assumes "start_setup ay (lc_new {}) = (True, l)" and "thread_alive (pg_main p)"
    and "rtranclp (program_step sy ay) p0 (p\<lparr>pg_admin := (Starting, lc_new {})\<rparr>)"
  shows "rtranclp (program_step sy ay) p0 (p\<lparr>pg_admin := (Waiting, l\<lparr>lc_running := True\<rparr>)\<rparr>)"
proof -
  from program_next [OF assms(3), OF program_step.admin [of _ _ "(Set_up, l)"]] assms(1,2)
  have "rtranclp (program_step sy ay) p0 (p\<lparr>pg_admin := (Set_up, l)\<rparr>)" by simp
  from program_next [OF this, OF program_step.admin [of _ _ "(Testing, l\<lparr>lc_running := True\<rparr>)"]] assms(2)
  have "rtranclp (program_step sy ay) p0 (p\<lparr>pg_admin := (Testing, l\<lparr>lc_running := True\<rparr>)\<rparr>)" by simp
  from program_next [OF this, OF program_step.admin [of _ _ "(Waiting, l\<lparr>lc_running := True\<rparr>)"]] assms(2)
  show ?thesis by simp
qed

lemma failed_start_run:
  assumes "start_setup sy (lc_new {}) = (False, l0)" and "start_setup ay (lc_new {}) = (True, l)"
  shows "rtranclp (program_step sy ay) program_new
    (program.make Joining (Ended, l0) (Waiting, l\<lparr>lc_running := True\<rparr>) False True)"
proof -
  let ?S = "(Starting, lc_new {})" and ?E = "(Ended, l0)"
  let ?ok = "rtranclp (program_step sy ay) program_new"
  have stop: "admin_stop (lc_new {}) = lc_new {}" by (simp add: admin_stop_def stop_def lc_new_def)
  from program_next [OF serving_run, OF program_step.serve [of _ _ ?E]] assms(1)
  have "?ok (program.make Serving ?E ?S True True)" by (simp add: program_mk)
  from program_next [OF this, OF program_step.returned]
  have "?ok (program.make Returned ?E ?S False True)" by (simp add: program_mk)
  from program_next [OF this, OF program_step.stop_admin]
  have "?ok (program.make Joining ?E ?S False True)" by (simp add: program_mk stop)
  with admin_starts [OF assms(2), of "program.make Joining ?E ?S False True" sy program_new]
  show ?thesis by (simp add: program_mk)
qed

lemma running_run:
  assumes "start_setup sy (lc_new {}) = (True, l0)" and "start_setup ay (lc_new {}) = (True, l)"
  shows "rtranclp (program_step sy ay) program_new
    (program.make Serving (Waiting, l0\<lparr>lc_running := True\<rparr>) (Waiting, l\<lparr>lc_running := True\<rparr>) True True)"
proof -
  let ?S = "(Starting, lc_new {})"
  let ?ok = "rtranclp (program_step sy ay) program_new"
  from program_next [OF serving_run, OF program_step.serve [of _ _ "(Set_up, l0)"]] assms(1)
  have "?ok (program.make Serving (Set_up, l0) ?S True True)" by (simp add: program_mk)
  from program_next [OF this, OF program_step.serve [of _ _ "(Testing, l0\<lparr>lc_running := True\<rparr>)"]]
  have "?ok (program.make Serving (Testing, l0\<lparr>lc_running := True\<rparr>) ?S True True)" by (simp add: program_mk)
  from program_next [OF this, OF program_step.serve [of _ _ "(Waiting, l0\<lparr>lc_running := True\<rparr>)"]]
  have "?ok (program.make Serving (Waiting, l0\<lparr>lc_running := True\<rparr>) ?S True True)" by (simp add: program_mk)
  with admin_starts [OF assms(2), of "program.make Serving (Waiting, l0\<lparr>lc_running := True\<rparr>) ?S True True" sy program_new]
  show ?thesis by (simp add: program_mk)
qed

lemma run_silent: "rtranclp (program_step sy ay) p q \<Longrightarrow> \<exists>n. program_run sy ay p n q"
  by (induction rule: rtranclp_induct) (auto intro: program_run.intros)

section \<open>Properties\<close>



text \<open>
  C28: The handler never calls a server that has been destroyed, except that \<^verbatim>\<open>main\<close> keeps \<^verbatim>\<open>g_admin\<close> set when it
  leaves the \<^verbatim>\<open>try\<close> block: between the destruction of the admin server and the return, a signal uses the
  destroyed object. When the thread cannot be created that state is reached after two steps.
\<close>

theorem signal_handler_scope:
  assumes "program_run sy ay program_new n p" and "\<forall>code. pg_main p \<noteq> Exited code"
  shows "(handle_signal p = None) = (pg_main p \<in> {Unscoped, Caught}) \<and>
    (g_server p \<longrightarrow> in_scope (pg_main p)) \<and>
    (\<exists>q. program_run sy ay program_new 2 q \<and> handle_signal q = None)"
proof -
  have "g_server p = (pg_main p = Serving) \<and> g_admin p = (pg_main p \<notin> {Installed, Exited 0})"
    using assms(1)
  proof (induction rule: program_run.induct)
    case (step n q r)
    from step.hyps(2) step.IH show ?case by cases auto
  next
    case (signal n q r)
    then show ?case by (auto simp: handle_signal_def Let_def split: if_splits)
  qed (simp add: program_new_def)
  moreover from this assms(2) have "(handle_signal p = None) = (pg_main p \<in> {Unscoped, Caught})"
    by (cases "pg_main p") (auto simp: handle_signal_def in_scope_def Let_def)
  moreover have "\<exists>q. program_run sy ay program_new 2 q \<and> handle_signal q = None"
  proof -
    let ?q = "program_new\<lparr>pg_main := Named, g_admin := True\<rparr>"
    have "program_run sy ay program_new (Suc 0) ?q"
      by (rule program_run.step [OF program_run.here], rule program_step.name_admin) (simp add: program_new_def)
    then have "program_run sy ay program_new (Suc (Suc 0)) (?q\<lparr>pg_main := Caught\<rparr>)"
      by (rule program_run.step, intro program_step.spawn_failed) simp
    moreover have "handle_signal (?q\<lparr>pg_main := Caught\<rparr>) = None"
      by (simp add: handle_signal_def in_scope_def)
    ultimately show ?thesis by (auto simp: numeral_2_eq_2)
  qed
  ultimately show ?thesis by (simp add: in_scope_def)
qed


lemma signal_handler_scope_witness: "handle_signal program_new \<noteq> None"
proof -
  have "\<forall>code. pg_main program_new \<noteq> Exited code" by (simp add: program_new_def)
  from signal_handler_scope [OF program_run.here this] show ?thesis by (simp add: program_new_def)
qed

text \<open>
  C34: When the server cannot start, because its port is taken, say, the program can hang: \<^verbatim>\<open>main\<close> stops the admin
  server before its thread has set its flag, the stop is lost, and \<^verbatim>\<open>join\<close> waits for a thread that serves for ever.
  A signal then ends it within four steps, and the exit code is 0 although the server never ran.
\<close>

theorem failed_start_can_hang:
  assumes "fresh_calls sy {}" and "fresh_calls ay {}" and "sy_wait ay"
    and "start_setup sy (lc_new {}) = (False, l0)" and "start_setup ay (lc_new {}) = (True, l)"
  shows "\<exists>p q. rtranclp (program_step sy ay) program_new p \<and>
    (\<forall>r. rtranclp (program_step sy ay) p r \<longrightarrow> pg_main r = Joining) \<and>
    handle_signal p = Some q \<and>
    (\<forall>k r. program_run sy ay q k r \<longrightarrow> k \<le> 4 \<and>
       (pg_main r = Exited 0 \<and> lc_open (snd (pg_server r)) = {} \<and> lc_open (snd (pg_admin r)) = {} \<or>
        \<not> blocked (pg_server r) \<and> \<not> blocked (pg_admin r) \<and> (\<exists>s. program_step sy ay r s)))"
proof -
  let ?p = "program.make Joining (Ended, l0) (Waiting, l\<lparr>lc_running := True\<rparr>) False True"
  let ?q = "?p\<lparr>pg_admin := apsnd stop (pg_admin ?p)\<rparr>"
  note run = failed_start_run [OF assms(4,5)]
  obtain n where "program_run sy ay program_new n ?p" using run_silent [OF run] by blast
  note inv = program_inv_run [OF this assms(1,2) program_inv_new]
  have q: "handle_signal ?p = Some ?q" by (simp add: handle_signal_def in_scope_def admin_stop_def program.defs)
  from inv halting_stop [of "pg_admin ?p"] program_inv_signal [OF q inv] have "closing ?q"
    by (simp add: closing_def program_inv_def program.defs)
  then have "k \<le> steps_left ?q \<and> ended_or_moving sy ay r" if "program_run sy ay ?q k r" for k r
    using closing_ends [OF _ assms(1,2) that] by blast
  moreover have "steps_left ?q = 4" by (simp add: steps_left_def program.defs)
  ultimately have ends: "k \<le> 4 \<and> ended_or_moving sy ay r" if "program_run sy ay ?q k r" for k r
    using that by fastforce
  have "hung ?p" by (simp add: hung_def program.defs)
  then have "pg_main r = Joining" if "rtranclp (program_step sy ay) ?p r" for r
    using hung_for_ever [OF that assms(3)] by (simp add: hung_def)
  with run q ends show ?thesis unfolding ended_or_moving_def by blast
qed

lemma failed_start_can_hang_witness:
  "\<exists>p. rtranclp (program_step \<lparr>sy_socket = 3, sy_bind = False, sy_listen = True, sy_epoll = 4, sy_pair = None, sy_wait = True\<rparr>
      \<lparr>sy_socket = 7, sy_bind = True, sy_listen = True, sy_epoll = 8, sy_pair = Some (9, 10), sy_wait = True\<rparr>) program_new p \<and>
    pg_main p = Joining"
proof -
  let ?sy = "\<lparr>sy_socket = 3, sy_bind = False, sy_listen = True, sy_epoll = 4, sy_pair = None, sy_wait = True\<rparr>"
  let ?ay = "\<lparr>sy_socket = 7, sy_bind = True, sy_listen = True, sy_epoll = 8, sy_pair = Some (9, 10), sy_wait = True\<rparr>"
  have fresh: "fresh_calls ?sy {}" "fresh_calls ?ay {}" "sy_wait ?ay" by (simp_all add: fresh_calls_def)
  have "start_setup ?sy (lc_new {}) = (False, snd (start_setup ?sy (lc_new {})))"
    "start_setup ?ay (lc_new {}) = (True, snd (start_setup ?ay (lc_new {})))"
    using start_setup_ok [of ?sy "lc_new {}"] start_setup_ok [of ?ay "lc_new {}"] by (simp_all add: prod_eq_iff)
  from failed_start_can_hang [OF fresh this] show ?thesis by blast
qed

end
