(* ===== verification/EpollCompat.thy ===== *)
theory EpollCompat
  imports Server
begin

text \<open>
  The stand-in for \<^verbatim>\<open>epoll\<close> on systems without it (\<^verbatim>\<open>src/src/epoll_compat.h\<close>): tables of watched descriptors under made-up
  instance numbers, and a wait that asks \<^verbatim>\<open>poll\<close>. \<^verbatim>\<open>poll\<close> is a parameter; what is needed of it is the named
  hypothesis \<open>poll_documented\<close>. The locale \<open>interest_table\<close> is the contract of \<^verbatim>\<open>epoll_ctl\<close>; the stand-in and the kernel's
  own \<^verbatim>\<open>epoll\<close>, as the model of the server has it, both keep it, so that the server cannot tell them apart.
\<close>

section \<open>The contract of epoll\_ctl\<close>

datatype epoll_op = Ctl_add int flags | Ctl_mod int flags | Ctl_del int

fun apply_op :: "epoll_op \<Rightarrow> (int \<rightharpoonup> flags) \<Rightarrow> (int \<rightharpoonup> flags)" where
  "apply_op (Ctl_add fd ev) m = m(fd \<mapsto> ev)"
| "apply_op (Ctl_mod fd ev) m = m(fd \<mapsto> ev)"
| "apply_op (Ctl_del fd) m = m(fd := None)"

text \<open>Only a new descriptor is added, only a watched one changed or deleted.\<close>

fun legal :: "epoll_op \<Rightarrow> (int \<rightharpoonup> flags) \<Rightarrow> bool" where
  "legal (Ctl_add fd ev) m \<longleftrightarrow> m fd = None"
| "legal (Ctl_mod fd ev) m \<longleftrightarrow> m fd \<noteq> None"
| "legal (Ctl_del fd) m \<longleftrightarrow> m fd \<noteq> None"

fun legal_run :: "epoll_op list \<Rightarrow> (int \<rightharpoonup> flags) \<Rightarrow> bool" where
  "legal_run [] m \<longleftrightarrow> True"
| "legal_run (a # ops) m \<longleftrightarrow> legal a m \<and> legal_run ops (apply_op a m)"

locale interest_table =
  fixes exec :: "epoll_op \<Rightarrow> 's \<Rightarrow> 's" and watched :: "'s \<Rightarrow> (int \<rightharpoonup> flags)" and good :: "'s \<Rightarrow> bool"
  assumes exec_law: "good s \<Longrightarrow> legal a (watched s) \<Longrightarrow>
    good (exec a s) \<and> watched (exec a s) = apply_op a (watched s)"
begin

lemma run_law:
  "good s \<Longrightarrow> legal_run ops (watched s) \<Longrightarrow>
     good (fold exec ops s) \<and> watched (fold exec ops s) = fold apply_op ops (watched s)"
  by (induction ops arbitrary: s) (simp_all add: exec_law)

end

section \<open>The kernel's epoll\<close>

fun kernel_exec :: "epoll_op \<Rightarrow> server \<Rightarrow> server" where
  "kernel_exec (Ctl_add fd ev) s = epoll_add fd ev s"
| "kernel_exec (Ctl_mod fd ev) s = epoll_mod fd ev s"
| "kernel_exec (Ctl_del fd) s = epoll_del fd s"

lemma kernel_exec_law: "legal a (k_interest s) \<Longrightarrow> k_interest (kernel_exec a s) = apply_op a (k_interest s)"
  by (cases a) (auto simp: epoll_add_def epoll_mod_def epoll_del_def)

interpretation kernel: interest_table kernel_exec k_interest "\<lambda>_. True"
  by unfold_locales (simp add: kernel_exec_law)

section \<open>The stand-in\<close>

record epoll_compat =
  ep_instances :: "(int, (int, flags) umap) umap"
  ep_next :: int

definition ep_init :: epoll_compat where
  "ep_init = \<lparr>ep_instances = [], ep_next = 1024\<rparr>"

definition epoll_create1 :: "epoll_compat \<Rightarrow> int \<times> epoll_compat" where
  "epoll_create1 s =
     (let fd = ep_next s + 1
      in (fd, s\<lparr>ep_next := ep_next s + 1, ep_instances := um_set fd [] (ep_instances s)\<rparr>))"

datatype ctl = EPOLL_CTL_ADD | EPOLL_CTL_DEL | EPOLL_CTL_MOD | Other_op

text \<open>The return value; \<^verbatim>\<open>errno\<close> is left out.\<close>

definition epoll_ctl :: "int \<Rightarrow> ctl \<Rightarrow> int \<Rightarrow> flags option \<Rightarrow> epoll_compat \<Rightarrow> int \<times> epoll_compat" where
  "epoll_ctl epfd op fd ev s = (case um_find (ep_instances s) epfd of
     None \<Rightarrow> (-1, s)
   | Some watches \<Rightarrow>
       let store = (\<lambda>w. s\<lparr>ep_instances := um_set epfd w (ep_instances s)\<rparr>)
       in (case op of
            EPOLL_CTL_DEL \<Rightarrow> (0, store (um_erase fd watches))
          | Other_op \<Rightarrow> (-1, s)
          | _ \<Rightarrow> (case ev of None \<Rightarrow> (-1, s) | Some events \<Rightarrow> (0, store (um_set fd events watches)))))"

text \<open>A \<^verbatim>\<open>pollfd\<close> is its descriptor and the events asked for; the answer has the events that occurred.\<close>

type_synonym short = "16 word"

definition POLLIN :: short where "POLLIN = 0x001"
definition POLLOUT :: short where "POLLOUT = 0x004"
definition POLLERR :: short where "POLLERR = 0x008"
definition POLLHUP :: short where "POLLHUP = 0x010"
definition POLLNVAL :: short where "POLLNVAL = 0x020"

definition poll_events :: "flags \<Rightarrow> short" where
  "poll_events evs = or (if and evs EPOLLIN \<noteq> 0 then POLLIN else 0) (if and evs EPOLLOUT \<noteq> 0 then POLLOUT else 0)"

definition epoll_revents :: "short \<Rightarrow> flags" where
  "epoll_revents r =
     or (or (if and r POLLIN \<noteq> 0 then EPOLLIN else 0) (if and r POLLOUT \<noteq> 0 then EPOLLOUT else 0))
        (if and r (or POLLHUP (or POLLERR POLLNVAL)) \<noteq> 0 then EPOLLHUP else 0)"

text \<open>The loop that collects what occurred, up to \<open>maxevents\<close>.\<close>

fun collect :: "nat \<Rightarrow> (int \<times> short) list \<Rightarrow> (int \<times> flags) list" where
  "collect maxevents [] = []"
| "collect maxevents ((fd, r) # rs) =
     (if maxevents = 0 then []
      else if epoll_revents r \<noteq> 0 then (fd, epoll_revents r) # collect (maxevents - 1) rs
      else collect maxevents rs)"

definition epoll_wait ::
  "((int \<times> short) list \<Rightarrow> int \<times> short list) \<Rightarrow> int \<Rightarrow> nat \<Rightarrow> epoll_compat \<Rightarrow> int \<times> (int \<times> flags) list" where
  "epoll_wait poll epfd maxevents s = (case um_find (ep_instances s) epfd of
     None \<Rightarrow> (-1, [])
   | Some watches \<Rightarrow>
       let pfds = map (\<lambda>(fd, evs). (fd, poll_events evs)) watches;
           (n, revents) = poll pfds
       in if n \<le> 0 then (n, [])
          else let events = collect maxevents (zip (map fst pfds) revents) in (int (length events), events))"

section \<open>The stand-in keeps the contract\<close>

definition compat_exec :: "int \<Rightarrow> epoll_op \<Rightarrow> epoll_compat \<Rightarrow> epoll_compat" where
  "compat_exec epfd a s = snd (case a of
     Ctl_add fd ev \<Rightarrow> epoll_ctl epfd EPOLL_CTL_ADD fd (Some ev) s
   | Ctl_mod fd ev \<Rightarrow> epoll_ctl epfd EPOLL_CTL_MOD fd (Some ev) s
   | Ctl_del fd \<Rightarrow> epoll_ctl epfd EPOLL_CTL_DEL fd None s)"

definition compat_watched :: "int \<Rightarrow> epoll_compat \<Rightarrow> (int \<rightharpoonup> flags)" where
  "compat_watched epfd s = (case um_find (ep_instances s) epfd of None \<Rightarrow> Map.empty | Some w \<Rightarrow> um_find w)"

definition compat_good :: "int \<Rightarrow> epoll_compat \<Rightarrow> bool" where
  "compat_good epfd s \<longleftrightarrow> (case um_find (ep_instances s) epfd of None \<Rightarrow> False | Some w \<Rightarrow> um_ok w)"

lemma compat_exec_law:
  assumes "compat_good epfd s"
  shows "compat_good epfd (compat_exec epfd a s) \<and>
    compat_watched epfd (compat_exec epfd a s) = apply_op a (compat_watched epfd s)"
proof -
  from assms obtain w where "um_find (ep_instances s) epfd = Some w" "um_ok w"
    by (auto simp: compat_good_def split: option.splits)
  then show ?thesis
    by (cases a) (auto simp: compat_good_def compat_watched_def compat_exec_def epoll_ctl_def Let_def)
qed

interpretation compat: interest_table "compat_exec epfd" "compat_watched epfd" "compat_good epfd" for epfd
  by unfold_locales (simp add: compat_exec_law)

lemma create_good:
  "epoll_create1 s = (epfd, s') \<Longrightarrow> compat_good epfd s' \<and> compat_watched epfd s' = Map.empty"
  by (auto simp: epoll_create1_def Let_def compat_good_def compat_watched_def)

section \<open>What a wait reports\<close>

text \<open>
  \<^verbatim>\<open>poll\<close> returns the number of entries with events; apart from errors, a hang-up and an invalid
  descriptor, an entry reports only what was asked for.
\<close>

definition poll_documented :: "((int \<times> short) list \<Rightarrow> int \<times> short list) \<Rightarrow> (int \<times> short) list \<Rightarrow> bool" where
  "poll_documented poll pfds \<longleftrightarrow> (case poll pfds of (n, revents) \<Rightarrow>
     length revents = length pfds \<and> (0 < n \<longrightarrow> n = int (length (filter (\<lambda>r. r \<noteq> 0) revents))) \<and>
     list_all2 (\<lambda>(_, events) r. and r (not (or events (or POLLHUP (or POLLERR POLLNVAL)))) = 0) pfds revents)"

lemma collect_spec:
  "collect n rs = take n (filter (\<lambda>(fd, ev). ev \<noteq> 0) (map (\<lambda>(fd, r). (fd, epoll_revents r)) rs))"
proof (induction n rs rule: collect.induct)
  case (2 n fd r rs)
  then show ?case by (cases n) auto
qed simp

lemma and_bit: "and r (2 ^ k) \<noteq> 0 \<longleftrightarrow> bit r k" for r :: "'w::len word"
proof
  assume "and r (2 ^ k) \<noteq> 0"
  then obtain n where "bit (and r (2 ^ k)) n" by (auto simp: bit_eq_iff)
  then show "bit r k" by (auto simp: bit_and_iff bit_exp_iff)
next
  assume b: "bit r k"
  then have "k < LENGTH('w)" using bit_imp_le_length by blast
  with b have "bit (and r (2 ^ k)) k" by (simp add: bit_and_iff bit_exp_iff)
  then show "and r (2 ^ k) \<noteq> 0" by auto
qed

lemma event_bits:
  "and e EPOLLIN \<noteq> 0 \<longleftrightarrow> bit e 0" "and e EPOLLOUT \<noteq> 0 \<longleftrightarrow> bit e 2"
  "and r POLLIN \<noteq> 0 \<longleftrightarrow> bit r 0" "and r POLLOUT \<noteq> 0 \<longleftrightarrow> bit r 2"
  using and_bit [of e 0] and_bit [of e 2] and_bit [of r 0] and_bit [of r 2]
  by (simp_all add: EPOLLIN_def EPOLLOUT_def POLLIN_def POLLOUT_def)

lemma revents_bits:
  "bit (epoll_revents r) 0 \<longleftrightarrow> bit r 0" "bit (epoll_revents r) 2 \<longleftrightarrow> bit r 2"
  unfolding epoll_revents_def event_bits
  by (auto simp: bit_or_iff EPOLLIN_def EPOLLOUT_def EPOLLHUP_def)

text \<open>What was not asked for is not reported, but for the hang-up.\<close>

lemma reported_was_asked:
  assumes "and r (not (or (poll_events evs) (or POLLHUP (or POLLERR POLLNVAL)))) = 0"
  shows "and (epoll_revents r) EPOLLIN \<noteq> 0 \<Longrightarrow> and evs EPOLLIN \<noteq> 0"
    and "and (epoll_revents r) EPOLLOUT \<noteq> 0 \<Longrightarrow> and evs EPOLLOUT \<noteq> 0"
proof -
  have sub: "bit r n \<Longrightarrow> bit (or (poll_events evs) (or POLLHUP (or POLLERR POLLNVAL))) n" if "n < 16" for n
  proof -
    have "\<not> bit (and r (not (or (poll_events evs) (or POLLHUP (or POLLERR POLLNVAL))))) n" unfolding assms by simp
    then show "bit r n \<Longrightarrow> bit (or (poll_events evs) (or POLLHUP (or POLLERR POLLNVAL))) n"
      using that by (simp add: bit_and_iff bit_not_iff bit_or_iff)
  qed
  have "bit (or (poll_events evs) (or POLLHUP (or POLLERR POLLNVAL))) 0 \<Longrightarrow> bit evs 0"
    "bit (or (poll_events evs) (or POLLHUP (or POLLERR POLLNVAL))) 2 \<Longrightarrow> bit evs 2"
    unfolding poll_events_def event_bits
    by (auto simp: bit_or_iff POLLIN_def POLLOUT_def POLLHUP_def POLLERR_def POLLNVAL_def split: if_splits)
  with sub [of 0] sub [of 2] show
    "and (epoll_revents r) EPOLLIN \<noteq> 0 \<Longrightarrow> and evs EPOLLIN \<noteq> 0"
    "and (epoll_revents r) EPOLLOUT \<noteq> 0 \<Longrightarrow> and evs EPOLLOUT \<noteq> 0"
    unfolding event_bits revents_bits by simp_all
qed

section \<open>Properties\<close>



text \<open>
  A wait of the stand-in reports each watched descriptor at most once, at most as many as asked for, with an
  event each and no readiness the server did not ask for.
\<close>

theorem epoll_wait_reports:
  assumes "compat_good epfd s" and "\<forall>pfds. poll_documented poll pfds"
    and "epoll_wait poll epfd maxevents s = (n, events)"
  shows "distinct (map fst events) \<and> length events \<le> maxevents \<and> (events \<noteq> [] \<longrightarrow> n = int (length events)) \<and>
    (\<forall>(fd, ev)\<in>set events. ev \<noteq> 0 \<and> (\<exists>evs. compat_watched epfd s fd = Some evs \<and>
       (and ev EPOLLIN \<noteq> 0 \<longrightarrow> and evs EPOLLIN \<noteq> 0) \<and> (and ev EPOLLOUT \<noteq> 0 \<longrightarrow> and evs EPOLLOUT \<noteq> 0)))"
proof -
  from assms(1) obtain w where w: "um_find (ep_instances s) epfd = Some w" "um_ok w"
    by (auto simp: compat_good_def split: option.splits)
  let ?pfds = "map (\<lambda>(fd, evs). (fd, poll_events evs)) w"
  obtain m revents where p: "poll ?pfds = (m, revents)" by (cases "poll ?pfds")
  with assms(2) have len: "length revents = length w"
    and asked: "list_all2 (\<lambda>(_, events) r. and r (not (or events (or POLLHUP (or POLLERR POLLNVAL)))) = 0) ?pfds revents"
    by (auto simp: poll_documented_def dest!: spec [of _ ?pfds])
  let ?rs = "zip (map fst ?pfds) revents"
  show ?thesis
  proof (cases "m \<le> 0")
    case True
    with assms(3) w p have "events = []" by (simp add: epoll_wait_def Let_def)
    then show ?thesis by simp
  next
    case False
    with assms(3) w p have ev: "events = collect maxevents ?rs" "n = int (length events)"
      by (auto simp: epoll_wait_def Let_def)
    let ?all = "filter (\<lambda>(fd, ev). ev \<noteq> 0) (map (\<lambda>(fd, r). (fd, epoll_revents r)) ?rs)"
    have events: "events = take maxevents ?all" by (simp add: ev(1) collect_spec)
    have fsts: "map fst ?pfds = map fst w" by (simp add: case_prod_unfold comp_def)
    have "map fst (map (\<lambda>(fd, r). (fd, epoll_revents r)) ?rs) = map fst w"
      using len by (simp add: fsts case_prod_unfold comp_def)
    then have "distinct (map fst ?all)" using w(2) by (metis um_ok_def distinct_map_filter)
    then have 1: "distinct (map fst events)" by (simp add: events take_map [symmetric])
    have 2: "ev \<noteq> 0 \<and> (\<exists>evs. um_find w fd = Some evs \<and>
       (and ev EPOLLIN \<noteq> 0 \<longrightarrow> and evs EPOLLIN \<noteq> 0) \<and> (and ev EPOLLOUT \<noteq> 0 \<longrightarrow> and evs EPOLLOUT \<noteq> 0))"
      if "(fd, ev) \<in> set events" for fd ev
    proof -
      from that have "(fd, ev) \<in> set ?all" unfolding events by (rule in_set_takeD)
      then obtain r where r: "(fd, r) \<in> set ?rs" "ev = epoll_revents r" "ev \<noteq> 0" by auto
      then obtain i where i: "i < length w" "fd = fst (w ! i)" "r = revents ! i"
        using len by (auto simp: set_zip case_prod_unfold)
      let ?evs = "snd (w ! i)"
      have "and r (not (or (poll_events ?evs) (or POLLHUP (or POLLERR POLLNVAL)))) = 0"
        using list_all2_nthD [OF asked, of i] i by (simp add: case_prod_unfold)
      moreover have "um_find w fd = Some ?evs"
        using w(2) i by (simp add: um_ok_def map_of_eq_Some_iff)
      ultimately show ?thesis using reported_was_asked [of r ?evs] r(2,3) by simp
    qed
    have "compat_watched epfd s = um_find w" by (simp add: compat_watched_def w(1))
    moreover have "length events \<le> maxevents" by (simp add: events)
    ultimately show ?thesis using 1 2 ev(2) by (intro conjI ballI) auto
  qed
qed

lemma epoll_wait_reports_witness:
  "\<exists>n events. epoll_wait (\<lambda>pfds. (int (length (filter (\<lambda>r. r \<noteq> 0) (map (\<lambda>(_, e). and e POLLIN) pfds))),
       map (\<lambda>(_, e). and e POLLIN) pfds)) 1025 64
       (compat_exec 1025 (Ctl_add 7 EPOLLIN) (snd (epoll_create1 ep_init))) = (n, events) \<and>
     distinct (map fst events) \<and> length events \<le> 64"
proof -
  let ?poll = "\<lambda>pfds :: (int \<times> short) list. (int (length (filter (\<lambda>r. r \<noteq> 0) (map (\<lambda>(_, e). and e POLLIN) pfds))),
       map (\<lambda>(_, e). and e POLLIN) pfds)"
  let ?s = "snd (epoll_create1 ep_init)" and ?s' = "compat_exec 1025 (Ctl_add 7 EPOLLIN) (snd (epoll_create1 ep_init))"
  have "epoll_create1 ep_init = (1025, ?s)" by (simp add: epoll_create1_def ep_init_def Let_def)
  then have good: "compat_good 1025 ?s'" using create_good compat_exec_law by blast
  have "and (and e POLLIN) (and (not e) x) = 0" for e x :: short
    by (rule bit_eqI) (auto simp: bit_and_iff bit_or_iff bit_not_iff)
  then have doc: "\<forall>pfds. poll_documented ?poll pfds"
    by (auto simp: poll_documented_def list_all2_conv_all_nth case_prod_unfold simp del: of_nat_less_0_iff)
  obtain n events where w: "epoll_wait ?poll 1025 64 ?s' = (n, events)" by (cases "epoll_wait ?poll 1025 64 ?s'")
  from epoll_wait_reports [OF good doc w] w show ?thesis by blast
qed

end
