(* ===== verification/Spec2Isabelle.thy ===== *)
theory Spec2Isabelle
  imports Sweeper LfuSpec SieveSpec AdminSpec Cli Program EpollCompat
begin

text \<open>
  Verification development for polycache, an in-memory key-value cache that speaks RESP2
  (\<^verbatim>\<open>src/src/\<close>, C++).

  \<^bold>\<open>The program.\<close> \<^verbatim>\<open>main.cpp\<close> reads the options, builds a \<^verbatim>\<open>Storage\<close>, replays the append-only log into it
  (\<^verbatim>\<open>AOFLogger\<close>) and runs two event loops: \<^verbatim>\<open>Server\<close>, which reads commands through one incremental \<^verbatim>\<open>Parser\<close> per
  connection, executes them on the storage, logs the writes and queues the replies; and \<^verbatim>\<open>AdminServer\<close>, a small
  HTTP server for the metrics. The storage keeps its memory budget with an \<^verbatim>\<open>EvictionPolicy\<close> and its expiries in
  \<^verbatim>\<open>TTLManager\<close>, whose sweeper thread calls back into the storage.

  \<^bold>\<open>Conventions.\<close> A \<^verbatim>\<open>size_t\<close> is a \<open>64 word\<close>, whose arithmetic wraps. A \<^verbatim>\<open>std::string\<close> is a
  \<open>string\<close>, one \<open>char\<close> a byte. A class is a record, an operation a function that returns the new record.
  Undefined behaviour (a dangling iterator, a freed node, a write past a buffer) and an exception nobody catches are
  \<open>None\<close>; a caught exception is a branch. The clock, the capacity of a string, the growth of the bucket array, the
  success of an allocation, the JSON library and the answers of the kernel are arguments.

  \<^bold>\<open>Theories, from the bottom.\<close>
  \<^item> \<open>Prelude\<close>: types, hint collections, sums over finite maps (the shape of every byte counter). \<open>Stdlib\<close>:
    \<^verbatim>\<open>unordered_map\<close> and \<^verbatim>\<open>std::list\<close> with iterators that can dangle. \<open>Decimal\<close>: \<^verbatim>\<open>to_string\<close> and digits.
    \<open>Socket\<close>: what \<^verbatim>\<open>send\<close> and \<^verbatim>\<open>recv\<close> can answer, and the locale \<open>sender\<close>, the contract of a routine that sends.
  \<^item> \<open>Policy\<close>: \<^verbatim>\<open>eviction/policy.h\<close>, the interface as a record and its contract as the locales \<open>eviction_policy\<close> and
    \<open>newest_last_policy\<close>. \<open>Lru\<close>, \<open>Lfu\<close>, \<open>Sieve\<close>: \<^verbatim>\<open>eviction/*.cpp\<close>, each with its invariant and an
    interpretation of the contract; \<open>Lru\<close>, \<open>LfuSpec\<close> and \<open>SieveSpec\<close> refine them to a recency list, a frequency list and
    a queue with a hand.
  \<^item> \<open>Ttl\<close>: \<^verbatim>\<open>ttl.cpp\<close>, the expiry table. \<open>Storage\<close>: \<^verbatim>\<open>storage.cpp\<close>, every operation; \<open>StorageInv\<close> proves its laws for
    every policy that keeps the contract, inside the locale; \<open>StorageLru\<close> has the histories of the storage as the program
    builds it and their properties. \<open>Sweeper\<close>: the critical sections of \<^verbatim>\<open>sweep_loop\<close>, interleaved with clients.
  \<^item> \<open>Protocol\<close>: \<^verbatim>\<open>protocol.cpp\<close>, one turn of \<^verbatim>\<open>Parser::consume\<close> per call of \<open>consume_step\<close>. \<open>ParserInv\<close>: its
    invariant and bounds. \<open>Resp\<close>: frames, chunking and the round trip.
  \<^item> \<open>Base64\<close>, \<open>Aof\<close>: \<^verbatim>\<open>aof.cpp\<close>, the codec, the log's lines and the replay; what is needed of the JSON library is
    the hypothesis \<open>json_documented\<close>.
  \<^item> \<open>Command\<close>: \<^verbatim>\<open>Server::execute_command\<close> with the options of SET; \<open>CommandSpec\<close>: replies, the log and
    the storage together.
  \<^item> \<open>Outbox\<close>: the loop of \<^verbatim>\<open>Server::try_send\<close>. \<open>Server\<close>: the connection tables and every handler of the event
    loop. \<open>ServerInv\<close>: what a handler does to its connection and to the others. \<open>ServerSpec\<close>: the replies a connection
    is promised. \<open>ServerReach\<close>: the loop as a transition system, and its properties.
  \<^item> \<open>Admin\<close>, \<open>AdminSpec\<close>: \<^verbatim>\<open>admin.cpp\<close>. \<open>Cli\<close>: \<^verbatim>\<open>main.cpp\<close> up to the running server. \<open>Lifecycle\<close>: \<^verbatim>\<open>start\<close>, \<^verbatim>\<open>stop\<close> and the
    destructors of both servers. \<open>Program\<close>: the main thread, the admin thread and the signal handler. \<open>EpollCompat\<close>: \<^verbatim>\<open>epoll_compat.h\<close>, and the locale \<open>interest_table\<close> that
    both it and the kernel's \<^verbatim>\<open>epoll\<close> satisfy.

  \<^bold>\<open>What is shown.\<close> Each policy refines its specification over every history. The storage's counters, its budget and
  the agreement of table, policy and expiries are invariants of every history, also with the sweeper
  in between. The parser is independent of chunking, reads every frame back and stays within its bounds. Every command
  executes and is answered by one RESP reply; the log holds the acknowledged writes and the replay repeats
  them. In every reachable state of the server no event goes wrong, output is announced exactly when it waits, and
  a client's replies come in order and whole. The program starts on any log file, starting and stopping leak no
  descriptor, and a signal that arrives while both loops run ends the program within eight steps of its threads. Theorems about behaviour that is not as meant are stated beside these: a hand of SIEVE that
  evicts a marked key, a value deleted by a sweep that began before it was set, a set that returns true and keeps nothing,
  a write behind a torn line that is lost, a refused write that is replayed, a reply split by a line
  break, an error text inside another reply, an admin request refused because it came in two parts, a stop that is lost, so
  that the program hangs after a failed start, a signal that reaches a destroyed object, a limit that wraps to zero.

  \<^bold>\<open>Bounds and fuel.\<close> No definition has fuel. Loops end by measures: the input and the parser's state
  (\<open>consume\<close>, \<open>drain_buffer\<close>), the table (\<open>evict_if_over_limit\<close>), the queue and the kernel's remaining answers (\<open>send_loop\<close>,
  \<open>read_loop\<close>, \<open>send_all\<close>). A list of answers that is used up is a socket that would block; in \<open>send_all\<close>, which
  polls until it can go on, that is \<open>None\<close>. An endless sequence of interrupts is not represented. The loops of SIEVE and LFU
  over a heap are partial functions, shown to return. Hypotheses \<open>length past < 2 ^ 64\<close> keep a
  wrapping frequency of LFU apart.

  \<^bold>\<open>Not modelled.\<close> The vendored JSON library (\<^verbatim>\<open>third_party/\<close>); messages to the terminal; exceptions in
  \<^verbatim>\<open>main\<close> other than those of the option values and of the creation of the thread; socket options; memory exhaustion other than where the code handles it (the
  parser's buffers, the shared pointers of PING and SET). The mutexes of \<^verbatim>\<open>Storage\<close> and \<^verbatim>\<open>TTLManager\<close> are
  represented by the atomicity of their critical sections, the unsynchronised flag of the loops by
  sequentially consistent accesses, and a signal by one step of the handler between two steps of the threads.
\<close>

end
